(* ===== verification/Prelude.thy ===== *)
theory Prelude
  imports Main "HOL-Library.Word"
begin

section \<open>Shared vocabulary\<close>

text \<open>
  The types and generic facts every component uses: names for the C integer
  types, the block-size macros of \<^verbatim>\<open>sys/sysmacros.h\<close>, the bit-field macros of
  \<^verbatim>\<open>fs/zfs/sys/spa.h\<close>, and list lemmas about contents split around a point.
  C's unsigned integers are words of their width, so \<open>+\<close>, \<open>-\<close> and \<open>*\<close> wrap
  and \<open><\<close> is the unsigned order.
\<close>

unbundle bit_operations_syntax

type_synonym u8 = "8 word"
type_synonym u16 = "16 word"
type_synonym u32 = "32 word"
type_synonym u64 = "64 word"

named_theorems list_split \<open>facts about lists split around a point\<close>

subsection \<open>Optional ends of lists\<close>

definition hd_opt :: "'a list \<Rightarrow> 'a option" where
  "hd_opt xs = (case xs of [] \<Rightarrow> None | x # _ \<Rightarrow> Some x)"

definition last_opt :: "'a list \<Rightarrow> 'a option" where
  "last_opt xs = (if xs = [] then None else Some (last xs))"

lemma hd_opt_simps [simp]:
  "hd_opt [] = None" "hd_opt (x # xs) = Some x"
  by (simp_all add: hd_opt_def)

lemma last_opt_simps [simp]:
  "last_opt [] = None" "last_opt (xs @ [x]) = Some x" "last_opt [x] = Some x"
  by (simp_all add: last_opt_def)

lemma hd_opt_append: "hd_opt (xs @ ys) = (if xs = [] then hd_opt ys else hd_opt xs)"
  by (cases xs) auto

lemma last_opt_append: "last_opt (xs @ ys) = (if ys = [] then last_opt xs else last_opt ys)"
  by (simp add: last_opt_def)

lemma last_opt_Cons: "last_opt (x # xs) = (if xs = [] then Some x else last_opt xs)"
  by (simp add: last_opt_def)

lemma last_opt_SomeD: "last_opt xs = Some x \<Longrightarrow> \<exists>us. xs = us @ [x]"
  by (metis append_butlast_last_id last_opt_def option.distinct(1) option.inject)

lemma hd_opt_SomeD: "hd_opt xs = Some x \<Longrightarrow> \<exists>us. xs = x # us"
  by (cases xs) auto

lemma last_opt_None [simp]: "last_opt xs = None \<longleftrightarrow> xs = []"
  by (simp add: last_opt_def)

lemma hd_opt_None [simp]: "hd_opt xs = None \<longleftrightarrow> xs = []"
  by (cases xs) auto

subsection \<open>Block-size and bit-field macros\<close>

definition P2ALIGN :: "u64 \<Rightarrow> u64 \<Rightarrow> u64" where
  "P2ALIGN x align = x AND (- align)"

definition P2PHASE :: "u64 \<Rightarrow> u64 \<Rightarrow> u64" where
  "P2PHASE x align = x AND (align - 1)"

definition P2NPHASE :: "u64 \<Rightarrow> u64 \<Rightarrow> u64" where
  "P2NPHASE x align = (- x) AND (align - 1)"

definition P2ROUNDUP :: "u64 \<Rightarrow> u64 \<Rightarrow> u64" where
  "P2ROUNDUP x align = - ((- x) AND (- align))"

text \<open>\<open>1ULL << n\<close>\<close>

abbreviation bit64 :: "nat \<Rightarrow> u64" where
  "bit64 n \<equiv> push_bit n 1"

definition BF64_DECODE :: "u64 \<Rightarrow> nat \<Rightarrow> nat \<Rightarrow> u64" where
  "BF64_DECODE x low len = P2PHASE (drop_bit low x) (bit64 len)"

definition BF64_ENCODE :: "u64 \<Rightarrow> nat \<Rightarrow> nat \<Rightarrow> u64" where
  "BF64_ENCODE x low len = push_bit low (P2PHASE x (bit64 len))"

definition BF64_SET :: "u64 \<Rightarrow> nat \<Rightarrow> nat \<Rightarrow> u64 \<Rightarrow> u64" where
  "BF64_SET x low len val = x XOR BF64_ENCODE (drop_bit low x XOR val) low len"

definition BF64_GET_SB :: "u64 \<Rightarrow> nat \<Rightarrow> nat \<Rightarrow> nat \<Rightarrow> u64 \<Rightarrow> u64" where
  "BF64_GET_SB x low len shift bias = push_bit shift (BF64_DECODE x low len + bias)"

definition BF64_SET_SB :: "u64 \<Rightarrow> nat \<Rightarrow> nat \<Rightarrow> nat \<Rightarrow> u64 \<Rightarrow> u64 \<Rightarrow> u64" where
  "BF64_SET_SB x low len shift bias val = BF64_SET x low len (drop_bit shift val - bias)"

lemma P2PHASE_bit64 [simp]: "P2PHASE x (2 ^ n) = take_bit n x"
  by (simp add: P2PHASE_def take_bit_eq_mask mask_eq_exp_minus_1)

lemma bit_BF64_DECODE: "bit (BF64_DECODE x low len) i \<longleftrightarrow> i < len \<and> bit x (low + i)"
  by (auto simp: BF64_DECODE_def bit_simps dest: bit_imp_le_length)

lemma bit_BF64_ENCODE:
  "bit (BF64_ENCODE x low len) i \<longleftrightarrow> i < 64 \<and> low \<le> i \<and> i < low + len \<and> bit x (i - low)"
  by (auto simp: BF64_ENCODE_def bit_simps)

lemma bit_BF64_SET:
  "bit (BF64_SET x low len val) i \<longleftrightarrow>
     i < 64 \<and> (if low \<le> i \<and> i < low + len then bit val (i - low) else bit x i)"
  by (auto simp: BF64_SET_def bit_BF64_ENCODE bit_simps dest: bit_imp_le_length)

lemma BF64_DECODE_ENCODE:
  "low + len \<le> 64 \<Longrightarrow> BF64_DECODE (BF64_ENCODE x low len) low len = take_bit len x"
  by (rule bit_eqI) (auto simp: bit_BF64_DECODE bit_BF64_ENCODE bit_simps)

lemma BF64_DECODE_ENCODE_other:
  "low + len \<le> low' \<or> low' + len' \<le> low \<Longrightarrow> BF64_DECODE (BF64_ENCODE x low' len') low len = 0"
  by (rule bit_eqI) (auto simp: bit_BF64_DECODE bit_BF64_ENCODE)

lemma BF64_DECODE_OR: "BF64_DECODE (x OR y) low len = BF64_DECODE x low len OR BF64_DECODE y low len"
  by (rule bit_eqI) (auto simp: bit_BF64_DECODE bit_simps)

lemma BF64_DECODE_SET:
  "low + len \<le> 64 \<Longrightarrow> BF64_DECODE (BF64_SET x low len val) low len = take_bit len val"
  by (rule bit_eqI) (auto simp: bit_BF64_DECODE bit_BF64_SET bit_simps)

lemma BF64_DECODE_SET_other:
  "low + len \<le> low' \<or> low' + len' \<le> low \<Longrightarrow>
    BF64_DECODE (BF64_SET x low' len' val) low len = BF64_DECODE x low len"
  by (rule bit_eqI) (auto simp: bit_BF64_DECODE bit_BF64_SET dest: bit_imp_le_length)

lemma BF64_DECODE_bound: "len \<le> 63 \<Longrightarrow> unat (BF64_DECODE x low len) < 2 ^ len"
  by (simp add: BF64_DECODE_def unsigned_take_bit_eq)

text \<open>Aligned values: multiples of \<open>1ULL << n\<close>.\<close>

lemma aligned_iff_dvd:
  fixes x :: u64
  assumes "n \<le> 64"
  shows "take_bit n x = 0 \<longleftrightarrow> 2 ^ n dvd unat x"
proof -
  have "take_bit n x = 0 \<longleftrightarrow> unat (take_bit n x) = 0" by (simp only: unat_eq_0)
  also have "unat (take_bit n x) = unat x mod 2 ^ n"
    by (subst unsigned_take_bit_eq) (rule take_bit_eq_mod)
  finally show ?thesis by (simp only: dvd_eq_mod_eq_0)
qed

lemma aligned_big:
  fixes x :: u64
  shows "64 \<le> n \<Longrightarrow> take_bit n x = x"
  by (rule bit_eqI) (auto simp: bit_take_bit_iff dest: bit_imp_le_length)

lemma aligned_add:
  fixes x y :: u64
  assumes "take_bit n x = 0" "take_bit n y = 0"
  shows "take_bit n (x + y) = 0"
proof (cases "n \<le> 64")
  case True
  then have "(2::nat) ^ n dvd 2 ^ 64" by (rule le_imp_power_dvd)
  then show ?thesis using assms True
    by (simp add: aligned_iff_dvd unat_word_ariths dvd_mod del: power_numeral)
next
  case False
  then show ?thesis using assms by (simp add: aligned_big)
qed

lemma aligned_diff:
  fixes x y :: u64
  assumes "take_bit n x = 0" "take_bit n y = 0"
  shows "take_bit n (x - y) = 0"
proof (cases "n \<le> 64")
  case True
  then have "(2::nat) ^ n dvd 2 ^ 64" by (rule le_imp_power_dvd)
  then show ?thesis using assms True
    by (simp add: aligned_iff_dvd unat_sub_if' dvd_diff_nat del: power_numeral)
next
  case False
  then show ?thesis using assms by (simp add: aligned_big)
qed

subsection \<open>Intervals of words\<close>

lemma card_word_interval: "card {a ..< b :: 'a::len word} = unat b - unat a"
proof -
  have "unat ` {a ..< b} = {unat a ..< unat b}"
  proof (rule set_eqI, rule iffI)
    fix n assume "n \<in> {unat a ..< unat b}"
    then have "n = unat (of_nat n :: 'a word)"
      using order.strict_trans [of n "unat b" "2 ^ LENGTH('a)"] by (simp add: unat_of_nat)
    then show "n \<in> unat ` {a ..< b}"
      using \<open>n \<in> {unat a ..< unat b}\<close> by (auto simp: word_le_nat_alt word_less_nat_alt image_iff intro!: bexI [of _ "of_nat n"])
  qed (auto simp: word_le_nat_alt word_less_nat_alt)
  moreover have "card (unat ` {a ..< b}) = card {a ..< b}"
    by (rule card_image, rule inj_onI) (rule unsigned_word_eqI)
  ultimately show ?thesis by simp
qed

lemma unat_add_bound:
  fixes a b :: "'a::len word"
  assumes "unat a + unat b < 2 ^ LENGTH('a)"
  shows "unat (a + b) = unat a + unat b"
  using assms by (simp add: unat_word_ariths)

lemma word_less_add:
  fixes a b :: "'a::len word"
  assumes "unat a + unat b < 2 ^ LENGTH('a)" "b \<noteq> 0"
  shows "a < a + b"
  using assms by (simp add: word_less_nat_alt unat_add_bound unat_gt_0)

lemma unat_diff_le:
  fixes a b :: "'a::len word"
  shows "a \<le> b \<Longrightarrow> unat (b - a) = unat b - unat a"
  by (simp add: unat_sub_if' word_le_nat_alt)

lemma P2ALIGN_unat: "unat (P2ALIGN x (2 ^ n)) = unat x div 2 ^ n * 2 ^ n"
proof -
  have "P2ALIGN x (2 ^ n) = push_bit n (drop_bit n x)"
    by (rule bit_eqI) (auto simp: P2ALIGN_def minus_exp_eq_not_mask bit_simps)
  also have "\<dots> = of_nat (push_bit n (drop_bit n (unat x)))"
    by (rule bit_eqI) (auto simp: bit_simps)
  finally have eq: "P2ALIGN x (2 ^ n) = of_nat (unat x div 2 ^ n * 2 ^ n)"
    by (simp only: push_bit_eq_mult drop_bit_eq_div)
  have "unat x div 2 ^ n * 2 ^ n \<le> unat x" by (simp add: div_times_less_eq_dividend)
  also have "\<dots> < 2 ^ 64" using unsigned_less [of x] by simp
  finally show ?thesis unfolding eq by (simp add: unat_of_nat take_bit_nat_eq_self del: of_nat_mult of_nat_power)
qed

lemma unat_neg: "x \<noteq> 0 \<Longrightarrow> unat (- x) = 2 ^ 64 - unat x" for x :: u64
  using unat_sub_if' [of 0 x] by (simp add: unat_eq_0)

lemma P2ROUNDUP_unat:
  assumes "n \<le> 63" "unat x + 2 ^ n \<le> 2 ^ 64"
  shows "unat (P2ROUNDUP x (2 ^ n)) = (unat x + 2 ^ n - 1) div 2 ^ n * 2 ^ n"
proof (cases "x = 0")
  case True
  then show ?thesis by (simp add: P2ROUNDUP_def)
next
  case False
  define k where "k = (2::nat) ^ n"
  define m where "m = (2::nat) ^ (64 - n)"
  have k: "0 < k" and mk: "m * k = 2 ^ 64" using assms(1) by (simp_all add: k_def m_def flip: power_add)
  define c where "c = (unat x + k - 1) div k"
  have x: "0 < unat x" using False by (simp add: unat_gt_0)
  have c1: "(c - 1) * k < unat x \<and> unat x \<le> c * k \<and> 0 < c"
  proof -
    have c: "0 < c" using x k by (simp add: c_def div_greater_zero_iff)
    have "c * k \<le> unat x + k - 1" by (simp add: c_def div_times_less_eq_dividend)
    moreover have "unat x + k - 1 < c * k + k" using dividend_less_div_times [OF k, of "unat x + k - 1"] by (simp add: c_def)
    ultimately show ?thesis using c x k by (auto simp: diff_mult_distrib)
  qed
  have cm: "c < m"
  proof -
    have "unat x \<le> (m - 1) * k" using assms(2) mk by (simp add: k_def diff_mult_distrib)
    then have "(c - 1) * k < (m - 1) * k" using c1 by linarith
    then have "c - 1 < m - 1" by simp
    then show ?thesis using c1 by linarith
  qed
  have neg: "unat (- x) = m * k - unat x" using False mk by (simp add: unat_neg)
  have "unat (P2ALIGN (- x) (2 ^ n)) = (m * k - unat x) div k * k" by (simp add: P2ALIGN_unat neg k_def)
  also have "(m * k - unat x) div k = m - c"
  proof (rule div_nat_eqI)
    have ck: "c * k < m * k" using cm k by simp
    have e: "k * (m - c) = m * k - c * k" "k * Suc (m - c) = m * k - c * k + k"
      by (simp_all add: diff_mult_distrib2 mult.commute)
    have "c * k < unat x + k" "unat x \<le> c * k" using c1 by (auto simp: diff_mult_distrib)
    then show "k * (m - c) \<le> m * k - unat x" "m * k - unat x < k * Suc (m - c)"
      unfolding e using ck by linarith+
  qed
  finally have al: "unat (P2ALIGN (- x) (2 ^ n)) = m * k - c * k" by (simp add: diff_mult_distrib)
  have "c * k < m * k" using cm k by simp
  then have "P2ALIGN (- x) (2 ^ n) \<noteq> 0" using al by (auto simp: unat_eq_0 [symmetric])
  then have "unat (- P2ALIGN (- x) (2 ^ n)) = 2 ^ 64 - (m * k - c * k)"
    using al by (simp add: unat_neg)
  also have "\<dots> = c * k" using \<open>c * k < m * k\<close> unfolding mk [symmetric] by simp
  finally show ?thesis by (simp add: P2ROUNDUP_def P2ALIGN_def c_def k_def)
qed

section \<open>Error numbers\<close>

text \<open>The values of \<^verbatim>\<open>errno.h\<close>; \<^verbatim>\<open>ECKSUM\<close> is \<^verbatim>\<open>EBADE\<close>, which is \<^verbatim>\<open>EBADMACHO\<close> on Darwin.\<close>

definition ENOENT :: int where "ENOENT = 2"
definition EIO :: int where "EIO = 5"
definition ENXIO :: int where "ENXIO = 6"
definition EBUSY :: int where "EBUSY = 16"
definition EEXIST :: int where "EEXIST = 17"
definition EINVAL :: int where "EINVAL = 22"
definition ENOSPC :: int where "ENOSPC = 28"
definition ESTALE :: int where "ESTALE = 70"
definition ECKSUM :: int where "ECKSUM = 88"

lemmas errno_defs = ENOENT_def EIO_def ENXIO_def EBUSY_def EEXIST_def EINVAL_def ENOSPC_def ESTALE_def ECKSUM_def

end
