(* ===== verification/Avl.thy ===== *)
theory Avl
  imports Prelude
begin

section \<open>AVL trees\<close>

text \<open>
  The balanced trees of \<^verbatim>\<open>usr/src/common/avl/avl.c\<close>, on which the space maps, the
  range locks and the device queues are built.

  A node of the C code holds two children, a balance and a parent pointer with
  the index of the node in its parent.  The children and the balance are the
  fields of the datatype below; the parent pointers are the stack of frames that
  a descent from the root leaves behind, so moving to the parent is popping a
  frame and \<open>AVL_XCHILD\<close> is the direction the frame records.  A data pointer is
  the datum itself: a tree holds pairwise different data, so the datum determines
  its node.  An \<open>avl_index_t\<close> (a node and a child index, naming an empty place)
  is the list of directions from the root to that place.

  The C routines are written for both directions at once, with \<open>left\<close> and
  \<open>right\<close> as variables.  The definitions keep that form.
\<close>

subsection \<open>Nodes, frames and places\<close>

text \<open>The child indices 0 and 1, by their names in \<^verbatim>\<open>sys/avl.h\<close>.\<close>

datatype avl_dir = AVL_BEFORE | AVL_AFTER

fun other :: "avl_dir \<Rightarrow> avl_dir" where
  "other AVL_BEFORE = AVL_AFTER"
| "other AVL_AFTER = AVL_BEFORE"

datatype 'a avl_node = NULL | Node "'a avl_node" 'a int "'a avl_node"

record 'a avl_tree =
  avl_root :: "'a avl_node"
  avl_compar :: "'a \<Rightarrow> 'a \<Rightarrow> int"
  avl_numnodes :: nat

datatype 'a avl_frame = Frame avl_dir 'a int "'a avl_node"

type_synonym avl_index = "avl_dir list"

fun avl_child2balance :: "avl_dir \<Rightarrow> int" where
  "avl_child2balance AVL_BEFORE = - 1"
| "avl_child2balance AVL_AFTER = 1"

definition avl_balance2child :: "int \<Rightarrow> avl_dir" where
  "avl_balance2child b = (if b \<le> 0 then AVL_BEFORE else AVL_AFTER)"

fun avl_child :: "avl_dir \<Rightarrow> 'a avl_node \<Rightarrow> 'a avl_node" where
  "avl_child c NULL = NULL"
| "avl_child AVL_BEFORE (Node l d b r) = l"
| "avl_child AVL_AFTER (Node l d b r) = r"

fun avl_setchild :: "avl_dir \<Rightarrow> 'a avl_node \<Rightarrow> 'a avl_node \<Rightarrow> 'a avl_node" where
  "avl_setchild c t NULL = NULL"
| "avl_setchild AVL_BEFORE t (Node l d b r) = Node t d b r"
| "avl_setchild AVL_AFTER t (Node l d b r) = Node l d b t"

fun AVL_XBALANCE :: "'a avl_node \<Rightarrow> int" where
  "AVL_XBALANCE NULL = 0"
| "AVL_XBALANCE (Node l d b r) = b"

fun AVL_SETBALANCE :: "int \<Rightarrow> 'a avl_node \<Rightarrow> 'a avl_node" where
  "AVL_SETBALANCE b' NULL = NULL"
| "AVL_SETBALANCE b' (Node l d b r) = Node l d b' r"

text \<open>Putting a subtree back under its parent, and under all of its ancestors.\<close>

fun plug :: "'a avl_frame \<Rightarrow> 'a avl_node \<Rightarrow> 'a avl_node" where
  "plug (Frame AVL_BEFORE d b s) t = Node t d b s"
| "plug (Frame AVL_AFTER d b s) t = Node s d b t"

definition zip_up :: "'a avl_frame list \<Rightarrow> 'a avl_node \<Rightarrow> 'a avl_node" where
  "zip_up fs t = fold plug fs t"

text \<open>Following an index from the root: the subtree there and its ancestors.\<close>

fun descend :: "avl_index \<Rightarrow> 'a avl_node \<Rightarrow> 'a avl_frame list \<Rightarrow> 'a avl_node \<times> 'a avl_frame list" where
  "descend [] t fs = (t, fs)"
| "descend (c # p) NULL fs = (NULL, fs)"
| "descend (c # p) (Node l d b r) fs =
     descend p (avl_child c (Node l d b r))
       (Frame c d b (avl_child (other c) (Node l d b r)) # fs)"

text \<open>\<open>AVL_DATA2NODE\<close>: the node that holds a datum, with its ancestors.\<close>

fun AVL_DATA2NODE ::
  "'a \<Rightarrow> 'a avl_node \<Rightarrow> 'a avl_frame list \<Rightarrow> ('a avl_node \<times> 'a avl_frame list) option" where
  "AVL_DATA2NODE x NULL fs = None"
| "AVL_DATA2NODE x (Node l d b r) fs =
     (if d = x then Some (Node l d b r, fs)
      else case AVL_DATA2NODE x l (Frame AVL_BEFORE d b r # fs) of
             Some z \<Rightarrow> Some z
           | None \<Rightarrow> AVL_DATA2NODE x r (Frame AVL_AFTER d b l # fs))"

subsection \<open>Walking\<close>

text \<open>The two loops of \<open>avl_walk\<close>: down to the far end of a subtree, and up until
  the walk comes out of the far child.\<close>

fun avl_walk_down :: "avl_dir \<Rightarrow> 'a avl_node \<Rightarrow> 'a option" where
  "avl_walk_down right NULL = None"
| "avl_walk_down right (Node l d b r) =
     (case right of
        AVL_BEFORE \<Rightarrow> (if l = NULL then Some d else avl_walk_down right l)
      | AVL_AFTER \<Rightarrow> (if r = NULL then Some d else avl_walk_down right r))"

fun avl_walk_up :: "avl_dir \<Rightarrow> 'a avl_frame list \<Rightarrow> 'a option" where
  "avl_walk_up right [] = None"
| "avl_walk_up right (Frame was_child d b s # fs) =
     (if was_child = right then Some d else avl_walk_up right fs)"

definition avl_walk :: "'a avl_tree \<Rightarrow> 'a \<Rightarrow> avl_dir \<Rightarrow> 'a option" where
  "avl_walk tree oldnode left =
     (case AVL_DATA2NODE oldnode (avl_root tree) [] of
        None \<Rightarrow> None
      | Some (node, fs) \<Rightarrow>
          (if avl_child left node \<noteq> NULL
           then avl_walk_down (other left) (avl_child left node)
           else avl_walk_up (other left) fs))"

abbreviation AVL_NEXT :: "'a avl_tree \<Rightarrow> 'a \<Rightarrow> 'a option" where
  "AVL_NEXT tree x \<equiv> avl_walk tree x AVL_AFTER"

abbreviation AVL_PREV :: "'a avl_tree \<Rightarrow> 'a \<Rightarrow> 'a option" where
  "AVL_PREV tree x \<equiv> avl_walk tree x AVL_BEFORE"

definition avl_first :: "'a avl_tree \<Rightarrow> 'a option" where
  "avl_first tree = avl_walk_down AVL_BEFORE (avl_root tree)"

definition avl_last :: "'a avl_tree \<Rightarrow> 'a option" where
  "avl_last tree = avl_walk_down AVL_AFTER (avl_root tree)"

definition avl_nearest :: "'a avl_tree \<Rightarrow> avl_index \<Rightarrow> avl_dir \<Rightarrow> 'a option" where
  "avl_nearest tree where' direction =
     (case snd (descend where' (avl_root tree) []) of
        [] \<Rightarrow> None
      | Frame child data b s # fs \<Rightarrow>
          (if child \<noteq> direction then Some data else avl_walk tree data direction))"

text \<open>The callers' loop \<open>for (x = avl_first(t); x != NULL; x = AVL_NEXT(t, x))\<close> as the
  list of the data it visits; the fuel bounds the number of steps.\<close>

fun avl_next_loop :: "nat \<Rightarrow> 'a avl_tree \<Rightarrow> 'a option \<Rightarrow> 'a list option" where
  "avl_next_loop n t None = Some []"
| "avl_next_loop 0 t (Some x) = None"
| "avl_next_loop (Suc n) t (Some x) = map_option ((#) x) (avl_next_loop n t (AVL_NEXT t x))"

subsection \<open>Searching\<close>

datatype 'a avl_search = Found 'a | NotFound avl_index

fun avl_find_loop :: "('a \<Rightarrow> 'a \<Rightarrow> int) \<Rightarrow> 'a \<Rightarrow> 'a avl_node \<Rightarrow> avl_index \<Rightarrow> 'a avl_search" where
  "avl_find_loop compar value NULL path = NotFound path"
| "avl_find_loop compar value (Node l d b r) path =
     (let diff = compar value d in
      if diff = 0 then Found d
      else (case avl_balance2child diff of
              AVL_BEFORE \<Rightarrow> avl_find_loop compar value l (path @ [AVL_BEFORE])
            | AVL_AFTER \<Rightarrow> avl_find_loop compar value r (path @ [AVL_AFTER])))"

definition avl_find :: "'a avl_tree \<Rightarrow> 'a \<Rightarrow> 'a avl_search" where
  "avl_find tree value = avl_find_loop (avl_compar tree) value (avl_root tree) []"

subsection \<open>Rotation\<close>

text \<open>
  \<open>balance\<close> is the new balance of \<open>node\<close>, -2 or 2, which is not stored in it.
  The result is the subtree that replaces \<open>node\<close> and whether it is shorter.
\<close>

definition avl_rotation :: "'a avl_node \<Rightarrow> int \<Rightarrow> 'a avl_node \<times> bool" where
  "avl_rotation node balance =
     (let left = (if balance < 0 then AVL_BEFORE else AVL_AFTER);
          right = other left;
          left_heavy = balance div 2;
          right_heavy = - left_heavy;
          child = avl_child left node;
          child_bal = AVL_XBALANCE child
      in
      if child_bal \<noteq> right_heavy then
        let child_bal = child_bal + right_heavy;
            cright = avl_child right child;
            node = AVL_SETBALANCE (- child_bal) (avl_setchild left cright node);
            child = AVL_SETBALANCE child_bal (avl_setchild right node child)
        in (child, child_bal = 0)
      else
        let gchild = avl_child right child;
            gleft = avl_child left gchild;
            gright = avl_child right gchild;
            node = avl_setchild left gright node;
            child = avl_setchild right gleft child;
            balance = AVL_XBALANCE gchild;
            child = AVL_SETBALANCE (if balance = right_heavy then left_heavy else 0) child;
            gchild = avl_setchild left child gchild;
            node = AVL_SETBALANCE (if balance = left_heavy then right_heavy else 0) node;
            gchild = avl_setchild right node gchild;
            gchild = AVL_SETBALANCE 0 gchild
        in (gchild, True))"

subsection \<open>Insertion\<close>

text \<open>The loop of \<open>avl_insert\<close> that moves up from the new leaf.\<close>

fun avl_insert_loop :: "'a avl_frame list \<Rightarrow> 'a avl_node \<Rightarrow> 'a avl_node" where
  "avl_insert_loop [] t = t"
| "avl_insert_loop (Frame which_child d old_balance s # fs) t =
     (let new_balance = old_balance + avl_child2balance which_child in
      if new_balance = 0 then zip_up fs (plug (Frame which_child d 0 s) t)
      else if old_balance \<noteq> 0 then
        zip_up fs (fst (avl_rotation (plug (Frame which_child d old_balance s) t) new_balance))
      else avl_insert_loop fs (plug (Frame which_child d new_balance s) t))"

definition avl_insert :: "'a avl_tree \<Rightarrow> 'a \<Rightarrow> avl_index \<Rightarrow> 'a avl_tree" where
  "avl_insert tree new_data where' =
     tree\<lparr>avl_numnodes := avl_numnodes tree + 1,
          avl_root := avl_insert_loop (snd (descend where' (avl_root tree) []))
                        (Node NULL new_data 0 NULL)\<rparr>"

text \<open>The frames passed on the way to the far end of a subtree.\<close>

fun descend_far :: "avl_dir \<Rightarrow> 'a avl_node \<Rightarrow> 'a avl_frame list \<Rightarrow> 'a avl_node \<times> 'a avl_frame list" where
  "descend_far right NULL fs = (NULL, fs)"
| "descend_far right (Node l d b r) fs =
     (case right of
        AVL_BEFORE \<Rightarrow> (if l = NULL then (Node l d b r, fs)
                       else descend_far right l (Frame AVL_BEFORE d b r # fs))
      | AVL_AFTER \<Rightarrow> (if r = NULL then (Node l d b r, fs)
                      else descend_far right r (Frame AVL_AFTER d b l # fs)))"

text \<open>The frame of a node seen from its child \<open>c\<close>.\<close>

fun frame_of :: "avl_dir \<Rightarrow> 'a avl_node \<Rightarrow> 'a avl_frame list" where
  "frame_of c NULL = []"
| "frame_of c (Node l d b r) = [Frame c d b (avl_child (other c) (Node l d b r))]"

definition avl_insert_here :: "'a avl_tree \<Rightarrow> 'a \<Rightarrow> 'a \<Rightarrow> avl_dir \<Rightarrow> 'a avl_tree" where
  "avl_insert_here tree new_data here direction =
     (case AVL_DATA2NODE here (avl_root tree) [] of
        None \<Rightarrow> tree
      | Some (node, fs) \<Rightarrow>
          (let child = direction;
               (node, fs, child) =
                 (if avl_child child node \<noteq> NULL then
                    let fs = frame_of child node @ fs;
                        node = avl_child child node;
                        child = other child;
                        (node, fs) = descend_far child node fs
                    in (node, fs, child)
                  else (node, fs, child))
           in tree\<lparr>avl_numnodes := avl_numnodes tree + 1,
                   avl_root := avl_insert_loop (frame_of child node @ fs)
                                 (Node NULL new_data 0 NULL)\<rparr>))"

text \<open>Adding a datum that is already there is a panic.\<close>

definition avl_add :: "'a avl_tree \<Rightarrow> 'a \<Rightarrow> 'a avl_tree option" where
  "avl_add tree new_node =
     (case avl_find tree new_node of
        Found _ \<Rightarrow> None
      | NotFound where' \<Rightarrow> Some (avl_insert tree new_node where'))"

subsection \<open>Removal\<close>

fun avl_remove_loop :: "'a avl_frame list \<Rightarrow> 'a avl_node \<Rightarrow> 'a avl_node" where
  "avl_remove_loop [] t = t"
| "avl_remove_loop (Frame which_child d old_balance s # fs) t =
     (let new_balance = old_balance - avl_child2balance which_child in
      if old_balance = 0 then zip_up fs (plug (Frame which_child d new_balance s) t)
      else if new_balance = 0 then avl_remove_loop fs (plug (Frame which_child d new_balance s) t)
      else (case avl_rotation (plug (Frame which_child d old_balance s) t) new_balance of
              (t', shorter) \<Rightarrow>
                if \<not> shorter then zip_up fs t' else avl_remove_loop fs t'))"

text \<open>
  A node with two children changes places with its neighbour on the taller side:
  the neighbour's datum goes into the frame that stands for the deleted node, and
  the common code removes the neighbour's old place.
\<close>

fun avl_unlink :: "'a avl_node \<Rightarrow> 'a avl_frame list \<Rightarrow> 'a avl_node" where
  "avl_unlink NULL fs = zip_up fs NULL"
| "avl_unlink (Node l d b r) fs =
     avl_remove_loop fs (if l \<noteq> NULL then l else r)"

fun avl_remove_node :: "'a avl_node \<Rightarrow> 'a avl_frame list \<Rightarrow> 'a avl_node" where
  "avl_remove_node NULL fs = zip_up fs NULL"
| "avl_remove_node (Node l d b r) fs =
     (if l \<noteq> NULL \<and> r \<noteq> NULL then
        let left = avl_balance2child b;
            right = other left;
            (node, fs') = descend_far right (avl_child left (Node l d b r)) []
        in (case node of
              NULL \<Rightarrow> zip_up fs NULL
            | Node nl nd nb nr \<Rightarrow>
                avl_unlink node
                  (fs' @ Frame left nd b (avl_child right (Node l d b r)) # fs))
      else avl_unlink (Node l d b r) fs)"

definition avl_remove :: "'a avl_tree \<Rightarrow> 'a \<Rightarrow> 'a avl_tree" where
  "avl_remove tree data =
     (case AVL_DATA2NODE data (avl_root tree) [] of
        None \<Rightarrow> tree
      | Some (node, fs) \<Rightarrow>
          tree\<lparr>avl_numnodes := avl_numnodes tree - 1,
               avl_root := avl_remove_node node fs\<rparr>)"

definition avl_create :: "('a \<Rightarrow> 'a \<Rightarrow> int) \<Rightarrow> 'a avl_tree" where
  "avl_create compar = \<lparr>avl_root = NULL, avl_compar = compar, avl_numnodes = 0\<rparr>"

text \<open>Writing a field of an element through its pointer: the node stays where it is.\<close>

fun avl_store_node :: "'a \<Rightarrow> 'a \<Rightarrow> 'a avl_node \<Rightarrow> 'a avl_node" where
  "avl_store_node x y NULL = NULL"
| "avl_store_node x y (Node l d b r) =
     Node (avl_store_node x y l) (if d = x then y else d) b (avl_store_node x y r)"

definition avl_store :: "'a avl_tree \<Rightarrow> 'a \<Rightarrow> 'a \<Rightarrow> 'a avl_tree" where
  "avl_store tree x y = tree\<lparr>avl_root := avl_store_node x y (avl_root tree)\<rparr>"

subsection \<open>Destroying a tree node by node\<close>

text \<open>
  The cookie of \<open>avl_destroy_nodes\<close> is the parent of the node returned last and
  the index of that node in it, which is the node's place; a null cookie starts
  the walk and a null parent ends it.
\<close>

datatype avl_cookie = CookieNull | Cookie avl_index | CookieDone

fun avl_prune :: "avl_index \<Rightarrow> 'a avl_node \<Rightarrow> 'a avl_node" where
  "avl_prune [] t = NULL"
| "avl_prune (c # p) t = avl_setchild c (avl_prune p (avl_child c t)) t"

fun leftmost_path :: "'a avl_node \<Rightarrow> avl_index" where
  "leftmost_path NULL = []"
| "leftmost_path (Node l d b r) = (if l = NULL then [] else AVL_BEFORE # leftmost_path l)"

abbreviation subtree_at :: "avl_index \<Rightarrow> 'a avl_node \<Rightarrow> 'a avl_node" where
  "subtree_at p t \<equiv> fst (descend p t [])"

definition check_right_side :: "'a avl_node \<Rightarrow> avl_index \<Rightarrow> avl_index" where
  "check_right_side root p =
     (if avl_child AVL_AFTER (subtree_at p root) \<noteq> NULL then p @ [AVL_AFTER] else p)"

fun node_data :: "'a avl_node \<Rightarrow> 'a option" where
  "node_data NULL = None"
| "node_data (Node l d b r) = Some d"

text \<open>The code after the label \<open>done\<close>: the node at \<open>p\<close> is returned.\<close>

definition avl_destroy_done ::
  "'a avl_tree \<Rightarrow> avl_index \<Rightarrow> 'a option \<times> 'a avl_tree \<times> avl_cookie" where
  "avl_destroy_done tree p =
     (node_data (subtree_at p (avl_root tree)), tree, if p = [] then CookieDone else Cookie p)"

fun avl_destroy_nodes ::
  "'a avl_tree \<Rightarrow> avl_cookie \<Rightarrow> 'a option \<times> 'a avl_tree \<times> avl_cookie" where
  "avl_destroy_nodes tree CookieNull =
     (if avl_first tree = None then (None, tree, CookieDone)
      else avl_destroy_done tree
             (check_right_side (avl_root tree) (leftmost_path (avl_root tree))))"
| "avl_destroy_nodes tree CookieDone =
     (if avl_root tree \<noteq> NULL
      then (None, tree\<lparr>avl_root := NULL, avl_numnodes := 0\<rparr>, CookieDone)
      else (None, tree, CookieDone))"
| "avl_destroy_nodes tree (Cookie p) =
     (let parent = butlast p;
          child = last p;
          tree = tree\<lparr>avl_root := avl_prune p (avl_root tree),
                      avl_numnodes := avl_numnodes tree - 1\<rparr>;
          right = avl_child AVL_AFTER (subtree_at parent (avl_root tree))
      in
      if child = AVL_AFTER \<or> right = NULL then avl_destroy_done tree parent
      else avl_destroy_done tree
             (check_right_side (avl_root tree) (parent @ AVL_AFTER # leftmost_path right)))"

text \<open>
  The callers' loop \<open>while ((node = avl_destroy_nodes(tree, &cookie)) != NULL)\<close>:
  the data in the order of the calls and the tree that is left.  The fuel bounds
  the number of calls.
\<close>

fun avl_destroy_loop :: "nat \<Rightarrow> 'a avl_tree \<Rightarrow> avl_cookie \<Rightarrow> ('a list \<times> 'a avl_tree) option" where
  "avl_destroy_loop 0 tree cookie = None"
| "avl_destroy_loop (Suc n) tree cookie =
     (case avl_destroy_nodes tree cookie of
        (None, tree, cookie) \<Rightarrow> Some ([], tree)
      | (Some d, tree, cookie) \<Rightarrow>
          map_option (\<lambda>(ds, tree). (d # ds, tree)) (avl_destroy_loop n tree cookie))"

section \<open>Correctness of the trees\<close>

subsection \<open>The contents in order\<close>

fun inorder :: "'a avl_node \<Rightarrow> 'a list" where
  "inorder NULL = []"
| "inorder (Node l d b r) = inorder l @ d # inorder r"

fun inorder_before :: "'a avl_frame list \<Rightarrow> 'a list" where
  "inorder_before [] = []"
| "inorder_before (Frame AVL_BEFORE d b s # fs) = inorder_before fs"
| "inorder_before (Frame AVL_AFTER d b s # fs) = inorder_before fs @ inorder s @ [d]"

fun inorder_after :: "'a avl_frame list \<Rightarrow> 'a list" where
  "inorder_after [] = []"
| "inorder_after (Frame AVL_BEFORE d b s # fs) = d # inorder s @ inorder_after fs"
| "inorder_after (Frame AVL_AFTER d b s # fs) = inorder_after fs"

lemma other_other [simp]: "other (other c) = c"
  by (cases c) auto

lemma other_neq [simp]: "other c \<noteq> c" "c \<noteq> other c"
  by (cases c; simp)+

lemma zip_up_simps [simp]:
  "zip_up [] t = t" "zip_up (f # fs) t = zip_up fs (plug f t)"
  "zip_up (fs @ gs) t = zip_up gs (zip_up fs t)"
  by (simp_all add: zip_up_def)

lemma inorder_Nil_iff [simp]: "inorder t = [] \<longleftrightarrow> t = NULL"
  by (cases t) auto

lemma inorder_zip_up: "inorder (zip_up fs t) = inorder_before fs @ inorder t @ inorder_after fs"
proof (induction fs arbitrary: t)
  case (Cons f fs)
  obtain c d b s where "f = Frame c d b s" by (cases f)
  with Cons show ?case by (cases c) auto
qed simp

lemma inorder_before_append [simp]:
  "inorder_before (fs @ gs) = inorder_before gs @ inorder_before fs"
  by (induction fs rule: inorder_before.induct) auto

lemma inorder_after_append [simp]:
  "inorder_after (fs @ gs) = inorder_after fs @ inorder_after gs"
  by (induction fs rule: inorder_after.induct) auto

lemma zip_up_descend: "descend p t fs = (t', fs') \<Longrightarrow> zip_up fs' t' = zip_up fs t"
proof (induction p t fs rule: descend.induct)
  case (3 c p l d b r fs)
  then show ?case by (cases c) auto
qed auto

lemma zip_up_DATA2NODE:
  "AVL_DATA2NODE x t fs = Some (t', fs') \<Longrightarrow> zip_up fs' t' = zip_up fs t"
  by (induction x t fs rule: AVL_DATA2NODE.induct) (auto split: if_splits option.splits)

lemma DATA2NODE_datum:
  "AVL_DATA2NODE x t fs = Some (t', fs') \<Longrightarrow> \<exists>l b r. t' = Node l x b r"
  by (induction x t fs rule: AVL_DATA2NODE.induct) (auto split: if_splits option.splits)

lemma DATA2NODE_None: "AVL_DATA2NODE x t fs = None \<longleftrightarrow> x \<notin> set (inorder t)"
  by (induction x t fs rule: AVL_DATA2NODE.induct) (auto split: option.splits)

lemma zip_up_descend_far:
  "descend_far c t fs = (t', fs') \<Longrightarrow> zip_up fs' t' = zip_up fs t"
  by (induction c t fs rule: descend_far.induct) (auto split: avl_dir.splits if_splits)

lemma descend_far_NULL: "descend_far c t fs = (t', fs') \<Longrightarrow> t \<noteq> NULL \<Longrightarrow> t' \<noteq> NULL"
  by (induction c t fs rule: descend_far.induct) (auto split: avl_dir.splits if_splits)

lemma descend_far_child: "descend_far c t fs = (t', fs') \<Longrightarrow> avl_child c t' = NULL"
  by (induction c t fs rule: descend_far.induct) (auto split: avl_dir.splits if_splits)

subsection \<open>Balance\<close>

fun avl_height :: "'a avl_node \<Rightarrow> int" where
  "avl_height NULL = 0"
| "avl_height (Node l d b r) = 1 + max (avl_height l) (avl_height r)"

text \<open>
  The documented invariant of a node: its balance is the difference of the heights
  of its children, and it is -1, 0 or 1.
\<close>

fun avl_balanced :: "'a avl_node \<Rightarrow> bool" where
  "avl_balanced NULL = True"
| "avl_balanced (Node l d b r) =
     (avl_balanced l \<and> avl_balanced r \<and> b = avl_height r - avl_height l \<and> \<bar>b\<bar> \<le> 1)"

text \<open>The frames around a place where a subtree of height \<open>h\<close> belongs.\<close>

fun frames_balanced :: "'a avl_frame list \<Rightarrow> int \<Rightarrow> bool" where
  "frames_balanced [] h = True"
| "frames_balanced (Frame c d b s # fs) h =
     (avl_balanced s \<and> \<bar>b\<bar> \<le> 1 \<and> b = avl_child2balance c * (h - avl_height s) \<and>
      frames_balanced fs (1 + max h (avl_height s)))"

lemma avl_height_nonneg [simp]: "0 \<le> avl_height t"
  by (induction t) auto

lemma avl_height_zero [simp]: "avl_height t = 0 \<longleftrightarrow> t = NULL"
proof (cases t)
  case (Node l d b r)
  have "1 \<le> avl_height t"
    using avl_height_nonneg [of l] by (simp only: Node avl_height.simps)
  then show ?thesis using Node by auto
qed simp

lemma balanced_zip_up:
  "avl_balanced (zip_up fs t) \<longleftrightarrow> avl_balanced t \<and> frames_balanced fs (avl_height t)"
proof (induction fs arbitrary: t)
  case (Cons f fs)
  obtain c d b s where "f = Frame c d b s" by (cases f)
  with Cons show ?case by (cases c) (auto simp: max.commute)
qed simp

lemma height_le_cases:
  assumes "avl_balanced t" "avl_height t = h + 1" "0 \<le> h"
  obtains l d b r where "t = Node l d b r" "avl_balanced l" "avl_balanced r"
    "b = avl_height r - avl_height l" "\<bar>b\<bar> \<le> 1" "max (avl_height l) (avl_height r) = h"
  using assms by (cases t) auto

text \<open>
  What a rotation does: the contents stay in order, and when the tall child is two
  higher than the other the result is balanced and its height is reported.
\<close>

lemma rotation_left:
  assumes "avl_balanced l" "avl_balanced r" "avl_height l = avl_height r + 2"
    and rot: "avl_rotation (Node l d b r) (- 2) = (t, shorter)"
  shows "avl_balanced t \<and> inorder t = inorder l @ d # inorder r \<and>
    avl_height t = (if shorter then avl_height l else avl_height l + 1) \<and>
    (AVL_XBALANCE l \<noteq> 0 \<longrightarrow> shorter)"
proof -
  from assms obtain ll ld lb lr where l: "l = Node ll ld lb lr"
    by (cases l) (auto, smt (verit) avl_height_nonneg)
  show ?thesis
  proof (cases "lb = 1")
    case False
    with assms rot show ?thesis
      by (auto simp: l avl_rotation_def Let_def max_def split: if_splits)
  next
    case True
    then obtain gl gd gb gr where lr: "lr = Node gl gd gb gr"
      using assms by (cases lr) (auto simp: l, smt (verit) avl_height_nonneg)
    from assms rot True show ?thesis
      by (auto simp: l lr avl_rotation_def Let_def max_def split: if_splits)
  qed
qed

lemma rotation_right:
  assumes "avl_balanced l" "avl_balanced r" "avl_height r = avl_height l + 2"
    and rot: "avl_rotation (Node l d b r) 2 = (t, shorter)"
  shows "avl_balanced t \<and> inorder t = inorder l @ d # inorder r \<and>
    avl_height t = (if shorter then avl_height r else avl_height r + 1) \<and>
    (AVL_XBALANCE r \<noteq> 0 \<longrightarrow> shorter)"
proof -
  from assms obtain rl rd rb rr where r: "r = Node rl rd rb rr"
    by (cases r) (auto, smt (verit) avl_height_nonneg)
  show ?thesis
  proof (cases "rb = - 1")
    case False
    with assms rot show ?thesis
      by (auto simp: r avl_rotation_def Let_def max_def split: if_splits)
  next
    case True
    then obtain gl gd gb gr where rl: "rl = Node gl gd gb gr"
      using assms by (cases rl) (auto simp: r, smt (verit) avl_height_nonneg)
    from assms rot True show ?thesis
      by (auto simp: r rl avl_rotation_def Let_def max_def split: if_splits)
  qed
qed

text \<open>The two cases as one, for the frame \<open>c\<close> over a subtree that is two higher than
  its sibling on the side \<open>c\<close>.\<close>

lemma rotation_insert:
  assumes "avl_balanced t" "avl_balanced s" "avl_height t = avl_height s + 2"
    and "AVL_XBALANCE t \<noteq> 0"
    and "avl_rotation (plug (Frame c d b s) t) (2 * avl_child2balance c) = (t', shorter)"
  shows "avl_balanced t' \<and> avl_height t' = avl_height t \<and>
    inorder t' = inorder (plug (Frame c d b s) t)"
  using assms rotation_left [of t s d b t' shorter] rotation_right [of s t d b t' shorter]
  by (cases c) auto

lemma rotation_remove:
  assumes "avl_balanced t" "avl_balanced s" "avl_height s = avl_height t + 2"
    and "avl_rotation (plug (Frame c d b s) t) (- 2 * avl_child2balance c) = (t', shorter)"
  shows "avl_balanced t' \<and>
    avl_height t' = (if shorter then avl_height s else avl_height s + 1) \<and>
    inorder t' = inorder (plug (Frame c d b s) t)"
  using assms rotation_left [of s t d b t' shorter] rotation_right [of t s d b t' shorter]
  by (cases c) auto

lemma insert_loop_ok:
  assumes "avl_balanced t" "frames_balanced fs h" "avl_height t = h + 1" "0 \<le> h"
    "h = 0 \<or> AVL_XBALANCE t \<noteq> 0"
  shows "avl_balanced (avl_insert_loop fs t) \<and>
    inorder (avl_insert_loop fs t) = inorder_before fs @ inorder t @ inorder_after fs"
  using assms
proof (induction fs arbitrary: t h)
  case (Cons f fs)
  obtain c d b s where f: "f = Frame c d b s" by (cases f)
  let ?new = "b + avl_child2balance c"
  note prems = Cons.prems [unfolded f frames_balanced.simps]
  have s: "avl_balanced s" and b: "b = avl_child2balance c * (h - avl_height s)" "\<bar>b\<bar> \<le> 1"
    and fs: "frames_balanced fs (1 + max h (avl_height s))" using prems(2) by auto
  have hs: "0 \<le> avl_height s" by simp
  have ctx: "inorder_before (f # fs) @ inorder t @ inorder_after (f # fs) =
      inorder_before fs @ inorder (plug (Frame c d b' s) t) @ inorder_after fs" for b'
    by (cases c) (auto simp: f)
  consider "?new = 0" | "?new \<noteq> 0" "b \<noteq> 0" | "?new \<noteq> 0" "b = 0" by blast
  then show ?case
  proof cases
    case 1
    then have "avl_height s = h + 1" using b by (cases c) auto
    then have "avl_balanced (zip_up fs (plug (Frame c d 0 s) t))"
      using prems s fs unfolding balanced_zip_up by (cases c) (auto simp: max_def)
    then show ?thesis using 1 ctx [of 0] by (simp add: f inorder_zip_up)
  next
    case 2
    then have h: "h = avl_height s + 1" and new: "?new = 2 * avl_child2balance c"
      using b by (cases c; auto)+
    obtain t' sh where r: "avl_rotation (plug (Frame c d b s) t) ?new = (t', sh)"
      by fastforce
    have "avl_balanced t' \<and> avl_height t' = avl_height t \<and>
        inorder t' = inorder (plug (Frame c d b s) t)"
      by (rule rotation_insert [of t s c d b t' sh]) (use prems s h hs r new in auto)
    then show ?thesis using 2 r h fs prems ctx [of b]
      by (simp add: f inorder_zip_up balanced_zip_up max_def)
  next
    case 3
    then have h: "h = avl_height s" using b by (cases c) auto
    let ?t = "plug (Frame c d ?new s) t"
    have "avl_balanced ?t" "avl_height ?t = (1 + max h (avl_height s)) + 1"
      "AVL_XBALANCE ?t \<noteq> 0"
      using 3 prems s h by (cases c; auto simp: max_def)+
    then show ?thesis using Cons.IH [OF _ fs, of ?t] 3 ctx [of ?new] prems(4) h by (simp add: f)
  qed
qed simp

lemma remove_loop_ok:
  assumes "avl_balanced t" "frames_balanced fs (1 + avl_height t)"
  shows "avl_balanced (avl_remove_loop fs t) \<and>
    inorder (avl_remove_loop fs t) = inorder_before fs @ inorder t @ inorder_after fs"
  using assms
proof (induction fs arbitrary: t)
  case (Cons f fs)
  obtain c d b s where f: "f = Frame c d b s" by (cases f)
  let ?new = "b - avl_child2balance c"
  have s: "avl_balanced s" and b: "b = avl_child2balance c * (1 + avl_height t - avl_height s)"
    "\<bar>b\<bar> \<le> 1" and fs: "frames_balanced fs (1 + max (1 + avl_height t) (avl_height s))"
    using Cons.prems f by auto
  have ctx: "inorder_before (f # fs) @ inorder t @ inorder_after (f # fs) =
      inorder_before fs @ inorder (plug (Frame c d b' s) t) @ inorder_after fs" for b'
    by (cases c) (auto simp: f)
  consider "b = 0" | "b \<noteq> 0" "?new = 0" | "b \<noteq> 0" "?new \<noteq> 0" by blast
  then show ?case
  proof cases
    case 1
    then have "avl_height s = avl_height t + 1" using b by (cases c) auto
    then have "avl_balanced (zip_up fs (plug (Frame c d ?new s) t))"
      using Cons.prems 1 s fs unfolding balanced_zip_up by (cases c) (auto simp: max_def)
    then show ?thesis using 1 ctx [of ?new] by (simp add: f inorder_zip_up)
  next
    case 2
    then have h: "avl_height s = avl_height t" using b by (cases c) auto
    let ?t = "plug (Frame c d ?new s) t"
    have "avl_balanced ?t" "1 + avl_height ?t = 1 + max (1 + avl_height t) (avl_height s)"
      using 2 Cons.prems s h by (cases c; auto simp: max_def)+
    moreover from this(2) fs have "frames_balanced fs (1 + avl_height ?t)" by simp
    ultimately show ?thesis using Cons.IH [of ?t] 2 ctx [of ?new] by (simp add: f)
  next
    case 3
    then have h: "avl_height s = avl_height t + 2" and new: "?new = - 2 * avl_child2balance c"
      using b by (cases c; auto)+
    obtain t' sh where r: "avl_rotation (plug (Frame c d b s) t) ?new = (t', sh)"
      by fastforce
    have t': "avl_balanced t' \<and> avl_height t' = (if sh then avl_height s else avl_height s + 1) \<and>
        inorder t' = inorder (plug (Frame c d b s) t)"
      by (rule rotation_remove [of t s c d b t' sh]) (use Cons.prems s h r new in auto)
    show ?thesis
    proof (cases sh)
      case True
      then show ?thesis using Cons.IH [of t'] t' 3 r h fs ctx [of b] by (simp add: f max_def)
    next
      case False
      then show ?thesis using t' 3 r h fs ctx [of b]
        by (simp add: f inorder_zip_up balanced_zip_up max_def)
    qed
  qed
qed simp

lemma frames_balanced_datum:
  "frames_balanced (fs @ Frame c d b s # gs) h \<Longrightarrow> frames_balanced (fs @ Frame c d' b s # gs) h"
proof (induction fs arbitrary: h)
  case Nil
  then show ?case by (metis append_Nil frames_balanced.simps(2))
next
  case (Cons f fs)
  then show ?case by (cases f) auto
qed

lemma descend_far_before:
  "descend_far AVL_BEFORE t fs = (t', fs') \<Longrightarrow> inorder_before fs' = inorder_before fs"
  by (induction AVL_BEFORE t fs rule: descend_far.induct) (auto split: if_splits)

lemma descend_far_after:
  "descend_far AVL_AFTER t fs = (t', fs') \<Longrightarrow> inorder_after fs' = inorder_after fs"
  by (induction AVL_AFTER t fs rule: descend_far.induct) (auto split: if_splits)

lemma unlink_ok:
  assumes "avl_balanced (Node l d b r)" "frames_balanced fs (avl_height (Node l d b r))"
    "l = NULL \<or> r = NULL"
  shows "avl_balanced (avl_unlink (Node l d b r) fs) \<and>
    inorder (avl_unlink (Node l d b r) fs) =
      inorder_before fs @ inorder l @ inorder r @ inorder_after fs"
proof -
  let ?t = "if l \<noteq> NULL then l else r"
  have "avl_balanced ?t" "avl_height (Node l d b r) = 1 + avl_height ?t"
    using assms by auto
  then show ?thesis using assms remove_loop_ok [of ?t fs] by (auto split: if_splits)
qed

lemma remove_node_ok:
  assumes bal: "avl_balanced (zip_up fs (Node l d b r))"
  shows "avl_balanced (avl_remove_node (Node l d b r) fs) \<and>
    inorder (avl_remove_node (Node l d b r) fs) =
      inorder_before fs @ inorder l @ inorder r @ inorder_after fs"
proof (cases "l \<noteq> NULL \<and> r \<noteq> NULL")
  case False
  with unlink_ok [of l d b r fs] bal show ?thesis by (auto simp: balanced_zip_up)
next
  case True
  define left where "left = avl_balance2child b"
  let ?right = "other left" and ?node = "Node l d b r"
  obtain node fs' where far: "descend_far ?right (avl_child left ?node) [] = (node, fs')"
    by fastforce
  from True have "avl_child left ?node \<noteq> NULL" by (cases left) auto
  with far obtain nl nd nb nr where node: "node = Node nl nd nb nr"
    by (metis avl_node.exhaust descend_far_NULL)
  let ?fs = "\<lambda>x. fs' @ Frame left x b (avl_child ?right ?node) # fs"
  from zip_up_descend_far [OF far] have z: "zip_up fs' node = avl_child left ?node" by simp
  then have "zip_up (?fs d) node = zip_up fs ?node" by (cases left) auto
  with bal have "avl_balanced node \<and> frames_balanced (?fs d) (avl_height node)"
    by (metis balanced_zip_up)
  then have "avl_balanced node" "frames_balanced (?fs nd) (avl_height node)"
    by (auto dest: frames_balanced_datum)
  moreover have "avl_child ?right node = NULL" using far by (rule descend_far_child)
  then have "nl = NULL \<or> nr = NULL" by (cases left) (auto simp: node)
  ultimately have "avl_balanced (avl_unlink node (?fs nd)) \<and>
      inorder (avl_unlink node (?fs nd)) =
        inorder_before (?fs nd) @ inorder nl @ inorder nr @ inorder_after (?fs nd)"
    unfolding node by (intro unlink_ok)
  moreover have "inorder_before (?fs nd) @ inorder nl @ inorder nr @ inorder_after (?fs nd) =
      inorder_before fs @ inorder l @ inorder r @ inorder_after fs"
  proof (cases left)
    case AVL_BEFORE
    then have "inorder_after fs' = []" "nr = NULL"
      using far descend_far_after [of l "[]" node fs'] \<open>avl_child ?right node = NULL\<close>
      by (auto simp: node)
    then show ?thesis using AVL_BEFORE arg_cong [OF z, of inorder]
      by (simp add: inorder_zip_up node)
  next
    case AVL_AFTER
    then have "inorder_before fs' = []" "nl = NULL"
      using far descend_far_before [of r "[]" node fs'] \<open>avl_child ?right node = NULL\<close>
      by (auto simp: node)
    then show ?thesis using AVL_AFTER arg_cong [OF z, of inorder]
      by (simp add: inorder_zip_up node)
  qed
  moreover have "avl_remove_node ?node fs = avl_unlink node (?fs nd)"
    using True far by (simp add: left_def [symmetric] node)
  ultimately show ?thesis by simp
qed

subsection \<open>Operations on the contents\<close>

text \<open>What the operations do to the list of data, whatever the comparison function.\<close>

abbreviation avl_contents :: "'a avl_tree \<Rightarrow> 'a list" where
  "avl_contents tree \<equiv> inorder (avl_root tree)"

definition avl_shape :: "'a avl_tree \<Rightarrow> bool" where
  "avl_shape tree \<longleftrightarrow> avl_balanced (avl_root tree) \<and>
     avl_numnodes tree = length (avl_contents tree) \<and> distinct (avl_contents tree)"

text \<open>The place \<open>w\<close> is empty and lies between \<open>us\<close> and \<open>vs\<close>.\<close>

definition avl_place :: "'a avl_tree \<Rightarrow> avl_index \<Rightarrow> 'a list \<Rightarrow> 'a list \<Rightarrow> bool" where
  "avl_place tree w us vs \<longleftrightarrow>
     (\<exists>fs. descend w (avl_root tree) [] = (NULL, fs) \<and>
           us = inorder_before fs \<and> vs = inorder_after fs)"

lemma avl_place_contents: "avl_place tree w us vs \<Longrightarrow> avl_contents tree = us @ vs"
  unfolding avl_place_def using zip_up_descend [of w "avl_root tree" "[]" NULL]
  by (auto simp: inorder_zip_up dest!: arg_cong [of _ _ inorder])

lemma walk_down_before: "avl_walk_down AVL_BEFORE t = hd_opt (inorder t)"
  by (induction t) (auto simp: hd_opt_append)

lemma walk_down_after: "avl_walk_down AVL_AFTER t = last_opt (inorder t)"
  by (induction t) (auto simp: last_opt_append last_opt_Cons)

lemma walk_up_after: "avl_walk_up AVL_AFTER fs = last_opt (inorder_before fs)"
  by (induction fs rule: inorder_before.induct) (auto simp: last_opt_append)

lemma walk_up_before: "avl_walk_up AVL_BEFORE fs = hd_opt (inorder_after fs)"
  by (induction fs rule: inorder_after.induct) (auto simp: hd_opt_append)

lemma split_unique:
  assumes "us @ x # vs = us' @ x # vs'" "distinct (us @ x # vs)"
  shows "us = us' \<and> vs = vs'"
  using assms by (metis append_Cons_eq_iff distinct_append distinct.simps(2) disjoint_iff
      list.set_intros(1))

lemma DATA2NODE_split:
  assumes "avl_contents tree = us @ x # vs" "distinct (avl_contents tree)"
  obtains l b r fs where "AVL_DATA2NODE x (avl_root tree) [] = Some (Node l x b r, fs)"
    "us = inorder_before fs @ inorder l" "vs = inorder r @ inorder_after fs"
    "zip_up fs (Node l x b r) = avl_root tree"
proof -
  have "AVL_DATA2NODE x (avl_root tree) [] \<noteq> None"
    using assms by (simp add: DATA2NODE_None)
  then obtain t fs where at: "AVL_DATA2NODE x (avl_root tree) [] = Some (t, fs)" by auto
  obtain l b r where t: "t = Node l x b r" using DATA2NODE_datum [OF at] by auto
  have z: "zip_up fs (Node l x b r) = avl_root tree" using zip_up_DATA2NODE [OF at] t by simp
  then have "us @ x # vs = (inorder_before fs @ inorder l) @ x # inorder r @ inorder_after fs"
    using assms(1) by (metis append.assoc append_Cons inorder.simps(2) inorder_zip_up)
  moreover have "distinct (us @ x # vs)" using assms by simp
  ultimately have "us = inorder_before fs @ inorder l \<and> vs = inorder r @ inorder_after fs"
    by (rule split_unique)
  with at t z that show ?thesis by blast
qed

lemma avl_next:
  assumes "avl_contents tree = us @ x # vs" "distinct (avl_contents tree)"
  shows "AVL_NEXT tree x = hd_opt vs"
  using assms
  by (elim DATA2NODE_split)
    (auto simp: avl_walk_def walk_down_before walk_up_before hd_opt_append)

lemma avl_prev:
  assumes "avl_contents tree = us @ x # vs" "distinct (avl_contents tree)"
  shows "AVL_PREV tree x = last_opt us"
  using assms
  by (elim DATA2NODE_split)
    (auto simp: avl_walk_def walk_down_after walk_up_after last_opt_append)

lemma avl_first_contents: "avl_first tree = hd_opt (avl_contents tree)"
  by (simp add: avl_first_def walk_down_before)

lemma avl_last_contents: "avl_last tree = last_opt (avl_contents tree)"
  by (simp add: avl_last_def walk_down_after)

lemma avl_next_loop_ok:
  assumes "avl_contents tree = us @ vs" "distinct (avl_contents tree)" "length vs \<le> n"
  shows "avl_next_loop n tree (hd_opt vs) = Some vs"
  using assms
proof (induction vs arbitrary: us n)
  case (Cons v vs)
  then obtain m where m: "n = Suc m" by (cases n) auto
  have "AVL_NEXT tree v = hd_opt vs" using Cons.prems by (intro avl_next) auto
  then show ?case using Cons.IH [of "us @ [v]" m] Cons.prems m by simp
qed simp

text \<open>Walking from the first node with as much fuel as there are nodes visits the data
  in order.\<close>

lemma avl_next_loop_all:
  "avl_shape tree \<Longrightarrow>
    avl_next_loop (avl_numnodes tree) tree (avl_first tree) = Some (avl_contents tree)"
  using avl_next_loop_ok [of tree "[]" "avl_contents tree"]
  by (simp add: avl_first_contents avl_shape_def)

lemma avl_nearest_place:
  assumes place: "avl_place tree w us vs" and dist: "distinct (avl_contents tree)"
  shows "avl_nearest tree w AVL_BEFORE = last_opt us" "avl_nearest tree w AVL_AFTER = hd_opt vs"
proof -
  obtain fs where fs: "descend w (avl_root tree) [] = (NULL, fs)"
    and us: "us = inorder_before fs" and vs: "vs = inorder_after fs"
    using place by (auto simp: avl_place_def)
  have all: "avl_contents tree = us @ vs" using place by (rule avl_place_contents)
  have "avl_nearest tree w AVL_BEFORE = last_opt us \<and> avl_nearest tree w AVL_AFTER = hd_opt vs"
  proof (cases fs)
    case Nil
    then show ?thesis using fs us vs by (simp add: avl_nearest_def)
  next
    case (Cons f gs)
    obtain c d b s where f: "f = Frame c d b s" by (cases f)
    show ?thesis
    proof (cases c)
      case AVL_BEFORE
      then have "AVL_PREV tree d = last_opt us"
        using all dist us vs Cons f by (intro avl_prev) auto
      then show ?thesis using fs us vs Cons f AVL_BEFORE by (simp add: avl_nearest_def)
    next
      case AVL_AFTER
      then have "AVL_NEXT tree d = hd_opt vs"
        using all dist us vs Cons f
        by (intro avl_next [where us = "inorder_before gs @ inorder s"]) auto
      then show ?thesis using fs us vs Cons f AVL_AFTER
        by (simp add: avl_nearest_def last_opt_append)
    qed
  qed
  then show "avl_nearest tree w AVL_BEFORE = last_opt us"
    "avl_nearest tree w AVL_AFTER = hd_opt vs" by auto
qed

lemma avl_insert_place:
  assumes place: "avl_place tree w us vs" and shape: "avl_shape tree"
    and new: "y \<notin> set (avl_contents tree)"
  shows "avl_contents (avl_insert tree y w) = us @ y # vs \<and> avl_shape (avl_insert tree y w)"
proof -
  obtain fs where fs: "descend w (avl_root tree) [] = (NULL, fs)"
    and us: "us = inorder_before fs" and vs: "vs = inorder_after fs"
    using place by (auto simp: avl_place_def)
  have all: "avl_contents tree = us @ vs" using place by (rule avl_place_contents)
  have "zip_up fs NULL = avl_root tree" using zip_up_descend [OF fs] by simp
  then have "frames_balanced fs 0" using shape balanced_zip_up [of fs NULL]
    by (simp add: avl_shape_def)
  then have "avl_balanced (avl_insert_loop fs (Node NULL y 0 NULL)) \<and>
      inorder (avl_insert_loop fs (Node NULL y 0 NULL)) = us @ y # vs"
    using insert_loop_ok [of "Node NULL y 0 NULL" fs 0] us vs by simp
  then show ?thesis using fs shape new all by (auto simp: avl_insert_def avl_shape_def)
qed

lemma avl_remove_split:
  assumes shape: "avl_shape tree" and x: "avl_contents tree = us @ x # vs"
  shows "avl_contents (avl_remove tree x) = us @ vs \<and> avl_shape (avl_remove tree x)"
proof -
  from shape have "distinct (avl_contents tree)" by (simp add: avl_shape_def)
  with x obtain l b r fs where
    at: "AVL_DATA2NODE x (avl_root tree) [] = Some (Node l x b r, fs)"
    and us: "us = inorder_before fs @ inorder l" and vs: "vs = inorder r @ inorder_after fs"
    and z: "zip_up fs (Node l x b r) = avl_root tree"
    by (rule DATA2NODE_split)
  with shape have "avl_balanced (zip_up fs (Node l x b r))" by (simp add: avl_shape_def)
  then have "avl_balanced (avl_remove_node (Node l x b r) fs) \<and>
      inorder (avl_remove_node (Node l x b r) fs) = us @ vs"
    using remove_node_ok us vs by (metis append.assoc)
  then show ?thesis using shape x by (auto simp: avl_remove_def at avl_shape_def)
qed

lemma avl_remove_absent: "x \<notin> set (avl_contents tree) \<Longrightarrow> avl_remove tree x = tree"
  using DATA2NODE_None [of x "avl_root tree" "[]"] by (simp add: avl_remove_def)

lemma avl_create_shape [simp]: "avl_shape (avl_create compar)"
  "avl_contents (avl_create compar) = []"
  by (simp_all add: avl_create_def avl_shape_def)

lemma insert_frames_ok:
  assumes "zip_up fs NULL = avl_root tree" "avl_shape tree" "y \<notin> set (avl_contents tree)"
  shows "avl_balanced (avl_insert_loop fs (Node NULL y 0 NULL)) \<and>
    inorder (avl_insert_loop fs (Node NULL y 0 NULL)) = inorder_before fs @ y # inorder_after fs"
proof -
  have "frames_balanced fs 0" using assms balanced_zip_up [of fs NULL]
    by (simp add: avl_shape_def)
  then show ?thesis using insert_loop_ok [of "Node NULL y 0 NULL" fs 0] by simp
qed

lemma zip_up_frame_of:
  "t \<noteq> NULL \<Longrightarrow> avl_child c t = NULL \<Longrightarrow> zip_up (frame_of c t) NULL = t"
  by (cases t; cases c) auto

lemma zip_up_frame_of_child: "t \<noteq> NULL \<Longrightarrow> zip_up (frame_of c t) (avl_child c t) = t"
  by (cases t; cases c) auto

lemma avl_insert_here_after:
  assumes shape: "avl_shape tree" and here: "avl_contents tree = us @ here # vs"
    and new: "y \<notin> set (avl_contents tree)"
  shows "avl_contents (avl_insert_here tree y here AVL_AFTER) = us @ here # y # vs \<and>
    avl_shape (avl_insert_here tree y here AVL_AFTER)"
proof -
  from shape have "distinct (avl_contents tree)" by (simp add: avl_shape_def)
  with here obtain l b r fs where
    at: "AVL_DATA2NODE here (avl_root tree) [] = Some (Node l here b r, fs)"
    and us: "us = inorder_before fs @ inorder l" and vs: "vs = inorder r @ inorder_after fs"
    and z: "zip_up fs (Node l here b r) = avl_root tree"
    by (rule DATA2NODE_split)
  define gs where "gs = (if r = NULL then Frame AVL_AFTER here b l # fs
     else case descend_far AVL_BEFORE r (Frame AVL_AFTER here b l # fs) of
       (n, hs) \<Rightarrow> frame_of AVL_BEFORE n @ hs)"
  have res: "avl_insert_here tree y here AVL_AFTER =
      tree\<lparr>avl_numnodes := avl_numnodes tree + 1,
           avl_root := avl_insert_loop gs (Node NULL y 0 NULL)\<rparr>"
    by (cases "r = NULL")
      (simp_all add: avl_insert_here_def at gs_def del: avl_insert_loop.simps split: prod.splits)
  have "zip_up gs NULL = avl_root tree \<and>
      inorder_before gs = us @ [here] \<and> inorder_after gs = vs"
  proof (cases "r = NULL")
    case True
    then show ?thesis using z us vs by (simp add: gs_def)
  next
    case False
    obtain n hs where far: "descend_far AVL_BEFORE r (Frame AVL_AFTER here b l # fs) = (n, hs)"
      by fastforce
    have n: "n \<noteq> NULL" "avl_child AVL_BEFORE n = NULL"
      using far False by (auto dest: descend_far_NULL descend_far_child)
    then obtain nd nb nr where nn: "n = Node NULL nd nb nr" by (cases n) auto
    have zn: "zip_up hs n = avl_root tree" using zip_up_descend_far [OF far] z by simp
    have before: "inorder_before hs = us @ [here]"
      using descend_far_before [OF far] us by simp
    have "inorder_before hs @ inorder n @ inorder_after hs = us @ here # vs"
      using here by (simp only: zn [symmetric] inorder_zip_up)
    then have "inorder n @ inorder_after hs = vs" using before by simp
    then show ?thesis using zn before False by (simp add: gs_def far nn)
  qed
  with insert_frames_ok [of gs tree y] shape new here show ?thesis
    by (auto simp: res avl_shape_def)
qed

lemma inorder_store_node:
  "inorder (avl_store_node x y t) = map (\<lambda>d. if d = x then y else d) (inorder t)"
  by (induction t) auto

lemma height_store_node [simp]: "avl_height (avl_store_node x y t) = avl_height t"
  by (induction t) auto

lemma balanced_store_node [simp]: "avl_balanced (avl_store_node x y t) = avl_balanced t"
  by (induction t) auto

lemma avl_store_split:
  assumes "avl_shape tree" "avl_contents tree = us @ x # vs" "y \<notin> set us \<union> set vs"
  shows "avl_contents (avl_store tree x y) = us @ y # vs \<and> avl_shape (avl_store tree x y)"
proof -
  have "x \<notin> set us" "x \<notin> set vs" using assms by (auto simp: avl_shape_def)
  then have "map (\<lambda>d. if d = x then y else d) us = us" "map (\<lambda>d. if d = x then y else d) vs = vs"
    by (auto intro: map_idI)
  then show ?thesis using assms by (auto simp: avl_shape_def avl_store_def inorder_store_node)
qed

lemma avl_compar_update [simp]:
  "avl_compar (avl_insert tree y w) = avl_compar tree"
  "avl_compar (avl_remove tree y) = avl_compar tree"
  "avl_compar (avl_store tree x y) = avl_compar tree"
  "avl_compar (avl_insert_here tree y x c) = avl_compar tree"
  "avl_compar (avl_create compar) = compar"
  by (auto simp: avl_insert_def avl_remove_def avl_store_def avl_insert_here_def avl_create_def
      Let_def split: option.splits prod.splits)

subsection \<open>The contract with the comparison function\<close>

text \<open>
  \<^verbatim>\<open>sys/avl.h\<close> asks of a comparison function that it returns -1, 0 or 1 and orders
  the elements.  Several clients compare overlapping ranges as equal, so the laws
  do not ask for a total order of all values: \<open>elem\<close> are the values a tree may
  hold and \<open>key\<close> the values it may be searched for.
\<close>

locale avl_order =
  fixes compar :: "'a \<Rightarrow> 'a \<Rightarrow> int"
    and elem :: "'a \<Rightarrow> bool"
    and key :: "'a \<Rightarrow> bool"
  assumes compar_range: "key x \<Longrightarrow> elem a \<Longrightarrow> compar x a \<in> {- 1, 0, 1}"
    and elem_key: "elem a \<Longrightarrow> key a"
    and compar_refl: "elem a \<Longrightarrow> compar a a = 0"
    and compar_flip: "elem a \<Longrightarrow> elem b \<Longrightarrow> compar a b < 0 \<longleftrightarrow> compar b a > 0"
    and less_trans: "key x \<Longrightarrow> elem a \<Longrightarrow> elem b \<Longrightarrow> compar x a < 0 \<Longrightarrow> compar a b < 0 \<Longrightarrow> compar x b < 0"
    and greater_trans: "key x \<Longrightarrow> elem a \<Longrightarrow> elem b \<Longrightarrow> compar x b > 0 \<Longrightarrow> compar a b < 0 \<Longrightarrow> compar x a > 0"
begin

definition in_order :: "'a list \<Rightarrow> bool" where
  "in_order xs \<longleftrightarrow> (\<forall>x\<in>set xs. elem x) \<and> sorted_wrt (\<lambda>a b. compar a b < 0) xs"

text \<open>The invariant of a tree with this comparison function.\<close>

definition tree_ok :: "'a avl_tree \<Rightarrow> bool" where
  "tree_ok tree \<longleftrightarrow> avl_shape tree \<and> avl_compar tree = compar \<and> in_order (avl_contents tree)"

lemma tree_okD:
  assumes "tree_ok tree"
  shows "avl_shape tree" "avl_compar tree = compar" "in_order (avl_contents tree)"
  using assms by (simp_all add: tree_ok_def)

lemma tree_okI:
  "avl_shape tree \<Longrightarrow> avl_compar tree = compar \<Longrightarrow> in_order (avl_contents tree) \<Longrightarrow> tree_ok tree"
  by (simp add: tree_ok_def)

lemma in_order_distinct: "in_order xs \<Longrightarrow> distinct xs"
proof (induction xs)
  case (Cons x xs)
  then show ?case using compar_refl [of x] by (auto simp: in_order_def)
qed simp

lemma in_order_append:
  "in_order (us @ vs) \<longleftrightarrow> in_order us \<and> in_order vs \<and> (\<forall>a\<in>set us. \<forall>b\<in>set vs. compar a b < 0)"
  by (auto simp: in_order_def sorted_wrt_append)

lemma in_order_Cons:
  "in_order (x # vs) \<longleftrightarrow> elem x \<and> in_order vs \<and> (\<forall>b\<in>set vs. compar x b < 0)"
  by (auto simp: in_order_def)

lemma in_order_Nil [simp]: "in_order []"
  by (simp add: in_order_def)

lemma in_order_elem: "in_order xs \<Longrightarrow> x \<in> set xs \<Longrightarrow> elem x"
  by (simp add: in_order_def)

lemma find_loop_Found:
  "avl_find_loop compar x t p = Found y \<Longrightarrow> y \<in> set (inorder t) \<and> compar x y = 0"
  by (induction compar x t p rule: avl_find_loop.induct)
    (auto simp: Let_def split: if_splits avl_dir.splits)

lemma find_loop_NotFound:
  assumes "avl_find_loop compar x t p = NotFound w" "key x" "in_order (inorder t)"
  shows "\<exists>q fs'. w = p @ q \<and> descend q t fs = (NULL, fs' @ fs) \<and>
    (\<forall>a\<in>set (inorder_before fs'). compar x a > 0) \<and>
    (\<forall>a\<in>set (inorder_after fs'). compar x a < 0)"
  using assms
proof (induction t arbitrary: p fs)
  case NULL
  then show ?case by (intro exI [of _ "[]"]) auto
next
  case (Node l d b r)
  have s: "in_order (inorder l)" "in_order (inorder r)" "elem d"
    "\<forall>a\<in>set (inorder l). compar a d < 0" "\<forall>a\<in>set (inorder r). compar d a < 0"
    "\<forall>a\<in>set (inorder l) \<union> set (inorder r). elem a"
    using Node.prems(3) by (auto simp: in_order_append in_order_Cons dest: in_order_elem)
  consider "compar x d < 0" | "compar x d > 0" using Node.prems(1)
    by (cases "compar x d = 0") (auto, linarith)
  then show ?case
  proof cases
    case 1
    then have "avl_find_loop compar x l (p @ [AVL_BEFORE]) = NotFound w"
      using Node.prems(1) by (simp add: avl_balance2child_def)
    from Node.IH(1) [OF this Node.prems(2) s(1), of "Frame AVL_BEFORE d b r # fs"]
    obtain q fs' where q: "w = (p @ [AVL_BEFORE]) @ q"
      "descend q l (Frame AVL_BEFORE d b r # fs) = (NULL, fs' @ Frame AVL_BEFORE d b r # fs)"
      "\<forall>a\<in>set (inorder_before fs'). compar x a > 0" "\<forall>a\<in>set (inorder_after fs'). compar x a < 0"
      by blast
    have "\<forall>a\<in>set (inorder r). compar x a < 0"
      using less_trans [of x d] Node.prems(2) s 1 by auto
    then show ?thesis using q 1
      by (intro exI [of _ "AVL_BEFORE # q"] exI [of _ "fs' @ [Frame AVL_BEFORE d b r]"]) auto
  next
    case 2
    then have "avl_find_loop compar x r (p @ [AVL_AFTER]) = NotFound w"
      using Node.prems(1) by (simp add: avl_balance2child_def)
    from Node.IH(2) [OF this Node.prems(2) s(2), of "Frame AVL_AFTER d b l # fs"]
    obtain q fs' where q: "w = (p @ [AVL_AFTER]) @ q"
      "descend q r (Frame AVL_AFTER d b l # fs) = (NULL, fs' @ Frame AVL_AFTER d b l # fs)"
      "\<forall>a\<in>set (inorder_before fs'). compar x a > 0" "\<forall>a\<in>set (inorder_after fs'). compar x a < 0"
      by blast
    have "\<forall>a\<in>set (inorder l). compar x a > 0"
      using greater_trans [of x _ d] Node.prems(2) s 2 by auto
    then show ?thesis using q 2
      by (intro exI [of _ "AVL_AFTER # q"] exI [of _ "fs' @ [Frame AVL_AFTER d b l]"]) auto
  qed
qed

lemma find_Found:
  assumes "tree_ok tree" "avl_find tree x = Found y"
  shows "y \<in> set (avl_contents tree)" "compar x y = 0"
  using assms find_loop_Found [of x "avl_root tree" "[]" y]
  by (auto simp: tree_ok_def avl_find_def)

lemma find_NotFound:
  assumes "tree_ok tree" "key x" "avl_find tree x = NotFound w"
  obtains us vs where "avl_place tree w us vs" "avl_contents tree = us @ vs"
    "\<forall>a\<in>set us. compar x a > 0" "\<forall>a\<in>set vs. compar x a < 0"
proof -
  have "avl_find_loop compar x (avl_root tree) [] = NotFound w"
    using assms(3) tree_okD(2) [OF assms(1)] by (simp add: avl_find_def)
  from find_loop_NotFound [OF this assms(2) tree_okD(3) [OF assms(1)], of "[]"]
  obtain fs where fs: "descend w (avl_root tree) [] = (NULL, fs)"
    "\<forall>a\<in>set (inorder_before fs). compar x a > 0" "\<forall>a\<in>set (inorder_after fs). compar x a < 0"
    by auto
  then have "avl_place tree w (inorder_before fs) (inorder_after fs)"
    by (simp add: avl_place_def)
  with fs avl_place_contents show ?thesis using that by blast
qed

text \<open>A search succeeds exactly when some element compares equal to the key.\<close>

lemma find_iff:
  assumes "tree_ok tree" "key x"
  shows "(\<exists>y. avl_find tree x = Found y) \<longleftrightarrow> (\<exists>y\<in>set (avl_contents tree). compar x y = 0)"
proof (cases "avl_find tree x")
  case (Found y)
  then show ?thesis using find_Found [OF assms(1) Found] by auto
next
  case (NotFound w)
  obtain us vs where uv: "avl_contents tree = us @ vs"
    "\<forall>a\<in>set us. compar x a > 0" "\<forall>a\<in>set vs. compar x a < 0"
    by (rule find_NotFound [OF assms NotFound])
  then have "compar x y \<noteq> 0" if "y \<in> set (avl_contents tree)" for y
    using that by fastforce
  then show ?thesis using NotFound by simp
qed

lemma insert_ok:
  assumes ok: "tree_ok tree" and x: "elem x" and nf: "avl_find tree x = NotFound w"
  shows "tree_ok (avl_insert tree x w)" "set (avl_contents (avl_insert tree x w)) = insert x (set (avl_contents tree))"
proof -
  obtain us vs where p: "avl_place tree w us vs" "avl_contents tree = us @ vs"
    and gt: "\<forall>a\<in>set us. compar x a > 0" and lt: "\<forall>a\<in>set vs. compar x a < 0"
    by (rule find_NotFound [OF ok elem_key [OF x] nf])
  have new: "x \<notin> set (avl_contents tree)" using p gt lt compar_refl [OF x] by fastforce
  have ins: "avl_contents (avl_insert tree x w) = us @ x # vs" "avl_shape (avl_insert tree x w)"
    using avl_insert_place [OF p(1) _ new] ok by (auto simp: tree_ok_def)
  have "in_order (us @ x # vs)"
  proof -
    have so: "in_order (us @ vs)" using tree_okD(3) [OF ok] p by simp
    then have "\<forall>a\<in>set us. compar a x < 0" using gt x compar_flip [OF _ x] in_order_elem by simp
    with so lt x show ?thesis by (simp add: in_order_append in_order_Cons)
  qed
  then show "tree_ok (avl_insert tree x w)" using ins ok by (simp add: tree_ok_def)
  show "set (avl_contents (avl_insert tree x w)) = insert x (set (avl_contents tree))"
    using ins p by auto
qed

lemma remove_ok:
  assumes ok: "tree_ok tree"
  shows "tree_ok (avl_remove tree x)" "set (avl_contents (avl_remove tree x)) = set (avl_contents tree) - {x}"
proof -
  have "tree_ok (avl_remove tree x) \<and>
      set (avl_contents (avl_remove tree x)) = set (avl_contents tree) - {x}"
  proof (cases "x \<in> set (avl_contents tree)")
    case True
    then obtain us vs where uv: "avl_contents tree = us @ x # vs" by (meson split_list)
    then have "avl_contents (avl_remove tree x) = us @ vs" "avl_shape (avl_remove tree x)"
      using avl_remove_split [OF tree_okD(1) [OF ok] uv] by auto
    moreover have "distinct (us @ x # vs)" using tree_okD(3) [OF ok] in_order_distinct uv by metis
    moreover have "in_order (us @ vs)" using tree_okD(3) [OF ok] uv
      by (simp add: in_order_append in_order_Cons)
    moreover have "avl_compar (avl_remove tree x) = compar" using tree_okD(2) [OF ok] by simp
    ultimately have "tree_ok (avl_remove tree x)" by (simp add: tree_ok_def)
    moreover have "set (us @ vs) = set (us @ x # vs) - {x}"
      using \<open>distinct (us @ x # vs)\<close> by auto
    ultimately show ?thesis using \<open>avl_contents (avl_remove tree x) = us @ vs\<close> uv by simp
  next
    case False
    then show ?thesis using ok by (simp add: avl_remove_absent)
  qed
  then show "tree_ok (avl_remove tree x)"
    "set (avl_contents (avl_remove tree x)) = set (avl_contents tree) - {x}" by auto
qed

lemma create_ok: "tree_ok (avl_create compar)"
  by (simp add: tree_ok_def)

end

subsection \<open>Destroying a tree visits every node once\<close>

fun postorder :: "'a avl_node \<Rightarrow> 'a list" where
  "postorder NULL = []"
| "postorder (Node l d b r) = postorder l @ postorder r @ [d]"

text \<open>What is still to come after the node at a place, read off its ancestors.\<close>

fun post_rest :: "'a avl_frame list \<Rightarrow> 'a list" where
  "post_rest [] = []"
| "post_rest (Frame AVL_BEFORE d b s # fs) = postorder s @ d # post_rest fs"
| "post_rest (Frame AVL_AFTER d b s # fs) = d # post_rest fs"

fun post_ok :: "'a avl_frame list \<Rightarrow> bool" where
  "post_ok [] = True"
| "post_ok (Frame c d b s # fs) = ((c = AVL_BEFORE \<longrightarrow> avl_balanced s) \<and> post_ok fs)"

lemma post_ok_append [simp]: "post_ok (fs @ gs) \<longleftrightarrow> post_ok fs \<and> post_ok gs"
  by (induction fs rule: post_ok.induct) auto

lemma descend_frames_append:
  "descend p t (gs @ fs) = (fst (descend p t gs), snd (descend p t gs) @ fs)"
proof (induction p arbitrary: t gs)
  case (Cons c p)
  show ?case
  proof (cases t)
    case (Node l d b r)
    then show ?thesis
      using Cons.IH [of "avl_child c t" "Frame c d b (avl_child (other c) t) # gs"] by simp
  qed simp
qed simp

lemma descend_frames: "descend p t fs = (subtree_at p t, snd (descend p t []) @ fs)"
  using descend_frames_append [of p t "[]" fs] by simp

lemma subtree_at_frames: "fst (descend p t (f # fs)) = subtree_at p t"
  by (simp add: descend_frames [of p t "f # fs"])

lemma descend_append:
  "subtree_at p t \<noteq> NULL \<Longrightarrow>
    descend (p @ q) t fs = descend q (subtree_at p t) (snd (descend p t fs))"
proof (induction p t fs rule: descend.induct)
  case (3 c p l d b r fs)
  then show ?case by (simp add: subtree_at_frames)
qed auto

lemma height_one_leaf:
  assumes "avl_balanced t" "avl_height t \<le> 1" "t \<noteq> NULL"
  shows "\<exists>d b. t = Node NULL d b NULL"
proof (cases t)
  case (Node l d b r)
  have "avl_height l = 0" "avl_height r = 0"
    using assms(2) Node avl_height_nonneg [of l] avl_height_nonneg [of r] by auto
  then show ?thesis using Node by simp
qed (use assms in simp)

text \<open>From any subtree, the leftmost node or its right child is the first node in
  post order.\<close>

definition first_path :: "'a avl_node \<Rightarrow> avl_index" where
  "first_path t = check_right_side t (leftmost_path t)"

lemma first_path_simps:
  "first_path (Node NULL d b r) = (if r \<noteq> NULL then [AVL_AFTER] else [])"
  "l \<noteq> NULL \<Longrightarrow> first_path (Node l d b r) = AVL_BEFORE # first_path l"
  by (auto simp: first_path_def check_right_side_def subtree_at_frames)

lemma first_in_postorder:
  assumes "avl_balanced t" "t \<noteq> NULL"
  shows "\<exists>gs l d b r. descend (first_path t) t fs = (Node l d b r, gs @ fs) \<and> post_ok gs \<and>
    postorder t @ post_rest fs = d # post_rest (gs @ fs)"
  using assms
proof (induction t arbitrary: fs)
  case (Node l d b r)
  show ?case
  proof (cases "l = NULL")
    case True
    show ?thesis
    proof (cases "r = NULL")
      case True
      then show ?thesis using \<open>l = NULL\<close>
        by (intro exI [of _ "[]"]) (simp add: first_path_simps)
    next
      case False
      then obtain rd rb where r: "r = Node NULL rd rb NULL"
        using Node.prems True height_one_leaf [of r] by auto
      show ?thesis
        by (rule exI [of _ "[Frame AVL_AFTER d b NULL]"]) (simp add: r True first_path_simps)
    qed
  next
    case False
    let ?f = "Frame AVL_BEFORE d b r"
    obtain gs l' d' b' r' where IH:
      "descend (first_path l) l (?f # fs) = (Node l' d' b' r', gs @ ?f # fs)"
      "post_ok gs" "postorder l @ post_rest (?f # fs) = d' # post_rest (gs @ ?f # fs)"
      using Node.IH(1) [of "?f # fs"] Node.prems False by auto
    then show ?thesis using False Node.prems
      by (intro exI [of _ "gs @ [?f]"]) (simp add: first_path_simps)
  qed
qed simp

lemma descend_length:
  "subtree_at p t \<noteq> NULL \<Longrightarrow> length (snd (descend p t fs)) = length p + length fs"
proof (induction p t fs rule: descend.induct)
  case (3 c p l d b r fs)
  then show ?case by (simp add: subtree_at_frames)
qed auto

text \<open>Cutting a place off changes nothing above it.\<close>

lemma descend_prune:
  assumes "p \<noteq> []" "descend p t fs = (u, gs)" "subtree_at p t \<noteq> NULL"
  shows "descend p (avl_prune p t) fs = (NULL, gs)"
  using assms
proof (induction p t fs rule: descend.induct)
  case (3 c p l d b r fs)
  show ?case
  proof (cases "p = []")
    case True
    then show ?thesis using 3 by (cases c) auto
  next
    case False
    have "subtree_at p (avl_child c (Node l d b r)) \<noteq> NULL"
      using 3 by (simp add: subtree_at_frames)
    then show ?thesis using 3 False by (cases c) auto
  qed
qed auto

lemma descend_snoc:
  assumes "descend (q @ [c]) t fs = (u, f # gs)" "length (f # gs) = length fs + Suc (length q)"
  shows "descend q t fs = (plug f u, gs) \<and> (\<exists>d b s. f = Frame c d b s)"
  using assms
proof (induction q arbitrary: t fs)
  case Nil
  then show ?case by (cases t; cases c) auto
next
  case (Cons a q)
  then show ?case by (cases t) auto
qed

lemma prune_last:
  assumes at: "descend p t [] = (Node l x b r, f # gs)" and len: "length (f # gs) = length p"
    and p: "p = q @ [c]"
  shows "descend q (avl_prune p t) [] = (plug f NULL, gs)" "\<exists>d b s. f = Frame c d b s"
proof -
  have "descend p (avl_prune p t) [] = (NULL, f # gs)"
    using at p by (intro descend_prune [where u = "Node l x b r"]) auto
  with len p descend_snoc [of q c "avl_prune p t" "[]" NULL f gs]
  show "descend q (avl_prune p t) [] = (plug f NULL, gs)" "\<exists>d b s. f = Frame c d b s"
    by auto
qed

text \<open>The state between two calls: the node at \<open>p\<close> was returned last.\<close>

definition destroy_inv :: "'a avl_node \<Rightarrow> avl_index \<Rightarrow> 'a avl_frame list \<Rightarrow> bool" where
  "destroy_inv root p fs \<longleftrightarrow>
     (\<exists>l x b r. descend p root [] = (Node l x b r, fs)) \<and> length fs = length p \<and> post_ok fs"

abbreviation cookie_of :: "avl_index \<Rightarrow> avl_cookie" where
  "cookie_of p \<equiv> (if p = [] then CookieDone else Cookie p)"

lemma destroy_step:
  assumes inv: "destroy_inv (avl_root tree) p (f # fs)"
  shows "\<exists>d p' fs'. avl_destroy_nodes tree (Cookie p) =
      (Some d, tree\<lparr>avl_root := avl_prune p (avl_root tree),
                    avl_numnodes := avl_numnodes tree - 1\<rparr>, cookie_of p') \<and>
    destroy_inv (avl_prune p (avl_root tree)) p' fs' \<and> post_rest (f # fs) = d # post_rest fs'"
proof -
  let ?root = "avl_prune p (avl_root tree)"
  obtain q c where p: "p = q @ [c]" using inv
    by (metis destroy_inv_def length_0_conv list.distinct(1) rev_exhaust)
  obtain d b s where at: "descend q ?root [] = (plug f NULL, fs)" and f: "f = Frame c d b s"
    using inv p prune_last [of p "avl_root tree" _ _ _ _ f fs q c] by (auto simp: destroy_inv_def)
  have len: "length fs = length q" and ok: "post_ok fs"
    using inv p f by (auto simp: destroy_inv_def)
  have sub: "subtree_at q ?root = plug f NULL" using at by simp
  show ?thesis
  proof (cases "c = AVL_AFTER \<or> s = NULL")
    case True
    have "destroy_inv ?root q fs"
      using at len ok f by (cases c) (auto simp: destroy_inv_def)
    moreover have "post_rest (f # fs) = d # post_rest fs" using True f by (cases c) auto
    moreover have "node_data (plug f NULL) = Some d" using f by (cases c) auto
    ultimately show ?thesis using True p sub f
      by (intro exI [of _ d] exI [of _ q] exI [of _ fs])
        (cases c; simp add: avl_destroy_done_def)
  next
    case False
    then have c: "c = AVL_BEFORE" and s: "s \<noteq> NULL" by (cases c; auto)+
    let ?F = "Frame AVL_AFTER d b NULL # fs"
    have bal: "avl_balanced s" using inv f c by (auto simp: destroy_inv_def)
    obtain gs l x b' r where first: "descend (first_path s) s ?F = (Node l x b' r, gs @ ?F)"
      "post_ok gs" "postorder s @ post_rest ?F = x # post_rest (gs @ ?F)"
      using first_in_postorder [OF bal s, of ?F] by blast
    have down: "descend (q @ AVL_AFTER # w) ?root [] = descend w s ?F" for w
      using descend_append [of q ?root "AVL_AFTER # w" "[]"] sub at by (simp add: f c)
    have path: "check_right_side ?root (q @ AVL_AFTER # leftmost_path s) = q @ AVL_AFTER # first_path s"
      by (simp add: check_right_side_def first_path_def down subtree_at_frames)
    have "descend (first_path s) s [] = (Node l x b' r, gs)"
      using first(1) descend_frames [of "first_path s" s ?F] by (auto intro: prod_eqI)
    then have "length gs = length (first_path s)"
      using descend_length [of "first_path s" s "[]"] by auto
    then have "destroy_inv ?root (q @ AVL_AFTER # first_path s) (gs @ ?F)"
      using first ok len by (auto simp: destroy_inv_def down)
    then show ?thesis using first c s p sub f
      by (intro exI [of _ x] exI [of _ "q @ AVL_AFTER # first_path s"] exI [of _ "gs @ ?F"])
        (simp add: avl_destroy_done_def Let_def path [unfolded p c] down [unfolded p c])
  qed
qed

lemma destroy_loop_from:
  assumes "destroy_inv (avl_root tree) p fs" "length (post_rest fs) < n"
  shows "avl_destroy_loop n tree (cookie_of p) =
    Some (post_rest fs, tree\<lparr>avl_root := NULL, avl_numnodes := 0\<rparr>)"
  using assms
proof (induction n arbitrary: tree p fs)
  case (Suc n)
  show ?case
  proof (cases fs)
    case Nil
    then show ?thesis using Suc.prems by (auto simp: destroy_inv_def)
  next
    case (Cons f gs)
    then obtain d p' fs' where step: "avl_destroy_nodes tree (Cookie p) =
        (Some d, tree\<lparr>avl_root := avl_prune p (avl_root tree),
                      avl_numnodes := avl_numnodes tree - 1\<rparr>, cookie_of p')"
      "destroy_inv (avl_prune p (avl_root tree)) p' fs'" "post_rest fs = d # post_rest fs'"
      using destroy_step [of tree p f gs] Suc.prems by blast
    moreover have "p \<noteq> []" using Cons Suc.prems by (auto simp: destroy_inv_def)
    ultimately show ?thesis
      using Suc.IH [of "tree\<lparr>avl_root := avl_prune p (avl_root tree),
          avl_numnodes := avl_numnodes tree - 1\<rparr>" p' fs'] Suc.prems by simp
  qed
qed simp

lemma length_postorder [simp]: "length (postorder t) = length (inorder t)"
  by (induction t) auto

lemma set_postorder [simp]: "set (postorder t) = set (inorder t)"
  by (induction t) auto

text \<open>
  Running \<open>avl_destroy_nodes\<close> until it returns null yields the data in post order and
  leaves an empty tree; one call more than there are nodes is enough.
\<close>

lemma destroy_all:
  assumes shape: "avl_shape tree" and n: "length (avl_contents tree) < n"
  shows "avl_destroy_loop n tree CookieNull =
    Some (postorder (avl_root tree), tree\<lparr>avl_root := NULL, avl_numnodes := 0\<rparr>)"
proof (cases "avl_root tree = NULL")
  case True
  then have "tree = tree\<lparr>avl_root := NULL, avl_numnodes := 0\<rparr>"
    using shape by (simp add: avl_shape_def)
  then show ?thesis using n True by (cases n) (auto simp: avl_first_contents)
next
  case False
  let ?p = "first_path (avl_root tree)"
  have bal: "avl_balanced (avl_root tree)" using shape by (simp add: avl_shape_def)
  obtain gs l d b r where first: "descend ?p (avl_root tree) [] = (Node l d b r, gs)"
    "post_ok gs" "postorder (avl_root tree) = d # post_rest gs"
    using first_in_postorder [OF bal False, of "[]"] by auto
  then have inv: "destroy_inv (avl_root tree) ?p gs"
    using descend_length [of ?p "avl_root tree" "[]"] by (auto simp: destroy_inv_def)
  obtain m where m: "n = Suc m" using n by (cases n) auto
  have "avl_destroy_nodes tree CookieNull = (Some d, tree, cookie_of ?p)"
    using False first(1)
    by (simp add: avl_first_contents first_path_def [symmetric] avl_destroy_done_def)
  moreover have "length (post_rest gs) < m"
    using n m length_postorder [of "avl_root tree"] first(3) by simp
  ultimately show ?thesis using destroy_loop_from [OF inv, of m] m first(3) by simp
qed

lemma distinct_postorder: "distinct (inorder t) \<Longrightarrow> distinct (postorder t)"
  by (metis card_distinct distinct_card length_postorder set_postorder)

subsection \<open>Depth\<close>

lemma balanced_size: "avl_balanced t \<Longrightarrow> 2 ^ (nat (avl_height t) div 2) \<le> length (inorder t) + 1"
proof (induction t)
  case (Node l d b r)
  let ?hl = "nat (avl_height l)" and ?hr = "nat (avl_height r)"
  have bal: "\<bar>avl_height r - avl_height l\<bar> \<le> 1" and
    IH: "2 ^ (?hl div 2) \<le> length (inorder l) + 1" "2 ^ (?hr div 2) \<le> length (inorder r) + 1"
    using Node by auto
  define m where "m = (max ?hl ?hr - 1) div 2"
  have h: "nat (avl_height (Node l d b r)) = Suc (max ?hl ?hr)"
    using avl_height_nonneg [of l] avl_height_nonneg [of r] by (auto simp: nat_add_distrib max_def)
  have "m \<le> ?hl div 2" "m \<le> ?hr div 2" using bal by (auto simp: m_def intro!: div_le_mono)
  then have "2 ^ m \<le> length (inorder l) + 1" "2 ^ m \<le> length (inorder r) + (1::nat)"
    using IH by (meson order_trans power_increasing one_le_numeral)+
  moreover have "Suc (max ?hl ?hr) div 2 \<le> Suc m" by (auto simp: m_def)
  then have "(2::nat) ^ (nat (avl_height (Node l d b r)) div 2) \<le> 2 ^ Suc m"
    unfolding h by (intro power_increasing) auto
  ultimately show ?case by simp
qed simp

lemma find_loop_depth:
  "avl_find_loop compar x t p = NotFound w \<Longrightarrow> int (length w) \<le> int (length p) + avl_height t"
proof (induction compar x t p rule: avl_find_loop.induct)
  case (2 compar x l d b r p)
  then show ?case by (force simp: Let_def split: if_splits avl_dir.splits)
qed simp

section \<open>Properties of the AVL trees\<close>

text \<open>C3: avl_insert, called with the place a failed search returns, puts the datum between
  its neighbours of that place, keeps every balance field equal to the difference of the
  heights of the subtrees (at most one), counts the node and loses no other datum.\<close>
theorem avl_insert_correct:
  assumes "avl_shape tree" "avl_place tree w us vs" "y \<notin> set (avl_contents tree)"
  shows "avl_contents (avl_insert tree y w) = us @ y # vs \<and> avl_shape (avl_insert tree y w)"
  using avl_insert_place [OF assms(2,1,3)] .

definition avl_example :: "int avl_tree" where
  "avl_example = \<lparr>avl_root = Node (Node NULL 1 0 NULL) 3 (- 1) NULL, avl_compar = (\<lambda>a b. sgn (a - b)), avl_numnodes = 2\<rparr>"

theorem avl_insert_correct_witness:
  "avl_contents (avl_insert avl_example 2 [AVL_BEFORE, AVL_AFTER]) = [1] @ 2 # [3] \<and>
   avl_shape (avl_insert avl_example 2 [AVL_BEFORE, AVL_AFTER])"
  by (rule avl_insert_correct)
    (simp_all add: avl_example_def avl_shape_def avl_place_def)

text \<open>C7: avl_remove takes exactly the given datum out of a tree that holds it and leaves a
  balanced tree with the count of its nodes, whichever of the rebalancing cases applies.\<close>
theorem avl_remove_correct:
  assumes "avl_shape tree" "avl_contents tree = us @ x # vs"
  shows "avl_contents (avl_remove tree x) = us @ vs \<and> avl_shape (avl_remove tree x)"
  using avl_remove_split [OF assms] .

theorem avl_remove_correct_witness:
  "avl_contents (avl_remove avl_example 3) = [1] @ [] \<and> avl_shape (avl_remove avl_example 3)"
  by (rule avl_remove_correct) (simp_all add: avl_example_def avl_shape_def)



text \<open>C25: Repeated calls of avl_destroy_nodes with one cookie return every datum of the tree
  exactly once, children before their parents, then nothing, and leave an empty tree.\<close>
theorem avl_destroy_nodes_all:
  assumes "avl_shape tree" "length (avl_contents tree) < n"
  shows "\<exists>ds. avl_destroy_loop n tree CookieNull = Some (ds, tree\<lparr>avl_root := NULL, avl_numnodes := 0\<rparr>) \<and>
    ds = postorder (avl_root tree) \<and> distinct ds \<and> set ds = set (avl_contents tree)"
  using destroy_all [OF assms] distinct_postorder assms(1) by (auto simp: avl_shape_def set_postorder)

theorem avl_destroy_nodes_all_witness:
  "\<exists>ds. avl_destroy_loop 3 avl_example CookieNull = Some (ds, avl_example\<lparr>avl_root := NULL, avl_numnodes := 0\<rparr>) \<and>
    ds = postorder (avl_root avl_example) \<and> distinct ds \<and> set ds = set (avl_contents avl_example)"
  by (rule avl_destroy_nodes_all) (simp_all add: avl_example_def avl_shape_def)

text \<open>C26: avl_first, and AVL_NEXT until it returns nothing, visit the whole tree in order;
  AVL_PREV inverts AVL_NEXT.\<close>
theorem avl_walk_order:
  assumes "avl_shape tree" "avl_contents tree = us @ x # y # vs"
  shows "avl_next_loop (avl_numnodes tree) tree (avl_first tree) = Some (avl_contents tree) \<and>
    AVL_NEXT tree x = Some y \<and> AVL_PREV tree y = Some x"
  using assms avl_next [OF assms(2)] avl_prev [of tree "us @ [x]" y vs] avl_next_loop_all [of tree]
  by (simp add: avl_shape_def)

theorem avl_walk_order_witness:
  "avl_next_loop (avl_numnodes avl_example) avl_example (avl_first avl_example) = Some (avl_contents avl_example) \<and>
    AVL_NEXT avl_example 1 = Some 3 \<and> AVL_PREV avl_example 3 = Some 1"
  by (rule avl_walk_order [where us = "[]" and vs = "[]"]) (simp_all add: avl_example_def avl_shape_def)

end
