(* ===== verification/Space_Map.thy ===== *)
theory Space_Map
  imports Avl
begin

section \<open>Space maps\<close>

text \<open>
  The in-core space maps of \<^verbatim>\<open>fs/zfs/space_map.c\<close> (\<^verbatim>\<open>sys/space_map.h\<close>): a set of
  64-bit offsets kept as an AVL tree of disjoint segments, and the log of entries
  that stores it in an object of the pool.

  A failed \<open>VERIFY\<close> is a panic, the result \<open>None\<close>.  \<open>zfs_panic_recover\<close> panics
  too unless the tunable \<open>zfs_recover\<close> is set, which is a parameter here.
  The condition variables and the map lock do not appear: every routine runs with
  the lock held but for the reads and writes of the object.
\<close>

record space_seg =
  ss_start :: u64
  ss_end :: u64

definition space_map_seg_compare :: "space_seg \<Rightarrow> space_seg \<Rightarrow> int" where
  "space_map_seg_compare s1 s2 =
     (if ss_start s1 < ss_start s2 then
        (if ss_end s1 > ss_start s2 then 0 else - 1)
      else if ss_start s1 > ss_start s2 then
        (if ss_start s1 < ss_end s2 then 0 else 1)
      else 0)"

text \<open>\<open>sm_ops\<close> points to a vector of allocator routines, \<open>sm_ppd\<close> is their private
  data (the cursors of the first-fit allocator).\<close>

record space_map =
  sm_root :: "space_seg avl_tree"
  sm_space :: u64
  sm_start :: u64
  sm_size :: u64
  sm_shift :: u8
  sm_loaded :: bool
  sm_loading :: bool
  sm_ops :: "nat option"
  sm_ppd :: "u64 list option"

record space_map_obj =
  smo_object :: u64
  smo_objsize :: u64
  smo_alloc :: u64

record space_map_ops =
  smop_load :: "space_map \<Rightarrow> space_map"
  smop_unload :: "space_map \<Rightarrow> space_map"
  smop_alloc :: "space_map \<Rightarrow> u64 \<Rightarrow> u64 \<times> space_map"
  smop_claim :: "space_map \<Rightarrow> u64 \<Rightarrow> u64 \<Rightarrow> space_map"
  smop_free :: "space_map \<Rightarrow> u64 \<Rightarrow> u64 \<Rightarrow> space_map"

definition space_map_create :: "u64 \<Rightarrow> u64 \<Rightarrow> u8 \<Rightarrow> space_map" where
  "space_map_create start size' shift =
     \<lparr>sm_root = avl_create space_map_seg_compare, sm_space = 0, sm_start = start,
      sm_size = size', sm_shift = shift, sm_loaded = False, sm_loading = False,
      sm_ops = None, sm_ppd = None\<rparr>"

text \<open>\<open>VERIFY(P2PHASE(x, 1ULL << sm->sm_shift) == 0)\<close>\<close>

abbreviation sm_aligned :: "space_map \<Rightarrow> u64 \<Rightarrow> bool" where
  "sm_aligned sm x \<equiv> P2PHASE x (bit64 (unat (sm_shift sm))) = 0"

definition space_map_add :: "bool \<Rightarrow> space_map \<Rightarrow> u64 \<Rightarrow> u64 \<Rightarrow> space_map option" where
  "space_map_add zfs_recover sm start size' =
     (let end' = start + size' in
      if \<not> (size' \<noteq> 0 \<and> start \<ge> sm_start sm \<and> end' \<le> sm_start sm + sm_size sm \<and>
            sm_space sm + size' \<le> sm_size sm \<and> sm_aligned sm start \<and> sm_aligned sm size')
      then None
      else
        case avl_find (sm_root sm) \<lparr>ss_start = start, ss_end = end'\<rparr> of
          Found ss \<Rightarrow>
            (if ss_start ss \<le> start \<and> ss_end ss \<ge> end' then
               (if zfs_recover then Some sm else None)
             else None)
        | NotFound where' \<Rightarrow>
            (let ss_before = avl_nearest (sm_root sm) where' AVL_BEFORE;
                 ss_after = avl_nearest (sm_root sm) where' AVL_AFTER;
                 merge_before = (case ss_before of None \<Rightarrow> False | Some b \<Rightarrow> ss_end b = start);
                 merge_after = (case ss_after of None \<Rightarrow> False | Some a \<Rightarrow> ss_start a = end');
                 root = (if merge_before \<and> merge_after then
                           avl_store (avl_remove (sm_root sm) (the ss_before)) (the ss_after)
                             (the ss_after\<lparr>ss_start := ss_start (the ss_before)\<rparr>)
                         else if merge_before then
                           avl_store (sm_root sm) (the ss_before) (the ss_before\<lparr>ss_end := end'\<rparr>)
                         else if merge_after then
                           avl_store (sm_root sm) (the ss_after) (the ss_after\<lparr>ss_start := start\<rparr>)
                         else avl_insert (sm_root sm) \<lparr>ss_start = start, ss_end = end'\<rparr> where')
             in Some (sm\<lparr>sm_root := root, sm_space := sm_space sm + size'\<rparr>)))"

definition space_map_remove :: "bool \<Rightarrow> space_map \<Rightarrow> u64 \<Rightarrow> u64 \<Rightarrow> space_map option" where
  "space_map_remove zfs_recover sm start size' =
     (let end' = start + size' in
      if \<not> (size' \<noteq> 0 \<and> sm_aligned sm start \<and> sm_aligned sm size') then None
      else
        case avl_find (sm_root sm) \<lparr>ss_start = start, ss_end = end'\<rparr> of
          NotFound where' \<Rightarrow> (if zfs_recover then Some sm else None)
        | Found ss \<Rightarrow>
            (if \<not> (ss_start ss \<le> start \<and> ss_end ss \<ge> end' \<and> sm_space sm - size' \<le> sm_size sm)
             then None
             else
               let left_over = (ss_start ss \<noteq> start);
                   right_over = (ss_end ss \<noteq> end');
                   root = (if left_over \<and> right_over then
                             (let newseg = \<lparr>ss_start = end', ss_end = ss_end ss\<rparr>;
                                  ss' = ss\<lparr>ss_end := start\<rparr>
                              in avl_insert_here (avl_store (sm_root sm) ss ss') newseg ss' AVL_AFTER)
                           else if left_over then
                             avl_store (sm_root sm) ss (ss\<lparr>ss_end := start\<rparr>)
                           else if right_over then
                             avl_store (sm_root sm) ss (ss\<lparr>ss_start := end'\<rparr>)
                           else avl_remove (sm_root sm) ss)
               in Some (sm\<lparr>sm_root := root, sm_space := sm_space sm - size'\<rparr>)))"

definition space_map_contains :: "space_map \<Rightarrow> u64 \<Rightarrow> u64 \<Rightarrow> bool option" where
  "space_map_contains sm start size' =
     (let end' = start + size' in
      if \<not> (size' \<noteq> 0 \<and> sm_aligned sm start \<and> sm_aligned sm size') then None
      else
        case avl_find (sm_root sm) \<lparr>ss_start = start, ss_end = end'\<rparr> of
          Found ss \<Rightarrow> Some (ss_start ss \<le> start \<and> ss_end ss \<ge> end')
        | NotFound where' \<Rightarrow> Some False)"

text \<open>
  A \<open>space_map_func_t\<close> updates the destination map; a walk applies it to the
  segments in turn and stops at a panic.
\<close>

type_synonym space_map_func = "space_map \<Rightarrow> u64 \<Rightarrow> u64 \<Rightarrow> space_map option"

fun space_map_apply :: "space_map_func \<Rightarrow> space_seg list \<Rightarrow> space_map \<Rightarrow> space_map option" where
  "space_map_apply func [] mdest = Some mdest"
| "space_map_apply func (ss # sss) mdest =
     (case func mdest (ss_start ss) (ss_end ss - ss_start ss) of
        None \<Rightarrow> None
      | Some mdest \<Rightarrow> space_map_apply func sss mdest)"

definition space_map_vacate ::
  "space_map \<Rightarrow> space_map_func option \<Rightarrow> space_map \<Rightarrow> (space_map \<times> space_map) option" where
  "space_map_vacate sm func mdest =
     (case avl_destroy_loop (avl_numnodes (sm_root sm) + 1) (sm_root sm) CookieNull of
        None \<Rightarrow> None
      | Some (sss, root) \<Rightarrow>
          (case func of
             None \<Rightarrow> Some (sm\<lparr>sm_root := root, sm_space := 0\<rparr>, mdest)
           | Some f \<Rightarrow> map_option (\<lambda>mdest. (sm\<lparr>sm_root := root, sm_space := 0\<rparr>, mdest))
                         (space_map_apply f sss mdest)))"

definition space_map_walk :: "space_map \<Rightarrow> space_map_func \<Rightarrow> space_map \<Rightarrow> space_map option" where
  "space_map_walk sm func mdest =
     (case avl_next_loop (avl_numnodes (sm_root sm)) (sm_root sm) (avl_first (sm_root sm)) of
        None \<Rightarrow> None
      | Some sss \<Rightarrow> space_map_apply func sss mdest)"

fun space_map_excise_loop :: "nat \<Rightarrow> bool \<Rightarrow> space_map \<Rightarrow> u64 \<Rightarrow> u64 \<Rightarrow> space_map option" where
  "space_map_excise_loop 0 zfs_recover sm start end' = None"
| "space_map_excise_loop (Suc n) zfs_recover sm start end' =
     (let t = sm_root sm;
          ss = (case avl_find t \<lparr>ss_start = start, ss_end = start\<rparr> of
                  Found ss \<Rightarrow> Some ss
                | NotFound where' \<Rightarrow> avl_nearest t where' AVL_AFTER)
      in case ss of
           None \<Rightarrow> Some sm
         | Some ss \<Rightarrow>
             (if ss_start ss \<ge> end' then Some sm
              else
                let rm_start = max (ss_start ss) start;
                    rm_end = min (ss_end ss) end'
                in case space_map_remove zfs_recover sm rm_start (rm_end - rm_start) of
                     None \<Rightarrow> None
                   | Some sm \<Rightarrow> space_map_excise_loop n zfs_recover sm start end'))"

text \<open>Every round removes a segment or its part in the range, so one round more than
  there are segments is enough.\<close>

definition space_map_excise :: "bool \<Rightarrow> space_map \<Rightarrow> u64 \<Rightarrow> u64 \<Rightarrow> space_map option" where
  "space_map_excise zfs_recover sm start size' =
     space_map_excise_loop (avl_numnodes (sm_root sm) + 2) zfs_recover sm start (start + size')"

definition space_map_union :: "bool \<Rightarrow> space_map \<Rightarrow> space_map \<Rightarrow> space_map option" where
  "space_map_union zfs_recover smd sms =
     (case avl_next_loop (avl_numnodes (sm_root sms)) (sm_root sms) (avl_first (sm_root sms)) of
        None \<Rightarrow> None
      | Some sss \<Rightarrow>
          space_map_apply
            (\<lambda>smd start size'. case space_map_excise zfs_recover smd start size' of
                                 None \<Rightarrow> None
                               | Some smd \<Rightarrow> space_map_add zfs_recover smd start size')
            sss smd)"

text \<open>\<open>avl_destroy\<close> only asserts that the tree is empty.\<close>

definition space_map_destroy :: "space_map \<Rightarrow> space_map option" where
  "space_map_destroy sm = (if sm_space sm = 0 then Some sm else None)"

subsection \<open>The log of a map\<close>

definition SM_RUN_DECODE :: "u64 \<Rightarrow> u64" where "SM_RUN_DECODE x = BF64_DECODE x 0 15 + 1"
definition SM_RUN_ENCODE :: "u64 \<Rightarrow> u64" where "SM_RUN_ENCODE x = BF64_ENCODE (x - 1) 0 15"
definition SM_TYPE_DECODE :: "u64 \<Rightarrow> u64" where "SM_TYPE_DECODE x = BF64_DECODE x 15 1"
definition SM_TYPE_ENCODE :: "u64 \<Rightarrow> u64" where "SM_TYPE_ENCODE x = BF64_ENCODE x 15 1"
definition SM_OFFSET_DECODE :: "u64 \<Rightarrow> u64" where "SM_OFFSET_DECODE x = BF64_DECODE x 16 47"
definition SM_OFFSET_ENCODE :: "u64 \<Rightarrow> u64" where "SM_OFFSET_ENCODE x = BF64_ENCODE x 16 47"
definition SM_DEBUG_DECODE :: "u64 \<Rightarrow> u64" where "SM_DEBUG_DECODE x = BF64_DECODE x 63 1"
definition SM_DEBUG_ENCODE :: "u64 \<Rightarrow> u64" where "SM_DEBUG_ENCODE x = BF64_ENCODE x 63 1"
definition SM_DEBUG_ACTION_ENCODE :: "u64 \<Rightarrow> u64" where
  "SM_DEBUG_ACTION_ENCODE x = BF64_ENCODE x 60 3"
definition SM_DEBUG_SYNCPASS_ENCODE :: "u64 \<Rightarrow> u64" where
  "SM_DEBUG_SYNCPASS_ENCODE x = BF64_ENCODE x 50 10"
definition SM_DEBUG_TXG_ENCODE :: "u64 \<Rightarrow> u64" where
  "SM_DEBUG_TXG_ENCODE x = BF64_ENCODE x 0 50"
definition SM_RUN_MAX :: u64 where "SM_RUN_MAX = SM_RUN_DECODE (- 1)"
definition SM_ALLOC :: u8 where "SM_ALLOC = 0"
definition SM_FREE :: u8 where "SM_FREE = 1"
definition SPACE_MAP_BLOCKSHIFT :: nat where "SPACE_MAP_BLOCKSHIFT = 12"

text \<open>
  The object of a space map, by what the DMU promises of whole 64-bit words: an
  object set gives the word at each index of an object, a write stores the words
  of the buffer from a byte offset on, a read returns them.  A read can fail;
  \<open>dmu_error object offset size\<close> says when it does, and the callers here panic.
\<close>

type_synonym objset = "u64 \<Rightarrow> nat \<Rightarrow> u64"

definition dmu_write :: "objset \<Rightarrow> u64 \<Rightarrow> u64 \<Rightarrow> u64 list \<Rightarrow> objset" where
  "dmu_write os object offset buf =
     os(object := (\<lambda>i. if unat offset div 8 \<le> i \<and> i < unat offset div 8 + length buf
                       then buf ! (i - unat offset div 8) else os object i))"

definition dmu_read :: "objset \<Rightarrow> u64 \<Rightarrow> u64 \<Rightarrow> u64 \<Rightarrow> u64 list" where
  "dmu_read os object offset size' = map (os object) [unat offset div 8 ..< unat offset div 8 + unat size' div 8]"

fun space_map_load_entries ::
  "bool \<Rightarrow> u8 \<Rightarrow> u64 \<Rightarrow> u64 list \<Rightarrow> space_map \<Rightarrow> space_map option" where
  "space_map_load_entries zfs_recover maptype mapstart [] sm = Some sm"
| "space_map_load_entries zfs_recover maptype mapstart (e # es) sm =
     (if SM_DEBUG_DECODE e \<noteq> 0 then space_map_load_entries zfs_recover maptype mapstart es sm
      else
        case (if SM_TYPE_DECODE e = ucast maptype then space_map_add else space_map_remove) zfs_recover sm
               (push_bit (unat (sm_shift sm)) (SM_OFFSET_DECODE e) + mapstart)
               (push_bit (unat (sm_shift sm)) (SM_RUN_DECODE e)) of
          None \<Rightarrow> None
        | Some sm \<Rightarrow> space_map_load_entries zfs_recover maptype mapstart es sm)"

text \<open>The loop over the blocks of the object, with fuel; \<open>None\<close> is a panic.\<close>

fun space_map_load_loop ::
  "nat \<Rightarrow> (u64 \<Rightarrow> u64 \<Rightarrow> u64 \<Rightarrow> bool) \<Rightarrow> bool \<Rightarrow> u8 \<Rightarrow> u64 \<Rightarrow> space_map_obj \<Rightarrow> objset \<Rightarrow> u64 \<Rightarrow> u64 \<Rightarrow>
   space_map \<Rightarrow> space_map option" where
  "space_map_load_loop 0 dmu_error zfs_recover maptype mapstart smo os offset end' sm = None"
| "space_map_load_loop (Suc n) dmu_error zfs_recover maptype mapstart smo os offset end' sm =
     (if \<not> offset < end' then Some sm
      else
        let bufsize = bit64 SPACE_MAP_BLOCKSHIFT;
            size' = min (end' - offset) bufsize
        in if \<not> (P2PHASE size' 8 = 0 \<and> size' \<noteq> 0) then None
           else if dmu_error (smo_object smo) offset size' then None
           else
             case space_map_load_entries zfs_recover maptype mapstart
                    (dmu_read os (smo_object smo) offset size') sm of
               None \<Rightarrow> None
             | Some sm \<Rightarrow> space_map_load_loop n dmu_error zfs_recover maptype mapstart smo os
                             (offset + bufsize) end' sm)"

text \<open>\<open>optab\<close> gives the routines that an \<open>sm_ops\<close> pointer leads to.  A load that is
  under way is waited for: with no other thread to end it, the caller never
  returns, \<open>None\<close> here.\<close>

definition space_map_load_wait :: "space_map \<Rightarrow> space_map option" where
  "space_map_load_wait sm = (if sm_loading sm then None else Some sm)"

definition space_map_load ::
  "(u64 \<Rightarrow> u64 \<Rightarrow> u64 \<Rightarrow> bool) \<Rightarrow> bool \<Rightarrow> (nat \<Rightarrow> space_map_ops) \<Rightarrow> space_map \<Rightarrow> nat option \<Rightarrow> u8 \<Rightarrow>
   space_map_obj \<Rightarrow> objset \<Rightarrow> (nat \<times> space_map) option" where
  "space_map_load dmu_error zfs_recover optab sm ops maptype smo os =
     (case space_map_load_wait sm of
        None \<Rightarrow> None
      | Some sm \<Rightarrow>
          if sm_loaded sm then Some (0, sm)
          else
            let sm = sm\<lparr>sm_loading := True\<rparr>;
                end' = smo_objsize smo;
                space = smo_alloc smo
            in if sm_space sm \<noteq> 0 then None
               else
                 case (if maptype = SM_FREE then space_map_add zfs_recover sm (sm_start sm) (sm_size sm)
                       else Some sm) of
                   None \<Rightarrow> None
                 | Some sm \<Rightarrow>
                     let space = (if maptype = SM_FREE then sm_size sm - space else space)
                     in case space_map_load_loop (unat end' div 2 ^ SPACE_MAP_BLOCKSHIFT + 2) dmu_error
                               zfs_recover maptype (sm_start sm) smo os 0 end' sm of
                          None \<Rightarrow> None
                        | Some sm \<Rightarrow>
                            if sm_space sm \<noteq> space then None
                            else
                              let sm = sm\<lparr>sm_loading := False, sm_loaded := True, sm_ops := ops\<rparr>
                              in Some (0, case ops of None \<Rightarrow> sm | Some p \<Rightarrow> smop_load (optab p) sm))"

definition space_map_unload :: "(nat \<Rightarrow> space_map_ops) \<Rightarrow> space_map \<Rightarrow> space_map option" where
  "space_map_unload optab sm =
     (let sm = (case sm_ops sm of
                  Some p \<Rightarrow> (if sm_loaded sm then smop_unload (optab p) sm else sm)
                | None \<Rightarrow> sm);
          sm = sm\<lparr>sm_loaded := False, sm_ops := None\<rparr>
      in map_option fst (space_map_vacate sm None sm))"

text \<open>The allocator calls follow \<open>sm_ops\<close>, and panic if there are none.\<close>

definition space_map_alloc ::
  "bool \<Rightarrow> (nat \<Rightarrow> space_map_ops) \<Rightarrow> space_map \<Rightarrow> u64 \<Rightarrow> (u64 \<times> space_map) option" where
  "space_map_alloc zfs_recover optab sm size' =
     (case sm_ops sm of
        None \<Rightarrow> None
      | Some p \<Rightarrow>
          let (start, sm) = smop_alloc (optab p) sm size'
          in if start \<noteq> - 1 then map_option (Pair start) (space_map_remove zfs_recover sm start size')
             else Some (start, sm))"

definition space_map_claim ::
  "bool \<Rightarrow> (nat \<Rightarrow> space_map_ops) \<Rightarrow> space_map \<Rightarrow> u64 \<Rightarrow> u64 \<Rightarrow> space_map option" where
  "space_map_claim zfs_recover optab sm start size' =
     (case sm_ops sm of
        None \<Rightarrow> None
      | Some p \<Rightarrow> space_map_remove zfs_recover (smop_claim (optab p) sm start size') start size')"

definition space_map_free ::
  "bool \<Rightarrow> (nat \<Rightarrow> space_map_ops) \<Rightarrow> space_map \<Rightarrow> u64 \<Rightarrow> u64 \<Rightarrow> space_map option" where
  "space_map_free zfs_recover optab sm start size' =
     (case space_map_add zfs_recover sm start size' of
        None \<Rightarrow> None
      | Some sm \<Rightarrow>
          (case sm_ops sm of
             None \<Rightarrow> None
           | Some p \<Rightarrow> Some (smop_free (optab p) sm start size')))"

text \<open>
  Writing the log.  The state of the loops: the entries in the buffer \<open>entry_map\<close>,
  the size of the object and the object set.
\<close>

record sync_state =
  entry_map :: "u64 list"
  sync_objsize :: u64
  sync_os :: objset

definition space_map_sync_entry :: "u64 \<Rightarrow> u64 \<Rightarrow> u64 \<Rightarrow> sync_state \<Rightarrow> sync_state" where
  "space_map_sync_entry object bufsize e st =
     (let st = (if length (entry_map st) = unat (bufsize div 8)
                then st\<lparr>sync_os := dmu_write (sync_os st) object (sync_objsize st) (entry_map st),
                        sync_objsize := sync_objsize st + bufsize, entry_map := []\<rparr>
                else st)
      in st\<lparr>entry_map := entry_map st @ [e]\<rparr>)"

function space_map_sync_runs :: "u64 \<Rightarrow> u64 \<Rightarrow> u8 \<Rightarrow> u64 \<Rightarrow> u64 \<Rightarrow> sync_state \<Rightarrow> sync_state" where
  "space_map_sync_runs object bufsize maptype start size' st =
     (if size' = 0 then st
      else
        let run_len = min size' SM_RUN_MAX;
            e = or (or (SM_OFFSET_ENCODE start) (SM_TYPE_ENCODE (ucast maptype))) (SM_RUN_ENCODE run_len)
        in space_map_sync_runs object bufsize maptype (start + run_len) (size' - run_len)
             (space_map_sync_entry object bufsize e st))"
  by pat_completeness auto

lemma SM_RUN_MAX_eq: "SM_RUN_MAX = 32768"
  by (simp add: SM_RUN_MAX_def SM_RUN_DECODE_def BF64_DECODE_def P2PHASE_def)

termination space_map_sync_runs
  by (relation "measure (\<lambda>(object, bufsize, maptype, start, size', st). unat size')")
    (auto simp: SM_RUN_MAX_eq min_def unat_diff_le word_le_nat_alt unat_eq_0 unat_gt_0)

fun space_map_sync_segs ::
  "u64 \<Rightarrow> u64 \<Rightarrow> u8 \<Rightarrow> space_seg list \<Rightarrow> space_map \<Rightarrow> sync_state \<Rightarrow> space_map \<times> sync_state" where
  "space_map_sync_segs object bufsize maptype [] sm st = (sm, st)"
| "space_map_sync_segs object bufsize maptype (ss # sss) sm st =
     (let size' = ss_end ss - ss_start ss;
          start = drop_bit (unat (sm_shift sm)) (ss_start ss - sm_start sm);
          sm = sm\<lparr>sm_space := sm_space sm - size'\<rparr>
      in space_map_sync_segs object bufsize maptype sss sm
           (space_map_sync_runs object bufsize maptype start (drop_bit (unat (sm_shift sm)) size') st))"

text \<open>\<open>spa_sync_pass(spa)\<close> and \<open>dmu_tx_get_txg(tx)\<close> are the arguments \<open>pass\<close> and \<open>txg\<close>.\<close>

definition space_map_sync ::
  "u64 \<Rightarrow> u64 \<Rightarrow> space_map \<Rightarrow> u8 \<Rightarrow> space_map_obj \<Rightarrow> objset \<Rightarrow> (space_map \<times> space_map_obj \<times> objset) option" where
  "space_map_sync pass txg sm maptype smo os =
     (if sm_space sm = 0 then Some (sm, smo, os)
      else
        let smo = smo\<lparr>smo_alloc := (if maptype = SM_ALLOC then smo_alloc smo + sm_space sm
                                    else smo_alloc smo - sm_space sm)\<rparr>;
            bufsize = min ((8 + of_nat (avl_numnodes (sm_root sm))) * 8) (bit64 SPACE_MAP_BLOCKSHIFT);
            e = or (or (or (SM_DEBUG_ENCODE 1) (SM_DEBUG_ACTION_ENCODE (ucast maptype)))
                  (SM_DEBUG_SYNCPASS_ENCODE pass)) (SM_DEBUG_TXG_ENCODE txg);
            st = \<lparr>entry_map = [e], sync_objsize = smo_objsize smo, sync_os = os\<rparr>
        in case avl_destroy_loop (avl_numnodes (sm_root sm) + 1) (sm_root sm) CookieNull of
             None \<Rightarrow> None
           | Some (sss, root) \<Rightarrow>
               let (sm, st) = space_map_sync_segs (smo_object smo) bufsize maptype sss sm st;
                   sm = sm\<lparr>sm_root := root\<rparr>;
                   size' = of_nat (length (entry_map st)) * 8;
                   st = (if entry_map st \<noteq> []
                         then st\<lparr>sync_os := dmu_write (sync_os st) (smo_object smo) (sync_objsize st) (entry_map st),
                                 sync_objsize := sync_objsize st + size'\<rparr>
                         else st)
               in if sm_space sm \<noteq> 0 then None
                  else Some (sm, smo\<lparr>smo_objsize := sync_objsize st\<rparr>, sync_os st))"

definition space_map_truncate :: "bool \<Rightarrow> space_map_obj \<Rightarrow> space_map_obj option" where
  "space_map_truncate free_error smo =
     (if free_error then None else Some (smo\<lparr>smo_objsize := 0, smo_alloc := 0\<rparr>))"

section \<open>Correctness of the space maps\<close>

subsection \<open>Segments\<close>

definition seg_ok :: "space_seg \<Rightarrow> bool" where
  "seg_ok s \<longleftrightarrow> ss_start s < ss_end s"

definition seg_key :: "space_seg \<Rightarrow> bool" where
  "seg_key s \<longleftrightarrow> ss_start s \<le> ss_end s"

text \<open>The comparison function orders disjoint segments; a search key may be empty.\<close>

interpretation seg: avl_order space_map_seg_compare seg_ok seg_key
  by unfold_locales (auto simp: space_map_seg_compare_def seg_ok_def seg_key_def split: if_splits)

lemma seg_compare_less:
  "seg_key x \<Longrightarrow> seg_ok s \<Longrightarrow>
    space_map_seg_compare x s < 0 \<longleftrightarrow> ss_start x < ss_start s \<and> ss_end x \<le> ss_start s"
  by (auto simp: space_map_seg_compare_def)

lemma seg_compare_greater:
  "seg_key x \<Longrightarrow> seg_ok s \<Longrightarrow> space_map_seg_compare x s > 0 \<longleftrightarrow> ss_end s \<le> ss_start x"
  by (auto simp: space_map_seg_compare_def seg_key_def seg_ok_def)

text \<open>A list of segments as the tree keeps it: none empty, and a gap between any two.\<close>

definition segs_ok :: "space_seg list \<Rightarrow> bool" where
  "segs_ok xs \<longleftrightarrow> (\<forall>s\<in>set xs. seg_ok s) \<and> sorted_wrt (\<lambda>a b. ss_end a < ss_start b) xs"

definition segs_set :: "space_seg list \<Rightarrow> u64 set" where
  "segs_set xs = (\<Union>s\<in>set xs. {ss_start s ..< ss_end s})"

lemma segs_ok_simps [simp]:
  "segs_ok []"
  "segs_ok (s # xs) \<longleftrightarrow> seg_ok s \<and> segs_ok xs \<and> (\<forall>b\<in>set xs. ss_end s < ss_start b)"
  "segs_ok (xs @ ys) \<longleftrightarrow> segs_ok xs \<and> segs_ok ys \<and>
     (\<forall>a\<in>set xs. \<forall>b\<in>set ys. ss_end a < ss_start b)"
  by (auto simp: segs_ok_def sorted_wrt_append)

lemma segs_set_simps [simp]:
  "segs_set [] = {}"
  "segs_set (s # xs) = {ss_start s ..< ss_end s} \<union> segs_set xs"
  "segs_set (xs @ ys) = segs_set xs \<union> segs_set ys"
  by (auto simp: segs_set_def)

lemma segs_ok_elem: "segs_ok xs \<Longrightarrow> s \<in> set xs \<Longrightarrow> seg_ok s"
  by (simp add: segs_ok_def)

lemma segs_ok_in_order: "segs_ok xs \<Longrightarrow> seg.in_order xs"
proof (induction xs)
  case (Cons s xs)
  have "space_map_seg_compare s b < 0" if "b \<in> set xs" for b
  proof -
    have "seg_ok s" "seg_ok b" "ss_end s < ss_start b"
      using Cons.prems that segs_ok_elem by auto
    then have "seg_key s" "ss_start s < ss_start b" by (auto simp: seg_key_def seg_ok_def)
    with \<open>seg_ok b\<close> \<open>ss_end s < ss_start b\<close> show ?thesis by (simp add: seg_compare_less)
  qed
  then show ?case using Cons by (simp add: seg.in_order_Cons)
qed simp

lemma finite_segs_set [simp]: "finite (segs_set xs)"
  by simp

text \<open>Adding \<open>[start, end)\<close> between \<open>us\<close> and \<open>vs\<close>, merged with the neighbours it touches.\<close>

definition seg_add :: "space_seg list \<Rightarrow> u64 \<Rightarrow> u64 \<Rightarrow> space_seg list \<Rightarrow> space_seg list" where
  "seg_add us start end' vs =
     (let mb = (us \<noteq> [] \<and> ss_end (last us) = start);
          ma = (vs \<noteq> [] \<and> ss_start (hd vs) = end')
      in (if mb then butlast us else us) @
         \<lparr>ss_start = (if mb then ss_start (last us) else start),
          ss_end = (if ma then ss_end (hd vs) else end')\<rparr> #
         (if ma then tl vs else vs))"

lemma seg_add_left:
  assumes ok: "segs_ok us" and us: "\<forall>a\<in>set us. ss_end a \<le> start"
    and mb: "mb = (us \<noteq> [] \<and> ss_end (last us) = start)"
    and us': "us' = (if mb then butlast us else us)"
    and s: "s = (if mb then ss_start (last us) else start)"
  shows "segs_ok us' \<and> s \<le> start \<and> (\<forall>a\<in>set us'. ss_end a < s) \<and>
    segs_set us = segs_set us' \<union> {s ..< start}"
proof (cases us rule: rev_cases)
  case Nil
  then show ?thesis using mb us' s by simp
next
  case (snoc xs b)
  have b: "ss_start b < ss_end b" "ss_end b \<le> start" and xs: "\<forall>a\<in>set xs. ss_end a < ss_start b"
    using ok us snoc by (auto simp: seg_ok_def)
  show ?thesis
  proof (cases mb)
    case True
    then have "us' = xs" "s = ss_start b" "ss_end b = start" using snoc us' s mb by auto
    then show ?thesis using ok snoc b xs by auto
  next
    case False
    then have eq: "us' = us" "s = start" "ss_end b < start" using snoc us' s mb b by auto
    moreover have "ss_end a < start" if "a \<in> set xs" for a
      using xs that b by (metis order.strict_trans order.strict_trans2)
    ultimately show ?thesis using ok snoc by auto
  qed
qed

lemma seg_add_right:
  assumes ok: "segs_ok vs" and vs: "\<forall>b\<in>set vs. end' \<le> ss_start b"
    and ma: "ma = (vs \<noteq> [] \<and> ss_start (hd vs) = end')"
    and vs': "vs' = (if ma then tl vs else vs)"
    and e: "e = (if ma then ss_end (hd vs) else end')"
  shows "segs_ok vs' \<and> end' \<le> e \<and> (\<forall>b\<in>set vs'. e < ss_start b) \<and>
    segs_set vs = segs_set vs' \<union> {end' ..< e}"
proof (cases vs)
  case Nil
  then show ?thesis using ma vs' e by simp
next
  case (Cons a xs)
  have a: "ss_start a < ss_end a" "end' \<le> ss_start a" and xs: "\<forall>b\<in>set xs. ss_end a < ss_start b"
    using ok vs Cons by (auto simp: seg_ok_def)
  show ?thesis
  proof (cases ma)
    case True
    then have "vs' = xs" "e = ss_end a" "ss_start a = end'" using Cons vs' e ma by auto
    then show ?thesis using ok Cons a xs by auto
  next
    case False
    then have eq: "vs' = vs" "e = end'" "end' < ss_start a" using Cons vs' e ma a by auto
    moreover have "end' < ss_start b" if "b \<in> set xs" for b
      using xs that a eq by (metis order.strict_trans)
    ultimately show ?thesis using ok Cons by auto
  qed
qed

lemma seg_add_ok:
  assumes ok: "segs_ok (us @ vs)" and se: "start < end'"
    and us: "\<forall>a\<in>set us. ss_end a \<le> start" and vs: "\<forall>b\<in>set vs. end' \<le> ss_start b"
  shows "segs_ok (seg_add us start end' vs) \<and>
    segs_set (seg_add us start end' vs) = segs_set (us @ vs) \<union> {start ..< end'}"
proof -
  define mb where "mb = (us \<noteq> [] \<and> ss_end (last us) = start)"
  define ma where "ma = (vs \<noteq> [] \<and> ss_start (hd vs) = end')"
  define us' where "us' = (if mb then butlast us else us)"
  define s where "s = (if mb then ss_start (last us) else start)"
  define vs' where "vs' = (if ma then tl vs else vs)"
  define e where "e = (if ma then ss_end (hd vs) else end')"
  have L: "segs_ok us'" "s \<le> start" "\<forall>a\<in>set us'. ss_end a < s" "segs_set us = segs_set us' \<union> {s ..< start}"
    using seg_add_left [OF _ us mb_def us'_def s_def] ok by auto
  have R: "segs_ok vs'" "end' \<le> e" "\<forall>b\<in>set vs'. e < ss_start b" "segs_set vs = segs_set vs' \<union> {end' ..< e}"
    using seg_add_right [OF _ vs ma_def vs'_def e_def] ok by auto
  have eq: "seg_add us start end' vs = us' @ \<lparr>ss_start = s, ss_end = e\<rparr> # vs'"
    unfolding seg_add_def Let_def mb_def [symmetric] ma_def [symmetric]
    by (simp add: us'_def s_def vs'_def e_def)
  have se': "s < e" using L(2) R(2) se by order
  have "ss_end a < ss_start b" if "a \<in> set us'" "b \<in> set vs'" for a b
    using L(3) R(3) se' that by (metis order.strict_trans)
  then have "segs_ok (seg_add us start end' vs)"
    using L R se' by (auto simp: eq seg_ok_def)
  moreover have "{s ..< e} = {s ..< start} \<union> {start ..< end'} \<union> {end' ..< e}"
    using L(2) R(2) se by auto
  then have "segs_set (seg_add us start end' vs) = segs_set (us @ vs) \<union> {start ..< end'}"
    using L(4) R(4) by (auto simp: eq)
  ultimately show ?thesis ..
qed

lemma segs_ok_distinct: "segs_ok xs \<Longrightarrow> distinct xs"
  by (intro seg.in_order_distinct segs_ok_in_order)

lemma seg_compare_zero:
  assumes "ss_start x < ss_end x" "seg_ok s"
  shows "space_map_seg_compare x s = 0 \<longleftrightarrow>
    {ss_start x ..< ss_end x} \<inter> {ss_start s ..< ss_end s} \<noteq> {}"
proof -
  have "{ss_start x ..< ss_end x} \<inter> {ss_start s ..< ss_end s} =
      {max (ss_start x) (ss_start s) ..< min (ss_end x) (ss_end s)}"
    by auto
  then show ?thesis using assms
    by (auto simp: space_map_seg_compare_def seg_ok_def)
qed

subsection \<open>The invariant of a space map\<close>

definition sm_set :: "space_map \<Rightarrow> u64 set" where
  "sm_set sm = segs_set (avl_contents (sm_root sm))"

text \<open>A segment lies within the map and on its unit boundaries.\<close>

definition seg_within :: "space_map \<Rightarrow> space_seg \<Rightarrow> bool" where
  "seg_within sm s \<longleftrightarrow> sm_start sm \<le> ss_start s \<and> ss_end s \<le> sm_start sm + sm_size sm \<and>
     sm_aligned sm (ss_start s) \<and> sm_aligned sm (ss_end s)"

definition space_map_wf :: "space_map \<Rightarrow> bool" where
  "space_map_wf sm \<longleftrightarrow>
     avl_shape (sm_root sm) \<and> avl_compar (sm_root sm) = space_map_seg_compare \<and>
     segs_ok (avl_contents (sm_root sm)) \<and>
     (\<forall>s\<in>set (avl_contents (sm_root sm)). seg_within sm s) \<and>
     unat (sm_start sm) + unat (sm_size sm) < 2 ^ 64 \<and>
     unat (sm_space sm) = card (sm_set sm)"

text \<open>A range of the map that the operations accept.\<close>

definition sm_range :: "space_map \<Rightarrow> u64 \<Rightarrow> u64 \<Rightarrow> bool" where
  "sm_range sm start size' \<longleftrightarrow> size' \<noteq> 0 \<and> unat start + unat size' < 2 ^ 64 \<and>
     sm_aligned sm start \<and> sm_aligned sm size'"

lemma space_map_wfD:
  assumes "space_map_wf sm"
  shows "avl_shape (sm_root sm)" "avl_compar (sm_root sm) = space_map_seg_compare"
    "segs_ok (avl_contents (sm_root sm))" "seg.tree_ok (sm_root sm)"
    "s \<in> set (avl_contents (sm_root sm)) \<Longrightarrow> seg_within sm s"
    "unat (sm_start sm) + unat (sm_size sm) < 2 ^ 64" "unat (sm_space sm) = card (sm_set sm)"
  using assms by (auto simp: space_map_wf_def intro: seg.tree_okI segs_ok_in_order)

lemma sm_range_less: "sm_range sm start size' \<Longrightarrow> start < start + size'"
  by (simp add: sm_range_def word_less_add)

lemma sm_range_card: "sm_range sm start size' \<Longrightarrow> card {start ..< start + size'} = unat size'"
  by (simp add: sm_range_def card_word_interval unat_add_bound)

lemma sm_set_subset:
  assumes "space_map_wf sm"
  shows "sm_set sm \<subseteq> {sm_start sm ..< sm_start sm + sm_size sm}"
  using space_map_wfD(5) [OF assms] by (fastforce simp: sm_set_def segs_set_def seg_within_def)

lemma sm_card_bound:
  assumes "space_map_wf sm" "S \<subseteq> {sm_start sm ..< sm_start sm + sm_size sm}"
  shows "card S \<le> unat (sm_size sm)"
proof -
  have "card S \<le> card {sm_start sm ..< sm_start sm + sm_size sm}"
    using assms(2) by (rule card_mono [rotated]) simp
  also have "\<dots> = unat (sm_size sm)"
    using space_map_wfD(6) [OF assms(1)] by (simp add: card_word_interval unat_add_bound)
  finally show ?thesis .
qed

lemma create_wf:
  assumes "unat start + unat size' < 2 ^ 64"
  shows "space_map_wf (space_map_create start size' shift) \<and>
    sm_set (space_map_create start size' shift) = {}"
  using assms by (simp add: space_map_create_def space_map_wf_def sm_set_def)

subsection \<open>Adding a range\<close>

text \<open>What the tree operations of \<open>space_map_add\<close> make of the segments.\<close>

lemma add_contents:
  assumes place: "avl_place t w us vs" and shape: "avl_shape t"
    and ok: "segs_ok (seg_add us start end' vs)" and se: "start < end'"
    and us: "\<forall>a\<in>set us. ss_end a \<le> start" and vs: "\<forall>b\<in>set vs. end' \<le> ss_start b"
    and before: "before = avl_nearest t w AVL_BEFORE" and after: "after = avl_nearest t w AVL_AFTER"
    and mb: "mb = (case before of None \<Rightarrow> False | Some b \<Rightarrow> ss_end b = start)"
    and ma: "ma = (case after of None \<Rightarrow> False | Some a \<Rightarrow> ss_start a = end')"
    and root: "root = (if mb \<and> ma then
        avl_store (avl_remove t (the before)) (the after) (the after\<lparr>ss_start := ss_start (the before)\<rparr>)
      else if mb then avl_store t (the before) (the before\<lparr>ss_end := end'\<rparr>)
      else if ma then avl_store t (the after) (the after\<lparr>ss_start := start\<rparr>)
      else avl_insert t \<lparr>ss_start = start, ss_end = end'\<rparr> w)"
  shows "avl_contents root = seg_add us start end' vs \<and> avl_shape root"
proof -
  have dist: "distinct (seg_add us start end' vs)" using ok by (rule segs_ok_distinct)
  have all: "avl_contents t = us @ vs" using place by (rule avl_place_contents)
  have near: "before = last_opt us" "after = hd_opt vs"
    using avl_nearest_place [OF place] shape before after by (auto simp: avl_shape_def)
  have mb': "mb \<longleftrightarrow> us \<noteq> [] \<and> ss_end (last us) = start" and ma': "ma \<longleftrightarrow> vs \<noteq> [] \<and> ss_start (hd vs) = end'"
    using mb ma near by (auto simp: last_opt_def hd_opt_def split: list.splits)
  consider (both) us' b a vs' where "mb" "ma" "us = us' @ [b]" "vs = a # vs'"
    | (left) us' b where "mb" "\<not> ma" "us = us' @ [b]"
    | (right) a vs' where "\<not> mb" "ma" "vs = a # vs'"
    | (none) "\<not> mb" "\<not> ma"
    using mb' ma' by (metis append_butlast_last_id list.exhaust)
  then show ?thesis
  proof cases
    case both
    let ?y = "a\<lparr>ss_start := ss_start b\<rparr>"
    have y: "?y = \<lparr>ss_start = ss_start b, ss_end = ss_end a\<rparr>" by (cases a) simp
    have add: "seg_add us start end' vs = us' @ ?y # vs'"
      using both mb' ma' by (simp add: seg_add_def y)
    have r: "avl_contents (avl_remove t b) = us' @ a # vs'" "avl_shape (avl_remove t b)"
      using avl_remove_split [OF shape, of us' b "a # vs'"] all both by auto
    have "?y \<notin> set us' \<union> set vs'" using dist add by auto
    then show ?thesis using avl_store_split [OF r(2,1)] both near root add by simp
  next
    case left
    let ?y = "b\<lparr>ss_end := end'\<rparr>"
    have y: "?y = \<lparr>ss_start = ss_start b, ss_end = end'\<rparr>" by (cases b) simp
    have add: "seg_add us start end' vs = us' @ ?y # vs"
      using left mb' ma' by (auto simp: seg_add_def y)
    then have "?y \<notin> set us' \<union> set vs" using dist by auto
    then show ?thesis using avl_store_split [OF shape, of us' b vs] all left near root add by simp
  next
    case right
    let ?y = "a\<lparr>ss_start := start\<rparr>"
    have y: "?y = \<lparr>ss_start = start, ss_end = ss_end a\<rparr>" by (cases a) simp
    have add: "seg_add us start end' vs = us @ ?y # vs'"
      using right mb' ma' by (auto simp: seg_add_def y)
    then have "?y \<notin> set us \<union> set vs'" using dist by auto
    then show ?thesis using avl_store_split [OF shape, of us a vs'] all right near root add by simp
  next
    case none
    then have add: "seg_add us start end' vs = us @ \<lparr>ss_start = start, ss_end = end'\<rparr> # vs"
      using mb' ma' by (auto simp: seg_add_def Let_def)
    then have "\<lparr>ss_start = start, ss_end = end'\<rparr> \<notin> set (avl_contents t)" using dist all by auto
    then show ?thesis using avl_insert_place [OF place shape] none root add by simp
  qed
qed

lemma seg_add_within:
  assumes "\<forall>s\<in>set (us @ vs). seg_within sm s"
    and "sm_start sm \<le> start" "end' \<le> sm_start sm + sm_size sm" "sm_aligned sm start" "sm_aligned sm end'"
  shows "\<forall>s\<in>set (seg_add us start end' vs). seg_within sm s"
proof -
  have "\<forall>s\<in>set (butlast us). seg_within sm s" "us \<noteq> [] \<Longrightarrow> seg_within sm (last us)"
    "vs \<noteq> [] \<Longrightarrow> seg_within sm (hd vs)" using assms(1) by (auto dest: in_set_butlastD)
  moreover have "\<forall>s\<in>set (tl vs). seg_within sm s" using assms(1) by (cases vs) auto
  ultimately show ?thesis using assms by (auto simp: seg_add_def Let_def seg_within_def)
qed

text \<open>A search for a range fails exactly when the range is disjoint from the map.\<close>

lemma find_range:
  assumes wf: "space_map_wf sm" and lt: "start < end'"
  shows "(\<exists>w. avl_find (sm_root sm) \<lparr>ss_start = start, ss_end = end'\<rparr> = NotFound w) \<longleftrightarrow>
    {start ..< end'} \<inter> sm_set sm = {}"
proof -
  let ?x = "\<lparr>ss_start = start, ss_end = end'\<rparr>"
  have key: "seg_key ?x" using lt by (simp add: seg_key_def)
  have "(\<exists>w. avl_find (sm_root sm) ?x = NotFound w) \<longleftrightarrow> \<not> (\<exists>y. avl_find (sm_root sm) ?x = Found y)"
    by (cases "avl_find (sm_root sm) ?x") auto
  also have "\<dots> \<longleftrightarrow> (\<forall>s\<in>set (avl_contents (sm_root sm)). space_map_seg_compare ?x s \<noteq> 0)"
    using seg.find_iff [OF space_map_wfD(4) [OF wf] key] by auto
  also have "\<dots> \<longleftrightarrow> {start ..< end'} \<inter> sm_set sm = {}"
  proof -
    have "space_map_seg_compare ?x s = 0 \<longleftrightarrow> {start ..< end'} \<inter> {ss_start s ..< ss_end s} \<noteq> {}"
      if "s \<in> set (avl_contents (sm_root sm))" for s
      using seg_compare_zero [of ?x s] lt segs_ok_elem [OF space_map_wfD(3) [OF wf] that] by simp
    moreover have "{start ..< end'} \<inter> sm_set sm = {} \<longleftrightarrow>
        (\<forall>s\<in>set (avl_contents (sm_root sm)). {start ..< end'} \<inter> {ss_start s ..< ss_end s} = {})"
      unfolding sm_set_def segs_set_def by blast
    ultimately show ?thesis by (simp only: cong: ball_cong) blast
  qed
  finally show ?thesis .
qed

lemma find_range_Found:
  assumes wf: "space_map_wf sm" and lt: "start < end'"
    and found: "avl_find (sm_root sm) \<lparr>ss_start = start, ss_end = end'\<rparr> = Found s"
  shows "s \<in> set (avl_contents (sm_root sm))" "{start ..< end'} \<inter> {ss_start s ..< ss_end s} \<noteq> {}"
proof -
  let ?x = "\<lparr>ss_start = start, ss_end = end'\<rparr>"
  show s: "s \<in> set (avl_contents (sm_root sm))"
    using seg.find_Found(1) [OF space_map_wfD(4) [OF wf] found] .
  have "space_map_seg_compare ?x s = 0"
    using seg.find_Found(2) [OF space_map_wfD(4) [OF wf] found] .
  then show "{start ..< end'} \<inter> {ss_start s ..< ss_end s} \<noteq> {}"
    using seg_compare_zero [of ?x s] lt segs_ok_elem [OF space_map_wfD(3) [OF wf] s] by simp
qed

lemma add_ok:
  assumes wf: "space_map_wf sm" and range: "sm_range sm start size'"
    and lo: "sm_start sm \<le> start" and hi: "start + size' \<le> sm_start sm + sm_size sm"
    and disj: "{start ..< start + size'} \<inter> sm_set sm = {}"
  shows "\<exists>root. space_map_add zfs_recover sm start size' =
      Some (sm\<lparr>sm_root := root, sm_space := sm_space sm + size'\<rparr>) \<and>
    space_map_wf (sm\<lparr>sm_root := root, sm_space := sm_space sm + size'\<rparr>) \<and>
    segs_set (avl_contents root) = sm_set sm \<union> {start ..< start + size'}"
proof -
  let ?fin = "start + size'"
  let ?x = "\<lparr>ss_start = start, ss_end = ?fin\<rparr>" and ?t = "sm_root sm"
  have lt: "start < ?fin" using range by (rule sm_range_less)
  obtain w where w: "avl_find ?t ?x = NotFound w" using find_range [OF wf lt] disj by auto
  have key: "seg_key ?x" using lt by (simp add: seg_key_def)
  obtain us vs where place: "avl_place ?t w us vs" and all: "avl_contents ?t = us @ vs"
    and gt: "\<forall>a\<in>set us. space_map_seg_compare ?x a > 0"
    and less: "\<forall>a\<in>set vs. space_map_seg_compare ?x a < 0"
    by (rule seg.find_NotFound [OF space_map_wfD(4) [OF wf] key w])
  have ok: "segs_ok (us @ vs)" using space_map_wfD(3) [OF wf] all by simp
  have elem: "seg_ok s" if "s \<in> set us \<union> set vs" for s
    using segs_ok_elem [OF ok, of s] that by simp
  have us: "\<forall>a\<in>set us. ss_end a \<le> start"
    using gt elem seg_compare_greater [OF key] by auto
  have vs: "\<forall>b\<in>set vs. ?fin \<le> ss_start b"
    using less elem seg_compare_less [OF key] by auto
  note add = seg_add_ok [OF ok lt us vs]
  define before where "before = avl_nearest ?t w AVL_BEFORE"
  define after where "after = avl_nearest ?t w AVL_AFTER"
  define mb where "mb = (case before of None \<Rightarrow> False | Some b \<Rightarrow> ss_end b = start)"
  define ma where "ma = (case after of None \<Rightarrow> False | Some a \<Rightarrow> ss_start a = ?fin)"
  define root where "root = (if mb \<and> ma then
        avl_store (avl_remove ?t (the before)) (the after) (the after\<lparr>ss_start := ss_start (the before)\<rparr>)
      else if mb then avl_store ?t (the before) (the before\<lparr>ss_end := ?fin\<rparr>)
      else if ma then avl_store ?t (the after) (the after\<lparr>ss_start := start\<rparr>)
      else avl_insert ?t ?x w)"
  have contents: "avl_contents root = seg_add us start ?fin vs" "avl_shape root"
    using add_contents [OF place space_map_wfD(1) [OF wf] conjunct1 [OF add] lt us vs
        before_def after_def mb_def ma_def root_def] by auto
  have set: "segs_set (avl_contents root) = sm_set sm \<union> {start ..< ?fin}"
    using contents add all by (simp add: sm_set_def)
  have "card (sm_set sm \<union> {start ..< ?fin}) = card (sm_set sm) + unat size'"
    using disj sm_range_card [OF range] by (subst card_Un_disjoint) (auto simp: sm_set_def)
  moreover have "card (sm_set sm \<union> {start ..< ?fin}) \<le> unat (sm_size sm)"
    using sm_set_subset [OF wf] lo hi by (intro sm_card_bound [OF wf]) auto
  ultimately have card: "unat (sm_space sm) + unat size' \<le> unat (sm_size sm)"
    "card (sm_set sm \<union> {start ..< ?fin}) = unat (sm_space sm) + unat size'"
    using space_map_wfD(7) [OF wf] by auto
  then have space: "unat (sm_space sm + size') = unat (sm_space sm) + unat size'"
    using order.strict_trans1 [OF card(1) unsigned_less] by (intro unat_add_bound) simp
  then have "sm_space sm + size' \<le> sm_size sm" using card by (simp add: word_le_nat_alt)
  then have run: "space_map_add zfs_recover sm start size' =
      Some (sm\<lparr>sm_root := root, sm_space := sm_space sm + size'\<rparr>)"
    using range lo hi
    by (simp add: space_map_add_def w sm_range_def Let_def root_def mb_def ma_def before_def after_def)
  have "avl_compar root = space_map_seg_compare"
    using space_map_wfD(2) [OF wf] by (simp add: root_def)
  moreover have "\<forall>s\<in>set (avl_contents root). seg_within sm s"
    using space_map_wfD(5) [OF wf] all range lo hi unfolding contents
    by (intro seg_add_within) (auto simp: sm_range_def aligned_add)
  then have "\<forall>s\<in>set (avl_contents root). seg_within (sm\<lparr>sm_root := root, sm_space := sm_space sm + size'\<rparr>) s"
    by (simp add: seg_within_def)
  ultimately have "space_map_wf (sm\<lparr>sm_root := root, sm_space := sm_space sm + size'\<rparr>)"
    using contents add set space card space_map_wfD(6) [OF wf]
    by (simp add: space_map_wf_def sm_set_def)
  with run set show ?thesis by blast
qed

subsection \<open>Removing a range\<close>

lemma segs_ok_apart:
  "segs_ok xs \<Longrightarrow> a \<in> set xs \<Longrightarrow> b \<in> set xs \<Longrightarrow> a \<noteq> b \<Longrightarrow>
    ss_end a < ss_start b \<or> ss_end b < ss_start a"
  by (induction xs) auto

text \<open>A contiguous range inside the map lies inside one segment, because neighbouring
  segments never touch.\<close>

lemma range_in_one_seg:
  assumes ok: "segs_ok xs" and lt: "start < end'" and sub: "{start ..< end'} \<subseteq> segs_set xs"
    and s: "s \<in> set xs" and meet: "{start ..< end'} \<inter> {ss_start s ..< ss_end s} \<noteq> {}"
  shows "ss_start s \<le> start \<and> end' \<le> ss_end s"
proof -
  obtain r where r: "r \<in> set xs" "ss_start r \<le> start" "start < ss_end r"
    using sub lt by (force simp: segs_set_def)
  have "end' \<le> ss_end r"
  proof (rule ccontr)
    assume "\<not> end' \<le> ss_end r"
    then have "ss_end r \<in> {start ..< end'}" using r by auto
    then have "ss_end r \<in> segs_set xs" using sub by blast
    then obtain q where q: "q \<in> set xs" "ss_start q \<le> ss_end r" "ss_end r < ss_end q"
      by (auto simp: segs_set_def)
    have "ss_start r < ss_end r" using r by order
    with q r segs_ok_apart [OF ok r(1) q(1)] show False by (cases "q = r") auto
  qed
  moreover have "s = r"
  proof (rule ccontr)
    assume "s \<noteq> r"
    with segs_ok_apart [OF ok s r(1)] r meet \<open>end' \<le> ss_end r\<close> show False by auto
  qed
  ultimately show ?thesis using r by simp
qed

definition seg_del :: "space_seg list \<Rightarrow> space_seg \<Rightarrow> u64 \<Rightarrow> u64 \<Rightarrow> space_seg list \<Rightarrow> space_seg list" where
  "seg_del us s start end' vs =
     us @ (if ss_start s \<noteq> start then [s\<lparr>ss_end := start\<rparr>] else []) @
     (if ss_end s \<noteq> end' then [\<lparr>ss_start = end', ss_end = ss_end s\<rparr>] else []) @ vs"

lemma seg_del_ok:
  assumes ok: "segs_ok (us @ s # vs)" and lt: "start < end'"
    and lo: "ss_start s \<le> start" and hi: "end' \<le> ss_end s"
  shows "segs_ok (seg_del us s start end' vs) \<and>
    segs_set (seg_del us s start end' vs) = segs_set (us @ s # vs) - {start ..< end'}"
proof -
  have us: "\<forall>a\<in>set us. ss_end a < ss_start s" and vs: "\<forall>b\<in>set vs. ss_end s < ss_start b"
    and parts: "segs_ok us" "segs_ok vs" and across: "\<forall>a\<in>set us. \<forall>b\<in>set vs. ss_end a < ss_start b"
    using ok by auto
  have a1: "ss_end a < end'" if "a \<in> set us" for a using us that lo lt by (metis order.strict_trans order.strict_trans2)
  have b1: "start < ss_start b" if "b \<in> set vs" for b using vs that hi lt by (metis order.strict_trans order.strict_trans2)
  have "segs_ok (seg_del us s start end' vs)"
    using parts across us vs a1 b1 lo hi lt by (auto simp: seg_del_def seg_ok_def order.strict_iff_order)
  moreover have "segs_set us \<inter> {start ..< end'} = {}"
    using us lo by (force simp: segs_set_def)
  moreover have "segs_set vs \<inter> {start ..< end'} = {}"
    using vs hi by (force simp: segs_set_def)
  moreover have "segs_set (seg_del us s start end' vs) = segs_set us \<union> ({ss_start s ..< ss_end s} - {start ..< end'}) \<union> segs_set vs"
    using lo hi lt by (auto simp: seg_del_def)
  ultimately show ?thesis by auto
qed

lemma del_contents:
  assumes shape: "avl_shape t" and all: "avl_contents t = us @ s # vs"
    and ok: "segs_ok (seg_del us s start end' vs)" and lt: "start < end'"
    and lo: "ss_start s \<le> start" and hi: "end' \<le> ss_end s"
    and root: "root = (if ss_start s \<noteq> start \<and> ss_end s \<noteq> end' then
        (let newseg = \<lparr>ss_start = end', ss_end = ss_end s\<rparr>; ss' = s\<lparr>ss_end := start\<rparr>
         in avl_insert_here (avl_store t s ss') newseg ss' AVL_AFTER)
      else if ss_start s \<noteq> start then avl_store t s (s\<lparr>ss_end := start\<rparr>)
      else if ss_end s \<noteq> end' then avl_store t s (s\<lparr>ss_start := end'\<rparr>)
      else avl_remove t s)"
  shows "avl_contents root = seg_del us s start end' vs \<and> avl_shape root"
proof -
  have dist: "distinct (seg_del us s start end' vs)" using ok by (rule segs_ok_distinct)
  let ?l = "s\<lparr>ss_end := start\<rparr>" and ?r = "\<lparr>ss_start = end', ss_end = ss_end s\<rparr>"
  have r: "s\<lparr>ss_start := end'\<rparr> = ?r" by (cases s) simp
  consider (mid) "ss_start s \<noteq> start" "ss_end s \<noteq> end'" | (left) "ss_start s \<noteq> start" "ss_end s = end'"
    | (right) "ss_start s = start" "ss_end s \<noteq> end'" | (whole) "ss_start s = start" "ss_end s = end'"
    by blast
  then show ?thesis
  proof cases
    case mid
    then have del: "seg_del us s start end' vs = us @ ?l # ?r # vs" by (simp add: seg_del_def)
    have "?l \<notin> set us \<union> set vs" using dist del by auto
    then have st: "avl_contents (avl_store t s ?l) = us @ ?l # vs" "avl_shape (avl_store t s ?l)"
      using avl_store_split [OF shape all] by auto
    have "?r \<notin> set (avl_contents (avl_store t s ?l))" using dist del st by auto
    then show ?thesis using avl_insert_here_after [OF st(2,1)] mid root del by (simp add: Let_def)
  next
    case left
    then have del: "seg_del us s start end' vs = us @ ?l # vs" by (simp add: seg_del_def)
    then have "?l \<notin> set us \<union> set vs" using dist by auto
    then show ?thesis using avl_store_split [OF shape all] left root del by simp
  next
    case right
    then have del: "seg_del us s start end' vs = us @ ?r # vs" by (simp add: seg_del_def)
    then have "?r \<notin> set us \<union> set vs" using dist by auto
    then show ?thesis using avl_store_split [OF shape all] right root del r by simp
  next
    case whole
    then show ?thesis using avl_remove_split [OF shape all] root by (simp add: seg_del_def)
  qed
qed

lemma remove_range_ok:
  assumes wf: "space_map_wf sm" and range: "sm_range sm start size'"
    and sub: "{start ..< start + size'} \<subseteq> sm_set sm"
  shows "\<exists>root. space_map_remove zfs_recover sm start size' =
      Some (sm\<lparr>sm_root := root, sm_space := sm_space sm - size'\<rparr>) \<and>
    space_map_wf (sm\<lparr>sm_root := root, sm_space := sm_space sm - size'\<rparr>) \<and>
    segs_set (avl_contents root) = sm_set sm - {start ..< start + size'} \<and>
    (\<exists>us s vs. avl_contents (sm_root sm) = us @ s # vs \<and>
       ss_start s \<le> start \<and> start + size' \<le> ss_end s \<and>
       avl_contents root = seg_del us s start (start + size') vs)"
proof -
  let ?fin = "start + size'" and ?t = "sm_root sm"
  have lt: "start < ?fin" using range by (rule sm_range_less)
  have "start \<in> {start ..< ?fin}" using lt by simp
  then have "{start ..< ?fin} \<inter> sm_set sm \<noteq> {}" using sub by blast
  then obtain s where s: "avl_find ?t \<lparr>ss_start = start, ss_end = ?fin\<rparr> = Found s"
    using find_range [OF wf lt] by (cases "avl_find ?t \<lparr>ss_start = start, ss_end = ?fin\<rparr>") auto
  note found = find_range_Found [OF wf lt s]
  have in_s: "ss_start s \<le> start" "?fin \<le> ss_end s"
    using range_in_one_seg [OF space_map_wfD(3) [OF wf] lt _ found] sub by (auto simp: sm_set_def)
  obtain us vs where all: "avl_contents ?t = us @ s # vs" using found(1) by (meson split_list)
  have ok: "segs_ok (us @ s # vs)" using space_map_wfD(3) [OF wf] all by simp
  note del = seg_del_ok [OF ok lt in_s]
  define root where "root = (if ss_start s \<noteq> start \<and> ss_end s \<noteq> ?fin then
        (let newseg = \<lparr>ss_start = ?fin, ss_end = ss_end s\<rparr>; ss' = s\<lparr>ss_end := start\<rparr>
         in avl_insert_here (avl_store ?t s ss') newseg ss' AVL_AFTER)
      else if ss_start s \<noteq> start then avl_store ?t s (s\<lparr>ss_end := start\<rparr>)
      else if ss_end s \<noteq> ?fin then avl_store ?t s (s\<lparr>ss_start := ?fin\<rparr>)
      else avl_remove ?t s)"
  have contents: "avl_contents root = seg_del us s start ?fin vs" "avl_shape root"
    using del_contents [OF space_map_wfD(1) [OF wf] all conjunct1 [OF del] lt in_s root_def] by auto
  have set: "segs_set (avl_contents root) = sm_set sm - {start ..< ?fin}"
    using contents del all by (simp add: sm_set_def)
  have size_le: "unat size' \<le> unat (sm_space sm)"
    using card_mono [OF _ sub] sm_range_card [OF range] space_map_wfD(7) [OF wf]
    by (simp add: sm_set_def)
  then have space: "unat (sm_space sm - size') = unat (sm_space sm) - unat size'"
    by (simp add: unat_diff_le word_le_nat_alt)
  have card: "card (sm_set sm - {start ..< ?fin}) = unat (sm_space sm) - unat size'"
    using sub sm_range_card [OF range] space_map_wfD(7) [OF wf] by (simp add: card_Diff_subset)
  have "unat (sm_space sm) \<le> unat (sm_size sm)"
    using sm_card_bound [OF wf sm_set_subset [OF wf]] space_map_wfD(7) [OF wf] by simp
  then have "sm_space sm - size' \<le> sm_size sm" using space by (simp add: word_le_nat_alt)
  then have run: "space_map_remove zfs_recover sm start size' =
      Some (sm\<lparr>sm_root := root, sm_space := sm_space sm - size'\<rparr>)"
    using range in_s by (simp add: space_map_remove_def s sm_range_def Let_def root_def)
  have compar: "avl_compar root = space_map_seg_compare"
    using space_map_wfD(2) [OF wf] by (simp add: root_def Let_def)
  have within: "seg_within sm r" if "r \<in> set us \<union> {s} \<union> set vs" for r
    using space_map_wfD(5) [OF wf, of r] all that by auto
  have "sm_start sm \<le> ss_start s" "ss_end s \<le> sm_start sm + sm_size sm"
    using within [of s] by (auto simp: seg_within_def)
  then have "start \<le> sm_start sm + sm_size sm" "sm_start sm \<le> ?fin" using in_s lt by order+
  moreover have "sm_aligned sm ?fin" using range by (simp add: sm_range_def aligned_add)
  ultimately have "\<forall>r\<in>set (avl_contents root). seg_within sm r"
    using within [of s] within range unfolding contents seg_del_def
    by (auto simp: seg_within_def sm_range_def)
  then have "\<forall>r\<in>set (avl_contents root). seg_within (sm\<lparr>sm_root := root, sm_space := sm_space sm - size'\<rparr>) r"
    by (simp add: seg_within_def)
  with compar have "space_map_wf (sm\<lparr>sm_root := root, sm_space := sm_space sm - size'\<rparr>)"
    using contents del set space card space_map_wfD(6) [OF wf]
    by (simp add: space_map_wf_def sm_set_def)
  with run set all in_s contents(1) show ?thesis by blast
qed

lemma contains_ok:
  assumes wf: "space_map_wf sm" and range: "sm_range sm start size'"
  shows "space_map_contains sm start size' = Some ({start ..< start + size'} \<subseteq> sm_set sm)"
proof -
  let ?fin = "start + size'" and ?t = "sm_root sm"
  let ?x = "\<lparr>ss_start = start, ss_end = ?fin\<rparr>"
  have lt: "start < ?fin" using range by (rule sm_range_less)
  show ?thesis
  proof (cases "avl_find ?t ?x")
    case (NotFound w)
    then have "{start ..< ?fin} \<inter> sm_set sm = {}" using find_range [OF wf lt] by auto
    moreover have "start \<in> {start ..< ?fin}" using lt by simp
    ultimately have "\<not> {start ..< ?fin} \<subseteq> sm_set sm" by blast
    then show ?thesis using range NotFound by (simp add: space_map_contains_def sm_range_def)
  next
    case (Found s)
    note found = find_range_Found [OF wf lt Found]
    have "ss_start s \<le> start \<and> ?fin \<le> ss_end s \<longleftrightarrow> {start ..< ?fin} \<subseteq> sm_set sm"
    proof
      assume "{start ..< ?fin} \<subseteq> sm_set sm"
      then show "ss_start s \<le> start \<and> ?fin \<le> ss_end s"
        using range_in_one_seg [OF space_map_wfD(3) [OF wf] lt _ found] by (simp add: sm_set_def)
    next
      assume "ss_start s \<le> start \<and> ?fin \<le> ss_end s"
      then have "{start ..< ?fin} \<subseteq> {ss_start s ..< ss_end s}" by auto
      then show "{start ..< ?fin} \<subseteq> sm_set sm"
        using found(1) unfolding sm_set_def segs_set_def by blast
    qed
    then show ?thesis using range Found by (simp add: space_map_contains_def sm_range_def)
  qed
qed

subsection \<open>Excising a range\<close>

text \<open>The segment a round of \<open>space_map_excise\<close> looks at: the first that ends beyond
  \<open>start\<close>.\<close>

definition seg_from :: "u64 \<Rightarrow> space_seg list \<Rightarrow> space_seg option" where
  "seg_from start xs = hd_opt (dropWhile (\<lambda>s. ss_end s \<le> start) xs)"

lemma seg_from_split:
  "\<forall>a\<in>set us. ss_end a \<le> start \<Longrightarrow> \<forall>b\<in>set vs. start < ss_end b \<Longrightarrow> seg_from start (us @ vs) = hd_opt vs"
  by (cases vs) (auto simp: seg_from_def dropWhile_append)

lemma excise_select:
  assumes wf: "space_map_wf sm"
  shows "(case avl_find (sm_root sm) \<lparr>ss_start = start, ss_end = start\<rparr> of
      Found ss \<Rightarrow> Some ss | NotFound w \<Rightarrow> avl_nearest (sm_root sm) w AVL_AFTER) =
    seg_from start (avl_contents (sm_root sm))"
proof -
  let ?x = "\<lparr>ss_start = start, ss_end = start\<rparr>" and ?t = "sm_root sm"
  have key: "seg_key ?x" by (simp add: seg_key_def)
  have ok: "segs_ok (avl_contents ?t)" using wf by (rule space_map_wfD)
  have ends: "start < ss_end b" if "start < ss_start b" "seg_ok b" for b
    using that by (auto simp: seg_ok_def)
  show ?thesis
  proof (cases "avl_find ?t ?x")
    case (Found s)
    have s: "s \<in> set (avl_contents ?t)" "space_map_seg_compare ?x s = 0"
      using seg.find_Found [OF space_map_wfD(4) [OF wf] Found] by auto
    then obtain us vs where all: "avl_contents ?t = us @ s # vs" by (meson split_list)
    have in_s: "ss_start s \<le> start" "start < ss_end s"
      using s segs_ok_elem [OF ok s(1)] by (auto simp: space_map_seg_compare_def seg_ok_def split: if_splits)
    have "\<forall>a\<in>set us. ss_end a \<le> start" using ok all in_s by auto
    moreover have "\<forall>b\<in>set (s # vs). start < ss_end b"
      using ok all in_s ends segs_ok_elem [OF ok] by (auto intro: order.strict_trans)
    ultimately show ?thesis using Found all seg_from_split [of us start "s # vs"] by simp
  next
    case (NotFound w)
    obtain us vs where place: "avl_place ?t w us vs" and all: "avl_contents ?t = us @ vs"
      and gt: "\<forall>a\<in>set us. space_map_seg_compare ?x a > 0"
      and less: "\<forall>a\<in>set vs. space_map_seg_compare ?x a < 0"
      by (rule seg.find_NotFound [OF space_map_wfD(4) [OF wf] key NotFound])
    have elem: "seg_ok s" if "s \<in> set us \<union> set vs" for s
      using segs_ok_elem [OF ok, of s] all that by simp
    have "\<forall>a\<in>set us. ss_end a \<le> start" using gt elem seg_compare_greater [OF key] by auto
    moreover have "\<forall>b\<in>set vs. start < ss_end b"
      using less elem seg_compare_less [OF key] ends by auto
    ultimately have "seg_from start (us @ vs) = hd_opt vs" by (rule seg_from_split)
    moreover have "avl_nearest ?t w AVL_AFTER = hd_opt vs"
      using avl_nearest_place(2) [OF place] space_map_wfD(1) [OF wf] by (simp add: avl_shape_def)
    ultimately show ?thesis using NotFound all by simp
  qed
qed

text \<open>The segments with a part in a range, whose number goes down in every round.\<close>

definition segs_meeting :: "u64 \<Rightarrow> u64 \<Rightarrow> space_seg list \<Rightarrow> space_seg list" where
  "segs_meeting start end' xs = filter (\<lambda>s. ss_start s < end' \<and> start < ss_end s) xs"

lemma seg_from_cases:
  assumes ok: "segs_ok xs"
  obtains (none) "case seg_from start xs of None \<Rightarrow> True | Some s \<Rightarrow> end' \<le> ss_start s"
      "segs_set xs \<inter> {start ..< end'} = {}"
    | (more) us s vs where "seg_from start xs = Some s" "xs = us @ s # vs" "ss_start s < end'" "start < ss_end s"
proof (cases "seg_from start xs")
  case None
  then have "\<forall>s\<in>set xs. ss_end s \<le> start" by (simp add: seg_from_def dropWhile_eq_Nil_conv)
  then have "segs_set xs \<inter> {start ..< end'} = {}" by (force simp: segs_set_def)
  with None show ?thesis using none by simp
next
  case (Some s)
  then obtain vs where drop: "dropWhile (\<lambda>s. ss_end s \<le> start) xs = s # vs"
    using hd_opt_SomeD by (force simp: seg_from_def)
  define us where "us = takeWhile (\<lambda>s. ss_end s \<le> start) xs"
  have xs: "xs = us @ s # vs" using drop us_def by (metis takeWhile_dropWhile_id)
  have us: "\<forall>a\<in>set us. ss_end a \<le> start" unfolding us_def by (auto dest: set_takeWhileD)
  have s: "start < ss_end s" using drop by (metis hd_dropWhile list.sel(1) list.distinct(1) not_le)
  show ?thesis
  proof (cases "end' \<le> ss_start s")
    case True
    have "segs_set us \<inter> {start ..< end'} = {}" using us by (force simp: segs_set_def)
    moreover have "end' \<le> ss_start b" if "b \<in> set (s # vs)" for b
      using ok xs that True by (auto simp: seg_ok_def)
    then have "segs_set (s # vs) \<inter> {start ..< end'} = {}" by (force simp: segs_set_def)
    ultimately show ?thesis using none True Some xs by auto
  next
    case False
    then show ?thesis using more Some xs s by auto
  qed
qed

lemma excise_loop_ok:
  assumes "space_map_wf sm" "start < end'" "sm_aligned sm start" "sm_aligned sm end'"
    and "length (segs_meeting start end' (avl_contents (sm_root sm))) < n"
  shows "\<exists>root space. space_map_excise_loop n zfs_recover sm start end' =
      Some (sm\<lparr>sm_root := root, sm_space := space\<rparr>) \<and>
    space_map_wf (sm\<lparr>sm_root := root, sm_space := space\<rparr>) \<and>
    segs_set (avl_contents root) = sm_set sm - {start ..< end'}"
  using assms
proof (induction n arbitrary: sm)
  case (Suc n)
  let ?xs = "avl_contents (sm_root sm)"
  note wf = Suc.prems(1) and lt = Suc.prems(2) and al = Suc.prems(3,4)
  have ok: "segs_ok ?xs" using wf by (rule space_map_wfD)
  note sel = excise_select [OF wf, of start]
  from ok show ?case
  proof (cases rule: seg_from_cases [where start = start and end' = end'])
    case none
    then have "space_map_excise_loop (Suc n) zfs_recover sm start end' = Some sm"
      using sel by (auto simp: Let_def split: option.splits)
    then show ?thesis using wf none
      by (intro exI [of _ "sm_root sm"] exI [of _ "sm_space sm"]) (auto simp: sm_set_def)
  next
    case (more us s vs)
    let ?rs = "max (ss_start s) start" and ?re = "min (ss_end s) end'"
    have s: "s \<in> set ?xs" "ss_start s < ss_end s"
      using more segs_ok_elem [OF ok, of s] by (auto simp: seg_ok_def)
    have rlt: "?rs < ?re" using more s lt by auto
    have rend: "?rs + (?re - ?rs) = ?re" by simp
    have "sm_aligned sm ?rs" "sm_aligned sm ?re"
      using al space_map_wfD(5) [OF wf s(1)] by (auto simp: max_def min_def seg_within_def)
    moreover have "unat ?rs + unat (?re - ?rs) < 2 ^ 64"
      using rlt unsigned_less [of ?re] by (simp add: unat_diff_le less_imp_le word_le_nat_alt [symmetric] del: unsigned_less)
    moreover have "?re - ?rs \<noteq> 0" using rlt by (metis right_minus_eq less_irrefl)
    ultimately have range: "sm_range sm ?rs (?re - ?rs)" by (simp add: sm_range_def aligned_diff)
    have sub: "{?rs ..< ?rs + (?re - ?rs)} \<subseteq> sm_set sm"
      unfolding rend sm_set_def segs_set_def using s by force
    obtain root us' s' vs' where rm: "space_map_remove zfs_recover sm ?rs (?re - ?rs) =
        Some (sm\<lparr>sm_root := root, sm_space := sm_space sm - (?re - ?rs)\<rparr>)"
      "space_map_wf (sm\<lparr>sm_root := root, sm_space := sm_space sm - (?re - ?rs)\<rparr>)"
      "segs_set (avl_contents root) = sm_set sm - {?rs ..< ?re}"
      "?xs = us' @ s' # vs'" "ss_start s' \<le> ?rs" "?re \<le> ss_end s'"
      "avl_contents root = seg_del us' s' ?rs ?re vs'"
      using remove_range_ok [OF wf range sub] unfolding rend by blast
    have "s' \<in> set ?xs" using rm(4) by simp
    have s': "s' = s"
    proof (rule ccontr)
      assume "s' \<noteq> s"
      then have "ss_end s' < ss_start s \<or> ss_end s < ss_start s'"
        using \<open>s' \<in> set ?xs\<close> s(1) by (intro segs_ok_apart [OF ok])
      moreover have "ss_start s \<le> ?rs" "?re \<le> ss_end s" by simp_all
      ultimately show False using rm(5,6) rlt by (elim disjE) order+
    qed
    let ?sm = "sm\<lparr>sm_root := root, sm_space := sm_space sm - (?re - ?rs)\<rparr>"
    have "length (segs_meeting start end' (avl_contents root)) < length (segs_meeting start end' ?xs)"
      unfolding rm(4,7) using more by (auto simp: s' seg_del_def segs_meeting_def max_def min_def)
    then have "length (segs_meeting start end' (avl_contents (sm_root ?sm))) < n"
      using Suc.prems(5) by simp
    from Suc.IH [OF rm(2) lt _ _ this] al
    obtain root' space where IH: "space_map_excise_loop n zfs_recover ?sm start end' =
        Some (?sm\<lparr>sm_root := root', sm_space := space\<rparr>)"
      "space_map_wf (?sm\<lparr>sm_root := root', sm_space := space\<rparr>)"
      "segs_set (avl_contents root') = sm_set ?sm - {start ..< end'}" by auto
    have neg: "(end' \<le> ss_start s) = False" using more(3) by auto
    have "space_map_excise_loop (Suc n) zfs_recover sm start end' =
        space_map_excise_loop n zfs_recover ?sm start end'"
      using rm(1) neg
      by (simp only: space_map_excise_loop.simps Let_def sel more(1) option.case if_False)
    moreover have "segs_set (avl_contents root') = sm_set sm - {start ..< end'}"
    proof -
      have "{?rs ..< ?re} \<subseteq> {start ..< end'}" by (rule ivl_subset [THEN iffD2]) simp
      moreover have "sm_set ?sm = sm_set sm - {?rs ..< ?re}" using rm(3) by (simp add: sm_set_def)
      ultimately show ?thesis using IH(3) by blast
    qed
    ultimately show ?thesis using IH(1,2) by auto
  qed
qed simp

lemma excise_ok:
  assumes wf: "space_map_wf sm" and range: "sm_range sm start size'"
  shows "\<exists>root space. space_map_excise zfs_recover sm start size' =
      Some (sm\<lparr>sm_root := root, sm_space := space\<rparr>) \<and>
    space_map_wf (sm\<lparr>sm_root := root, sm_space := space\<rparr>) \<and>
    segs_set (avl_contents root) = sm_set sm - {start ..< start + size'}"
proof -
  have "length (segs_meeting start (start + size') (avl_contents (sm_root sm))) \<le> avl_numnodes (sm_root sm)"
    using space_map_wfD(1) [OF wf] by (simp add: segs_meeting_def avl_shape_def)
  then show ?thesis unfolding space_map_excise_def
    using range sm_range_less [OF range]
    by (intro excise_loop_ok [OF wf]) (auto simp: sm_range_def aligned_add)
qed

subsection \<open>Walks over a map\<close>

lemma sorted_wrt_distinct:
  "distinct xs \<Longrightarrow> (\<And>a b. a \<in> set xs \<Longrightarrow> b \<in> set xs \<Longrightarrow> a \<noteq> b \<Longrightarrow> P a b) \<Longrightarrow> sorted_wrt P xs"
  by (induction xs) auto


text \<open>What an operation leaves of its map: nothing but the tree and the sum of its
  segments changes, the map stays well formed, and its set of offsets is \<open>S\<close>.\<close>

definition sm_becomes :: "space_map \<Rightarrow> u64 set \<Rightarrow> space_map \<Rightarrow> bool" where
  "sm_becomes sm S sm' \<longleftrightarrow>
     (\<exists>root space. sm' = sm\<lparr>sm_root := root, sm_space := space\<rparr>) \<and> space_map_wf sm' \<and> sm_set sm' = S"

lemma sm_becomesI:
  "sm' = sm\<lparr>sm_root := root, sm_space := space\<rparr> \<Longrightarrow> space_map_wf sm' \<Longrightarrow>
    segs_set (avl_contents root) = S \<Longrightarrow> sm_becomes sm S sm'"
  by (auto simp: sm_becomes_def sm_set_def)

lemma sm_becomes_wf: "sm_becomes sm S sm' \<Longrightarrow> space_map_wf sm'"
  and sm_becomes_set: "sm_becomes sm S sm' \<Longrightarrow> sm_set sm' = S"
  by (simp_all add: sm_becomes_def)

lemma sm_becomes_fields [simp]:
  assumes "sm_becomes sm S sm'"
  shows "sm_start sm' = sm_start sm" "sm_size sm' = sm_size sm" "sm_shift sm' = sm_shift sm"
    "sm_loaded sm' = sm_loaded sm" "sm_loading sm' = sm_loading sm" "sm_ops sm' = sm_ops sm"
    "sm_ppd sm' = sm_ppd sm"
  using assms by (auto simp: sm_becomes_def)

lemma sm_becomes_trans: "sm_becomes sm S sm' \<Longrightarrow> sm_becomes sm' T sm'' \<Longrightarrow> sm_becomes sm T sm''"
  unfolding sm_becomes_def by (elim conjE exE, intro conjI) (simp, blast+)

lemma sm_becomes_refl: "space_map_wf sm \<Longrightarrow> sm_becomes sm (sm_set sm) sm"
  unfolding sm_becomes_def
  by (intro conjI exI [of _ "sm_root sm"] exI [of _ "sm_space sm"]) auto

lemma add_becomes:
  assumes "space_map_wf sm" "sm_range sm start size'" "sm_start sm \<le> start"
    "start + size' \<le> sm_start sm + sm_size sm" "{start ..< start + size'} \<inter> sm_set sm = {}"
  obtains sm' where "space_map_add zfs_recover sm start size' = Some sm'"
    "sm_becomes sm (sm_set sm \<union> {start ..< start + size'}) sm'"
  using add_ok [OF assms, of zfs_recover] by (auto intro: sm_becomesI)

lemma remove_becomes:
  assumes "space_map_wf sm" "sm_range sm start size'" "{start ..< start + size'} \<subseteq> sm_set sm"
  obtains sm' where "space_map_remove zfs_recover sm start size' = Some sm'"
    "sm_becomes sm (sm_set sm - {start ..< start + size'}) sm'"
  using remove_range_ok [OF assms, of zfs_recover] by (auto intro: sm_becomesI)

lemma excise_becomes:
  assumes "space_map_wf sm" "sm_range sm start size'"
  obtains sm' where "space_map_excise zfs_recover sm start size' = Some sm'"
    "sm_becomes sm (sm_set sm - {start ..< start + size'}) sm'"
  using excise_ok [OF assms, of zfs_recover] by (auto intro: sm_becomesI)

text \<open>A segment as the range the walks pass on.\<close>

lemma seg_range:
  assumes "seg_within sm s" "seg_ok s"
  shows "sm_range sm (ss_start s) (ss_end s - ss_start s)" "sm_start sm \<le> ss_start s"
    "ss_start s + (ss_end s - ss_start s) \<le> sm_start sm + sm_size sm"
proof -
  have "unat (ss_start s) + unat (ss_end s - ss_start s) < 2 ^ 64"
    using assms(2) unsigned_less [of "ss_end s"]
    by (simp add: seg_ok_def unat_diff_le less_imp_le word_le_nat_alt [symmetric] del: unsigned_less)
  then show "sm_range sm (ss_start s) (ss_end s - ss_start s)"
    using assms by (auto simp: sm_range_def seg_within_def seg_ok_def aligned_diff)
qed (use assms in \<open>auto simp: seg_within_def\<close>)

text \<open>The maps between which a walk goes cover the same offsets in the same units.\<close>

definition sm_compatible :: "space_map \<Rightarrow> space_map \<Rightarrow> bool" where
  "sm_compatible sm sm' \<longleftrightarrow> sm_start sm = sm_start sm' \<and> sm_size sm = sm_size sm' \<and> sm_shift sm = sm_shift sm'"

text \<open>The contract of a \<open>space_map_func_t\<close>: on a range that \<open>pre\<close> admits, it takes the
  set of offsets to \<open>eff\<close>.  A walk over disjoint segments then has the effect
  on their union.\<close>

locale sm_func =
  fixes func :: space_map_func
    and pre :: "u64 set \<Rightarrow> u64 set \<Rightarrow> bool" and eff :: "u64 set \<Rightarrow> u64 set \<Rightarrow> u64 set"
  assumes func: "space_map_wf sm \<Longrightarrow> sm_range sm start size' \<Longrightarrow> sm_start sm \<le> start \<Longrightarrow>
      start + size' \<le> sm_start sm + sm_size sm \<Longrightarrow> pre (sm_set sm) {start ..< start + size'} \<Longrightarrow>
      \<exists>sm'. func sm start size' = Some sm' \<and> sm_becomes sm (eff (sm_set sm) {start ..< start + size'}) sm'"
    and pre_Un: "A \<inter> B = {} \<Longrightarrow> pre S (A \<union> B) \<Longrightarrow> pre S A \<and> pre (eff S A) B"
    and eff_Un: "eff S (A \<union> B) = eff (eff S A) B"
    and eff_empty: "eff S {} = S"
begin

lemma apply_becomes:
  assumes "space_map_wf sm" "\<forall>s\<in>set sss. seg_ok s \<and> seg_within sm s"
    "sorted_wrt (\<lambda>a b. ss_end a \<le> ss_start b \<or> ss_end b \<le> ss_start a) sss" "pre (sm_set sm) (segs_set sss)"
  shows "\<exists>sm'. space_map_apply func sss sm = Some sm' \<and> sm_becomes sm (eff (sm_set sm) (segs_set sss)) sm'"
  using assms
proof (induction sss arbitrary: sm)
  case Nil
  then show ?case by (simp add: segs_set_def eff_empty sm_becomes_refl)
next
  case (Cons s sss)
  let ?A = "{ss_start s ..< ss_end s}"
  have split: "segs_set (s # sss) = ?A \<union> segs_set sss" by (auto simp: segs_set_def)
  have "ss_start b < ss_end b \<and> (ss_end s \<le> ss_start b \<or> ss_end b \<le> ss_start s)" if "b \<in> set sss" for b
    using Cons.prems(2,3) that by (auto simp: seg_ok_def)
  then have "?A \<inter> segs_set sss = {}" by (force simp: segs_set_def)
  from pre_Un [OF this] Cons.prems(4) split
  have pre: "pre (sm_set sm) ?A" "pre (eff (sm_set sm) ?A) (segs_set sss)" by auto
  have s: "seg_within sm s" "seg_ok s" using Cons.prems(2) by auto
  obtain sm' where sm': "func sm (ss_start s) (ss_end s - ss_start s) = Some sm'"
    "sm_becomes sm (eff (sm_set sm) ?A) sm'"
    using func [OF Cons.prems(1) seg_range [OF s]] pre(1) by auto
  have "\<forall>s\<in>set sss. seg_ok s \<and> seg_within sm' s"
    using Cons.prems(2) sm'(2) by (auto simp: seg_within_def)
  then obtain sm'' where "space_map_apply func sss sm' = Some sm''"
    "sm_becomes sm' (eff (sm_set sm') (segs_set sss)) sm''"
    using Cons.IH [OF sm_becomes_wf [OF sm'(2)]] Cons.prems(3) pre(2) sm'(2)
    by (auto simp: sm_becomes_set)
  then show ?case using sm' split
    by (auto simp: eff_Un sm_becomes_set intro: sm_becomes_trans)
qed

lemma walk_segs:
  assumes "space_map_wf sms" "space_map_wf smd" "sm_compatible sms smd" "pre (sm_set smd) (sm_set sms)"
    and "set sss = set (avl_contents (sm_root sms))" "distinct sss"
  shows "\<exists>sm'. space_map_apply func sss smd = Some sm' \<and> sm_becomes smd (eff (sm_set smd) (sm_set sms)) sm'"
proof -
  let ?xs = "avl_contents (sm_root sms)"
  have ok: "segs_ok ?xs" using assms(1) by (rule space_map_wfD)
  have "segs_set sss = sm_set sms" using assms(5) by (simp add: segs_set_def sm_set_def)
  moreover have "\<forall>s\<in>set sss. seg_ok s \<and> seg_within smd s"
    using assms(3,5) segs_ok_elem [OF ok] space_map_wfD(5) [OF assms(1)]
    by (auto simp: seg_within_def sm_compatible_def)
  moreover have "sorted_wrt (\<lambda>a b. ss_end a \<le> ss_start b \<or> ss_end b \<le> ss_start a) sss"
    using assms(6)
  proof (rule sorted_wrt_distinct)
    show "ss_end a \<le> ss_start b \<or> ss_end b \<le> ss_start a" if "a \<in> set sss" "b \<in> set sss" "a \<noteq> b" for a b
      using segs_ok_apart [OF ok, of a b] that assms(5) by (auto simp: less_imp_le)
  qed
  ultimately show ?thesis using apply_becomes [OF assms(2), of sss] assms(4) by simp
qed

lemma walk_becomes:
  assumes "space_map_wf sms" "space_map_wf smd" "sm_compatible sms smd" "pre (sm_set smd) (sm_set sms)"
  shows "\<exists>sm'. space_map_walk sms func smd = Some sm' \<and> sm_becomes smd (eff (sm_set smd) (sm_set sms)) sm'"
proof -
  have "avl_next_loop (avl_numnodes (sm_root sms)) (sm_root sms) (avl_first (sm_root sms)) =
      Some (avl_contents (sm_root sms))"
    using assms(1) segs_ok_distinct by (intro avl_next_loop_all) (auto dest: space_map_wfD)
  then show ?thesis using walk_segs [OF assms refl segs_ok_distinct [OF space_map_wfD(3) [OF assms(1)]]]
    by (simp add: space_map_walk_def)
qed

lemma vacate_becomes:
  assumes "space_map_wf sms" "space_map_wf smd" "sm_compatible sms smd" "pre (sm_set smd) (sm_set sms)"
  shows "\<exists>sm sm'. space_map_vacate sms (Some func) smd = Some (sm, sm') \<and> sm_becomes sms {} sm \<and>
     sm_becomes smd (eff (sm_set smd) (sm_set sms)) sm'"
proof -
  let ?t = "sm_root sms"
  have sh: "avl_shape ?t" using assms(1) by (rule space_map_wfD)
  let ?sm = "sms\<lparr>sm_root := ?t\<lparr>avl_root := NULL, avl_numnodes := 0\<rparr>, sm_space := 0\<rparr>"
  have loop: "avl_destroy_loop (avl_numnodes ?t + 1) ?t CookieNull =
      Some (postorder (avl_root ?t), ?t\<lparr>avl_root := NULL, avl_numnodes := 0\<rparr>)"
    using sh by (intro destroy_all) (auto simp: avl_shape_def)
  have "space_map_wf ?sm" "avl_contents (sm_root ?sm) = []"
    using assms(1) by (auto simp: space_map_wf_def avl_shape_def sm_set_def segs_set_def)
  then have "sm_becomes sms {} ?sm" by (auto simp: segs_set_def intro!: sm_becomesI)
  moreover have "\<exists>sm'. space_map_apply func (postorder (avl_root ?t)) smd = Some sm' \<and>
      sm_becomes smd (eff (sm_set smd) (sm_set sms)) sm'"
    using segs_ok_distinct [OF space_map_wfD(3) [OF assms(1)]]
    by (intro walk_segs [OF assms]) (auto simp: distinct_card distinct_postorder)
  ultimately show ?thesis using loop by (auto simp: space_map_vacate_def)
qed

end

interpretation add: sm_func "space_map_add zfs_recover" "\<lambda>S A. A \<inter> S = {}" "\<lambda>S A. S \<union> A"
  by unfold_locales (auto elim: add_becomes [where zfs_recover = zfs_recover])

interpretation remove: sm_func "space_map_remove zfs_recover" "\<lambda>S A. A \<subseteq> S" "\<lambda>S A. S - A"
  by unfold_locales (auto elim: remove_becomes [where zfs_recover = zfs_recover])

text \<open>The body of the loop of \<open>space_map_union\<close>.\<close>

abbreviation union_func :: "bool \<Rightarrow> space_map_func" where
  "union_func zfs_recover smd start size' \<equiv>
     (case space_map_excise zfs_recover smd start size' of
        None \<Rightarrow> None
      | Some smd \<Rightarrow> space_map_add zfs_recover smd start size')"

lemma union_func_becomes:
  assumes "space_map_wf sm" "sm_range sm start size'" "sm_start sm \<le> start"
    "start + size' \<le> sm_start sm + sm_size sm"
  shows "\<exists>sm'. union_func zfs_recover sm start size' = Some sm' \<and>
    sm_becomes sm (sm_set sm \<union> {start ..< start + size'}) sm'"
proof -
  obtain sm1 where sm1: "space_map_excise zfs_recover sm start size' = Some sm1"
    "sm_becomes sm (sm_set sm - {start ..< start + size'}) sm1"
    using assms by (elim excise_becomes)
  obtain sm2 where sm2: "space_map_add zfs_recover sm1 start size' = Some sm2"
    "sm_becomes sm1 (sm_set sm1 \<union> {start ..< start + size'}) sm2"
    by (rule add_becomes [of sm1 start size' zfs_recover])
      (use assms sm1(2) in \<open>auto simp: sm_range_def sm_becomes_set sm_becomes_wf\<close>)
  then show ?thesis using sm1 by (auto simp: sm_becomes_set intro: sm_becomes_trans)
qed

interpretation union: sm_func "union_func zfs_recover" "\<lambda>S A. True" "\<lambda>S A. S \<union> A"
  by unfold_locales (auto intro: union_func_becomes)

lemma union_walk: "space_map_union zfs_recover smd sms = space_map_walk sms (union_func zfs_recover) smd"
  by (simp add: space_map_union_def space_map_walk_def)

interpretation excise: sm_func "space_map_excise zfs_recover" "\<lambda>S A. True" "\<lambda>S A. S - A"
  by unfold_locales (auto elim: excise_becomes [where zfs_recover = zfs_recover])

section \<open>Properties of the space maps\<close>

text \<open>A map of 64 blocks of 512 bytes from offset 4096 on, of which [8192, 12288) is in the map.\<close>

definition example_map :: space_map where
  "example_map = (space_map_create 4096 32768 9)
     \<lparr>sm_root := \<lparr>avl_root = Node NULL \<lparr>ss_start = 8192, ss_end = 12288\<rparr> 0 NULL,
                avl_compar = space_map_seg_compare, avl_numnodes = 1\<rparr>,
      sm_space := 4096\<rparr>"

lemma example_map_segs: "avl_contents (sm_root example_map) = [\<lparr>ss_start = 8192, ss_end = 12288\<rparr>]"
  by (simp add: example_map_def)

lemma example_map_set: "sm_set example_map = {8192 ..< 12288}"
  by (simp add: sm_set_def example_map_segs segs_set_def)

lemma example_map_fields [simp]:
  "sm_start example_map = 4096" "sm_size example_map = 32768" "sm_shift example_map = 9"
  by (simp_all add: example_map_def space_map_create_def)

lemma example_map_wf: "space_map_wf example_map"
proof -
  have "card {8192 ..< 12288 :: u64} = 4096" by (simp add: card_word_interval)
  then show ?thesis
    by (simp add: space_map_wf_def example_map_set example_map_segs avl_shape_def seg_ok_def seg_within_def P2PHASE_def)
      (simp add: example_map_def space_map_create_def)
qed

text \<open>C4: space_map_add of a range that is aligned, inside the map and free of the map's offsets
  succeeds, makes the map's set of offsets the union with the range, and keeps the
  invariant: a balanced tree of ordered, non-empty segments with gaps between them, aligned
  and inside the map, with sm_space the number of offsets.\<close>
theorem space_map_add_correct:
  assumes "space_map_wf sm" "sm_range sm start size'" "sm_start sm \<le> start"
    "start + size' \<le> sm_start sm + sm_size sm" "{start ..< start + size'} \<inter> sm_set sm = {}"
  shows "\<exists>sm'. space_map_add zfs_recover sm start size' = Some sm' \<and>
    sm_becomes sm (sm_set sm \<union> {start ..< start + size'}) sm'"
  using add_becomes [OF assms, of zfs_recover] by blast

theorem space_map_add_correct_witness:
  "\<exists>sm'. space_map_add False example_map 12288 2048 = Some sm' \<and>
    sm_becomes example_map (sm_set example_map \<union> {12288 ..< 12288 + 2048}) sm'"
  by (rule space_map_add_correct) (auto simp: example_map_wf example_map_set sm_range_def P2PHASE_def)

text \<open>C8: space_map_remove of an aligned range inside the map's set takes exactly the range
  away (cutting, shortening or deleting one segment) and keeps the invariant.\<close>
theorem space_map_remove_correct:
  assumes "space_map_wf sm" "sm_range sm start size'" "{start ..< start + size'} \<subseteq> sm_set sm"
  shows "\<exists>sm'. space_map_remove zfs_recover sm start size' = Some sm' \<and>
    sm_becomes sm (sm_set sm - {start ..< start + size'}) sm'"
  using remove_becomes [OF assms, of zfs_recover] by blast

theorem space_map_remove_correct_witness:
  "\<exists>sm'. space_map_remove False example_map 8192 2048 = Some sm' \<and>
    sm_becomes example_map (sm_set example_map - {8192 ..< 8192 + 2048}) sm'"
  by (rule space_map_remove_correct) (auto simp: example_map_wf example_map_set sm_range_def P2PHASE_def)

text \<open>C20: space_map_add of a range that meets the map's set never changes the map: it panics,
  or, with zfs_recover and the whole range in the map already, leaves it alone.  No offset
  is added twice.\<close>
theorem space_map_add_overlap:
  assumes "space_map_wf sm" "sm_range sm start size'" "{start ..< start + size'} \<inter> sm_set sm \<noteq> {}"
  shows "space_map_add zfs_recover sm start size' = None \<or>
    zfs_recover \<and> {start ..< start + size'} \<subseteq> sm_set sm \<and> space_map_add zfs_recover sm start size' = Some sm"
proof -
  obtain s where s: "avl_find (sm_root sm) \<lparr>ss_start = start, ss_end = start + size'\<rparr> = Found s"
    using find_range [OF assms(1) sm_range_less [OF assms(2)]] assms(3)
    by (cases "avl_find (sm_root sm) \<lparr>ss_start = start, ss_end = start + size'\<rparr>") auto
  have "s \<in> set (avl_contents (sm_root sm))" using seg.find_Found [OF space_map_wfD(4) [OF assms(1)] s] by simp
  then have "{ss_start s ..< ss_end s} \<subseteq> sm_set sm" by (auto simp: sm_set_def segs_set_def)
  then have "{start ..< start + size'} \<subseteq> sm_set sm" if "ss_start s \<le> start" "start + size' \<le> ss_end s"
    using that by force
  then show ?thesis using s by (simp add: space_map_add_def Let_def)
qed

theorem space_map_add_overlap_witness:
  "space_map_add True example_map 8192 2048 = None \<or>
    True \<and> {8192 ..< 8192 + 2048} \<subseteq> sm_set example_map \<and> space_map_add True example_map 8192 2048 = Some example_map"
  by (rule space_map_add_overlap) (auto simp: example_map_wf example_map_set sm_range_def P2PHASE_def)

text \<open>C27: space_map_contains answers whether the whole range is in the map.\<close>
theorem space_map_contains_correct:
  assumes "space_map_wf sm" "sm_range sm start size'"
  shows "space_map_contains sm start size' = Some ({start ..< start + size'} \<subseteq> sm_set sm)"
  using contains_ok [OF assms] .

theorem space_map_contains_correct_witness:
  "space_map_contains example_map 8192 1024 = Some ({8192 ..< 8192 + 1024} \<subseteq> sm_set example_map)"
  by (rule space_map_contains_correct) (auto simp: example_map_wf sm_range_def P2PHASE_def)

text \<open>C19: space_map_excise ends and takes away from the map whatever it has of the range,
  across any number of segments.\<close>
theorem space_map_excise_correct:
  assumes "space_map_wf sm" "sm_range sm start size'"
  shows "\<exists>sm'. space_map_excise zfs_recover sm start size' = Some sm' \<and>
    sm_becomes sm (sm_set sm - {start ..< start + size'}) sm'"
  using excise_becomes [OF assms, of zfs_recover] by blast

theorem space_map_excise_correct_witness:
  "\<exists>sm'. space_map_excise False example_map 4096 8192 = Some sm' \<and>
    sm_becomes example_map (sm_set example_map - {4096 ..< 4096 + 8192}) sm'"
  by (rule space_map_excise_correct) (auto simp: example_map_wf sm_range_def P2PHASE_def)

text \<open>C28: space_map_union makes the destination the union of two maps of one region,
  overlapping or not.\<close>
theorem space_map_union_correct:
  assumes "space_map_wf smd" "space_map_wf sms" "sm_compatible sms smd"
  shows "\<exists>sm'. space_map_union zfs_recover smd sms = Some sm' \<and> sm_becomes smd (sm_set smd \<union> sm_set sms) sm'"
  using union.walk_becomes [OF assms(2,1,3), of zfs_recover] by (simp add: union_walk)

theorem space_map_union_correct_witness:
  "\<exists>sm'. space_map_union False example_map example_map = Some sm' \<and>
     sm_becomes example_map (sm_set example_map \<union> sm_set example_map) sm'"
  by (rule space_map_union_correct) (auto simp: example_map_wf sm_compatible_def)

text \<open>C29: space_map_vacate with space_map_add moves every segment of a map to a disjoint one:
  the source is empty afterwards and the destination has the union.\<close>
theorem space_map_vacate_add:
  assumes "space_map_wf sms" "space_map_wf smd" "sm_compatible sms smd" "sm_set sms \<inter> sm_set smd = {}"
  shows "\<exists>sm sm'. space_map_vacate sms (Some (space_map_add zfs_recover)) smd = Some (sm, sm') \<and>
    sm_becomes sms {} sm \<and> sm_becomes smd (sm_set smd \<union> sm_set sms) sm'"
  using add.vacate_becomes [OF assms] .

theorem space_map_vacate_add_witness:
  "\<exists>sm sm'. space_map_vacate example_map (Some (space_map_add False)) (space_map_create 4096 32768 9) = Some (sm, sm') \<and>
    sm_becomes example_map {} sm \<and>
    sm_becomes (space_map_create 4096 32768 9) (sm_set (space_map_create 4096 32768 9) \<union> sm_set example_map) sm'"
  using create_wf [of 4096 32768 9]
  by (intro space_map_vacate_add) (auto simp: example_map_wf sm_compatible_def space_map_create_def)

text \<open>C30: space_map_walk with space_map_remove takes a map that lies inside another out of it,
  the sequence by which a metaslab leaves out of its free space what is about to be allocated.\<close>
theorem space_map_walk_remove:
  assumes "space_map_wf sms" "space_map_wf smd" "sm_compatible sms smd" "sm_set sms \<subseteq> sm_set smd"
  shows "\<exists>sm'. space_map_walk sms (space_map_remove zfs_recover) smd = Some sm' \<and>
    sm_becomes smd (sm_set smd - sm_set sms) sm'"
  using remove.walk_becomes [OF assms] .

theorem space_map_walk_remove_witness:
  "\<exists>sm'. space_map_walk example_map (space_map_remove False) example_map = Some sm' \<and>
    sm_becomes example_map (sm_set example_map - sm_set example_map) sm'"
  by (rule space_map_walk_remove) (auto simp: example_map_wf sm_compatible_def)

end
