(* ===== verification/Space_Map_Log.thy ===== *)
theory Space_Map_Log
  imports Space_Map
begin

section \<open>The logs of space maps\<close>

text \<open>
  What \<open>space_map_sync\<close> writes and \<open>space_map_load\<close> reads.  An object is described by
  the set of offsets it holds as allocated: a sync of a map of allocations or of
  frees changes the set accordingly, and a load of the object gives the set, or the
  rest of the map, back.
\<close>

unbundle bit_operations_syntax

lemma take_bit_of_nat_self: "n < 2 ^ k \<Longrightarrow> take_bit k (of_nat n :: 'a::len word) = of_nat n"
  by (metis of_nat_take_bit take_bit_nat_eq_self)

subsection \<open>The entries of the log\<close>

text \<open>The runs that the entries of a range stand for, in units.\<close>

fun seg_runs :: "nat \<Rightarrow> nat \<Rightarrow> (nat \<times> nat) list" where
  "seg_runs start size' =
     (if size' = 0 then [] else
        (start, min size' 32768) # seg_runs (start + min size' 32768) (size' - min size' 32768))"

declare seg_runs.simps [simp del] space_map_sync_runs.simps [simp del]

definition run_entry :: "u8 \<Rightarrow> nat \<times> nat \<Rightarrow> u64" where
  "run_entry maptype r = (SM_OFFSET_ENCODE (of_nat (fst r)) OR SM_TYPE_ENCODE (ucast maptype)) OR
     SM_RUN_ENCODE (of_nat (snd r))"

lemma sync_runs_fold:
  "unat start + unat size' < 2 ^ 64 \<Longrightarrow>
    space_map_sync_runs object bufsize maptype start size' st =
    fold (space_map_sync_entry object bufsize) (map (run_entry maptype) (seg_runs (unat start) (unat size'))) st"
proof (induction object bufsize maptype start size' st rule: space_map_sync_runs.induct)
  case (1 object bufsize maptype start size' st)
  show ?case
  proof (cases "size' = 0")
    case False
    let ?n = "min size' SM_RUN_MAX"
    have n: "unat ?n = min (unat size') 32768"
      by (auto simp: SM_RUN_MAX_eq min_def word_le_nat_alt)
    have add: "unat (start + ?n) = unat start + min (unat size') 32768"
      using "1.prems" by (subst unat_add_bound) (auto simp: n)
    have diff: "unat (size' - ?n) = unat size' - min (unat size') 32768"
      by (subst unat_diff_le) (auto simp: n)
    have w: "(of_nat (min (unat size') 32768) :: u64) = ?n" by (simp flip: n)
    have e: "(SM_OFFSET_ENCODE start OR SM_TYPE_ENCODE (ucast maptype)) OR SM_RUN_ENCODE ?n =
        run_entry maptype (unat start, min (unat size') 32768)"
      by (simp add: run_entry_def w)
    have "unat (start + ?n) + unat (size' - ?n) < 2 ^ 64" using "1.prems" by (simp add: add diff)
    then show ?thesis using "1.IH" [OF False refl refl] False
      by (subst space_map_sync_runs.simps, subst seg_runs.simps)
        (simp add: Let_def add diff e unat_eq_0)
  qed (simp add: seg_runs.simps space_map_sync_runs.simps)
qed

lemma seg_runs_bound:
  "r \<in> set (seg_runs a n) \<Longrightarrow> a \<le> fst r \<and> fst r + snd r \<le> a + n \<and> 0 < snd r \<and> snd r \<le> 32768"
proof (induction a n rule: seg_runs.induct)
  case (1 a n)
  show ?case
  proof (cases "n = 0")
    case False
    then have "r = (a, min n 32768) \<or> r \<in> set (seg_runs (a + min n 32768) (n - min n 32768))"
      using "1.prems" by (subst (asm) seg_runs.simps) auto
    then show ?thesis using "1.IH" [OF False] False by auto
  qed (use "1.prems" in \<open>simp add: seg_runs.simps\<close>)
qed

lemma seg_runs_sorted: "sorted_wrt (\<lambda>r s. fst r + snd r \<le> fst s) (seg_runs a n)"
proof (induction a n rule: seg_runs.induct)
  case (1 a n)
  then show ?case
    by (subst seg_runs.simps) (auto dest: seg_runs_bound)
qed

lemma seg_runs_set: "(\<Union>r\<in>set (seg_runs a n). {fst r ..< fst r + snd r}) = {a ..< a + n}"
proof (induction a n rule: seg_runs.induct)
  case (1 a n)
  show ?case
  proof (cases "n = 0")
    case False
    then have "(\<Union>r\<in>set (seg_runs a n). {fst r ..< fst r + snd r}) =
        {a ..< a + min n 32768} \<union> {a + min n 32768 ..< a + min n 32768 + (n - min n 32768)}"
      using "1.IH" [OF False] by (subst seg_runs.simps) simp
    also have "\<dots> = {a ..< a + n}" by auto
    finally show ?thesis .
  qed (simp add: seg_runs.simps)
qed

lemma run_entry_decode:
  assumes "fst r < 2 ^ 47" "0 < snd r" "snd r \<le> 32768"
  shows "SM_OFFSET_DECODE (run_entry ty r) = of_nat (fst r)" "SM_RUN_DECODE (run_entry ty r) = of_nat (snd r)"
    "SM_DEBUG_DECODE (run_entry ty r) = 0" "SM_TYPE_DECODE (run_entry ty r) = take_bit 1 (ucast ty)"
proof -
  note defs = run_entry_def SM_OFFSET_DECODE_def SM_OFFSET_ENCODE_def SM_RUN_DECODE_def SM_RUN_ENCODE_def
    SM_DEBUG_DECODE_def SM_TYPE_DECODE_def SM_TYPE_ENCODE_def BF64_DECODE_OR
  note dec = BF64_DECODE_ENCODE BF64_DECODE_ENCODE_other
  have "take_bit 47 (of_nat (fst r) :: u64) = of_nat (fst r)"
    using assms(1) by (rule take_bit_of_nat_self)
  then show "SM_OFFSET_DECODE (run_entry ty r) = of_nat (fst r)" by (simp add: defs dec)
  have "take_bit 15 (of_nat (snd r - 1) :: u64) = of_nat (snd r - 1)"
    using assms(2,3) by (intro take_bit_of_nat_self) simp
  then have "take_bit 15 (of_nat (snd r) - 1 :: u64) = of_nat (snd r) - 1"
    using assms(2) by (simp add: of_nat_diff)
  then show "SM_RUN_DECODE (run_entry ty r) = of_nat (snd r)" by (simp add: defs dec)
  show "SM_DEBUG_DECODE (run_entry ty r) = 0" "SM_TYPE_DECODE (run_entry ty r) = take_bit 1 (ucast ty)"
    by (simp_all add: defs dec)
qed

text \<open>The segment that an entry describes, and that of a run.\<close>

definition entry_seg :: "space_map \<Rightarrow> u64 \<Rightarrow> space_seg" where
  "entry_seg sm e =
     (let start = push_bit (unat (sm_shift sm)) (SM_OFFSET_DECODE e) + sm_start sm
      in \<lparr>ss_start = start, ss_end = start + push_bit (unat (sm_shift sm)) (SM_RUN_DECODE e)\<rparr>)"

lemma unat_push_bit_of_nat:
  "a * 2 ^ k < 2 ^ 64 \<Longrightarrow> unat (push_bit k (of_nat a :: u64)) = a * 2 ^ k"
  by (subst push_bit_of_nat) (simp add: unat_of_nat, simp add: push_bit_eq_mult)

lemma entry_seg_run:
  assumes r: "fst r < 2 ^ 47" "0 < snd r" "snd r \<le> 32768"
    and fits: "unat (sm_start sm) + (fst r + snd r) * 2 ^ unat (sm_shift sm) < 2 ^ 64"
  shows "unat (ss_start (entry_seg sm (run_entry ty r))) = unat (sm_start sm) + fst r * 2 ^ unat (sm_shift sm)"
    "unat (ss_end (entry_seg sm (run_entry ty r))) =
       unat (sm_start sm) + (fst r + snd r) * 2 ^ unat (sm_shift sm)"
proof -
  let ?k = "unat (sm_shift sm)"
  have a: "unat (push_bit ?k (of_nat (fst r) :: u64)) = fst r * 2 ^ ?k"
    and b: "unat (push_bit ?k (of_nat (snd r) :: u64)) = snd r * 2 ^ ?k"
    using fits by (intro unat_push_bit_of_nat; simp add: distrib_right)+
  have c: "unat (push_bit ?k (of_nat (fst r)) + sm_start sm) = unat (sm_start sm) + fst r * 2 ^ ?k"
    using fits by (subst unat_add_bound) (simp_all add: a distrib_right)
  show "unat (ss_start (entry_seg sm (run_entry ty r))) = unat (sm_start sm) + fst r * 2 ^ ?k"
    by (simp add: entry_seg_def Let_def run_entry_decode [OF r] c)
  show "unat (ss_end (entry_seg sm (run_entry ty r))) = unat (sm_start sm) + (fst r + snd r) * 2 ^ ?k"
    using fits unfolding entry_seg_def Let_def run_entry_decode [OF r] space_seg.simps
    by (subst unat_add_bound) (simp_all only: a b c, simp_all add: distrib_right)
qed

text \<open>The entries that describe a segment, and the space maps that a log can describe: in
  units from the start of the map, offsets have 47 bits.\<close>

definition seg_entries :: "space_map \<Rightarrow> u8 \<Rightarrow> space_seg \<Rightarrow> u64 list" where
  "seg_entries sm ty s = map (run_entry ty)
     (seg_runs (unat (drop_bit (unat (sm_shift sm)) (ss_start s - sm_start sm)))
        (unat (drop_bit (unat (sm_shift sm)) (ss_end s - ss_start s))))"

definition sm_loggable :: "space_map \<Rightarrow> bool" where
  "sm_loggable sm \<longleftrightarrow> unat (sm_shift sm) < 64 \<and> sm_aligned sm (sm_start sm) \<and>
     unat (sm_start sm) + unat (sm_size sm) < 2 ^ 64 \<and> unat (sm_size sm) < 2 ^ (47 + unat (sm_shift sm))"

lemma sm_loggable_aligned:
  "sm_loggable sm \<Longrightarrow> sm_aligned sm x \<longleftrightarrow> 2 ^ unat (sm_shift sm) dvd unat x"
  using aligned_iff_dvd [of "unat (sm_shift sm)" x] by (simp add: sm_loggable_def)

lemma unat_drop_bit_div: "unat (drop_bit k (x :: u64)) = unat x div 2 ^ k"
  by (subst unat_drop_bit_eq, rule drop_bit_eq_div)

lemma seg_units:
  assumes log: "sm_loggable sm" and within: "seg_within sm s" and ok: "seg_ok s"
  obtains a n where
    "unat (drop_bit (unat (sm_shift sm)) (ss_start s - sm_start sm)) = a"
    "unat (drop_bit (unat (sm_shift sm)) (ss_end s - ss_start s)) = n"
    "unat (ss_start s) = unat (sm_start sm) + a * 2 ^ unat (sm_shift sm)"
    "unat (ss_end s) = unat (sm_start sm) + (a + n) * 2 ^ unat (sm_shift sm)"
    "a + n < 2 ^ 47"
proof -
  let ?k = "unat (sm_shift sm)"
  have le: "sm_start sm \<le> ss_start s" "ss_start s \<le> ss_end s" "ss_end s \<le> sm_start sm + sm_size sm"
    using within ok by (auto simp: seg_within_def seg_ok_def)
  have "sm_aligned sm (ss_start s - sm_start sm)" "sm_aligned sm (ss_end s - ss_start s)"
    using log within le by (auto simp: seg_within_def sm_loggable_def aligned_diff)
  then have dvd: "2 ^ ?k dvd unat (ss_start s - sm_start sm)" "2 ^ ?k dvd unat (ss_end s - ss_start s)"
    using sm_loggable_aligned [OF log] by blast+
  let ?a = "unat (ss_start s - sm_start sm) div 2 ^ ?k" and ?n = "unat (ss_end s - ss_start s) div 2 ^ ?k"
  have a: "?a * 2 ^ ?k = unat (ss_start s) - unat (sm_start sm)"
    and n: "?n * 2 ^ ?k = unat (ss_end s) - unat (ss_start s)"
    using dvd le by (simp_all add: unat_diff_le)
  have mono: "unat (sm_start sm) \<le> unat (ss_start s)" "unat (ss_start s) \<le> unat (ss_end s)"
    "unat (ss_end s) \<le> unat (sm_start sm) + unat (sm_size sm)"
    using le log by (auto simp: word_le_nat_alt sm_loggable_def unat_add_bound)
  have "(?a + ?n) * 2 ^ ?k \<le> unat (sm_size sm)" using a n mono by (simp add: distrib_right)
  also have "\<dots> < 2 ^ 47 * 2 ^ ?k" using log by (simp add: sm_loggable_def power_add)
  finally have "?a + ?n < 2 ^ 47" by simp
  then show ?thesis
    using that [of ?a ?n] a n mono unat_drop_bit_div by (simp add: distrib_right)
qed

lemma units_div:
  fixes S X f g p :: nat assumes "0 < p"
  shows "S + f * p \<le> X \<and> X < S + (f + g) * p \<longleftrightarrow> S \<le> X \<and> (X - S) div p \<in> {f ..< f + g}"
proof (cases "S \<le> X")
  case True
  have "S + f * p \<le> X \<longleftrightarrow> f \<le> (X - S) div p"
    using True assms by (simp add: less_eq_div_iff_mult_less_eq le_diff_conv2 add.commute)
  moreover have "X < S + (f + g) * p \<longleftrightarrow> (X - S) div p < f + g"
    using True assms by (auto simp: div_less_iff_less_mult)
  ultimately show ?thesis using True by simp
qed auto

lemma seg_entries_segs:
  assumes log: "sm_loggable sm" and within: "seg_within sm s" and ok: "seg_ok s"
  shows "\<forall>y\<in>set (map (entry_seg sm) (seg_entries sm ty s)). seg_ok y \<and> seg_within sm y \<and>
      ss_start s \<le> ss_start y \<and> ss_end y \<le> ss_end s"
    "sorted_wrt (\<lambda>a b. ss_end a \<le> ss_start b) (map (entry_seg sm) (seg_entries sm ty s))"
    "segs_set (map (entry_seg sm) (seg_entries sm ty s)) = {ss_start s ..< ss_end s}"
    "\<forall>e\<in>set (seg_entries sm ty s). SM_DEBUG_DECODE e = 0 \<and> SM_TYPE_DECODE e = take_bit 1 (ucast ty)"
proof -
  let ?k = "unat (sm_shift sm)" and ?S = "unat (sm_start sm)"
  obtain a n where an: "unat (drop_bit ?k (ss_start s - sm_start sm)) = a"
    "unat (drop_bit ?k (ss_end s - ss_start s)) = n"
    "unat (ss_start s) = ?S + a * 2 ^ ?k" "unat (ss_end s) = ?S + (a + n) * 2 ^ ?k" "a + n < 2 ^ 47"
    by (rule seg_units [OF assms])
  have entries: "seg_entries sm ty s = map (run_entry ty) (seg_runs a n)" by (simp add: seg_entries_def an)
  have run: "fst r < 2 ^ 47" "0 < snd r" "snd r \<le> 32768"
    "?S + (fst r + snd r) * 2 ^ ?k < 2 ^ 64" "a \<le> fst r" "fst r + snd r \<le> a + n"
    if "r \<in> set (seg_runs a n)" for r
  proof -
    have b: "a \<le> fst r" "fst r + snd r \<le> a + n" "0 < snd r" "snd r \<le> 32768"
      using seg_runs_bound [OF that] by auto
    then have "?S + (fst r + snd r) * 2 ^ ?k \<le> unat (ss_end s)" using an(4) by simp
    also have "\<dots> < 2 ^ 64" using unsigned_less [of "ss_end s"] by simp
    finally show "?S + (fst r + snd r) * 2 ^ ?k < 2 ^ 64" .
    show "fst r < 2 ^ 47" using b an(5) by linarith
  qed (use seg_runs_bound [OF that] in auto)
  note seg = entry_seg_run [OF run(1-4)]
  have within_r: "seg_ok y \<and> seg_within sm y \<and> ss_start s \<le> ss_start y \<and> ss_end y \<le> ss_end s"
    if r: "r \<in> set (seg_runs a n)" and y: "y = entry_seg sm (run_entry ty r)" for r y
  proof -
    have "ss_start s \<le> ss_start y" "ss_end y \<le> ss_end s"
      using seg [OF r r r r] an run(5,6) [OF r] by (simp_all add: y word_le_nat_alt)
    moreover have "sm_aligned sm (ss_start y)" "sm_aligned sm (ss_end y)"
    proof -
      have "2 ^ ?k dvd ?S" using log by (simp add: sm_loggable_aligned [OF log, symmetric] sm_loggable_def)
      then show "sm_aligned sm (ss_start y)" "sm_aligned sm (ss_end y)"
        unfolding sm_loggable_aligned [OF log] using seg [OF r r r r] by (simp_all add: y)
    qed
    moreover have "ss_start y < ss_end y"
      using seg [OF r r r r] run(2) [OF r] by (simp add: y word_less_nat_alt)
    ultimately show ?thesis using within by (auto simp: seg_ok_def seg_within_def)
  qed
  then show "\<forall>y\<in>set (map (entry_seg sm) (seg_entries sm ty s)). seg_ok y \<and> seg_within sm y \<and>
      ss_start s \<le> ss_start y \<and> ss_end y \<le> ss_end s"
    unfolding entries by auto
  show "sorted_wrt (\<lambda>a b. ss_end a \<le> ss_start b) (map (entry_seg sm) (seg_entries sm ty s))"
    unfolding entries map_map sorted_wrt_map
    by (rule sorted_wrt_mono_rel [OF _ seg_runs_sorted])
      (simp add: word_le_nat_alt seg)
  show "\<forall>e\<in>set (seg_entries sm ty s). SM_DEBUG_DECODE e = 0 \<and> SM_TYPE_DECODE e = take_bit 1 (ucast ty)"
    unfolding entries using run_entry_decode(3,4) [OF run(1-3)] by simp
  have "x \<in> segs_set (map (entry_seg sm) (seg_entries sm ty s)) \<longleftrightarrow> x \<in> {ss_start s ..< ss_end s}" for x
  proof -
    have "x \<in> segs_set (map (entry_seg sm) (seg_entries sm ty s)) \<longleftrightarrow>
        (\<exists>r\<in>set (seg_runs a n). ?S + fst r * 2 ^ ?k \<le> unat x \<and> unat x < ?S + (fst r + snd r) * 2 ^ ?k)"
      unfolding entries by (simp add: segs_set_def word_le_nat_alt word_less_nat_alt seg)
    also have "\<dots> \<longleftrightarrow> ?S \<le> unat x \<and> (unat x - ?S) div 2 ^ ?k \<in> (\<Union>r\<in>set (seg_runs a n). {fst r ..< fst r + snd r})"
      by (subst units_div) auto
    also have "\<dots> \<longleftrightarrow> ?S + a * 2 ^ ?k \<le> unat x \<and> unat x < ?S + (a + n) * 2 ^ ?k"
      unfolding seg_runs_set by (subst units_div) auto
    finally show ?thesis by (simp add: word_le_nat_alt word_less_nat_alt an)
  qed
  then show "segs_set (map (entry_seg sm) (seg_entries sm ty s)) = {ss_start s ..< ss_end s}" by blast
qed

subsection \<open>Replaying a log\<close>

lemma add_shift: "space_map_add zfs_recover sm start size' = Some sm' \<Longrightarrow> sm_shift sm' = sm_shift sm \<and> sm_start sm' = sm_start sm"
  by (auto simp: space_map_add_def Let_def split: if_splits avl_search.splits)

lemma remove_shift: "space_map_remove zfs_recover sm start size' = Some sm' \<Longrightarrow> sm_shift sm' = sm_shift sm \<and> sm_start sm' = sm_start sm"
  by (auto simp: space_map_remove_def Let_def split: if_splits avl_search.splits)

lemma load_entries_append:
  "space_map_load_entries zfs_recover maptype mapstart (es @ fs) sm =
    (case space_map_load_entries zfs_recover maptype mapstart es sm of
       None \<Rightarrow> None | Some sm \<Rightarrow> space_map_load_entries zfs_recover maptype mapstart fs sm)"
  by (induction es arbitrary: sm) (auto split: option.splits)

text \<open>Entries of one type are a walk over the segments they describe.\<close>

lemma load_entries_apply:
  assumes "\<forall>e\<in>set es. SM_DEBUG_DECODE e = 0 \<and> SM_TYPE_DECODE e = ty"
    "sm_shift sm = sm_shift sm0" "sm_start sm = sm_start sm0"
  shows "space_map_load_entries zfs_recover maptype (sm_start sm0) es sm =
    space_map_apply ((if ty = ucast maptype then space_map_add else space_map_remove) zfs_recover)
      (map (entry_seg sm0) es) sm"
  using assms
proof (induction es arbitrary: sm)
  case (Cons e es)
  have step: "sm_shift sm' = sm_shift sm0" "sm_start sm' = sm_start sm0"
    if "(if ty = ucast maptype then space_map_add else space_map_remove) zfs_recover sm a b = Some sm'" for sm' a b
    using that Cons.prems(2,3) by (auto dest: add_shift remove_shift split: if_splits)
  show ?case using Cons step by (simp add: entry_seg_def Let_def split: option.split)
qed simp

text \<open>The entries of all the segments that \<open>space_map_sync\<close> visits.\<close>

definition segs_entries :: "space_map \<Rightarrow> u8 \<Rightarrow> space_seg list \<Rightarrow> u64 list" where
  "segs_entries sm ty sss = concat (map (seg_entries sm ty) sss)"

lemma segs_entries_segs:
  assumes log: "sm_loggable sm" and sss: "\<forall>s\<in>set sss. seg_ok s \<and> seg_within sm s"
    and apart: "sorted_wrt (\<lambda>a b. ss_end a \<le> ss_start b \<or> ss_end b \<le> ss_start a) sss"
  shows "\<forall>y\<in>set (map (entry_seg sm) (segs_entries sm ty sss)). seg_ok y \<and> seg_within sm y"
    "segs_set (map (entry_seg sm) (segs_entries sm ty sss)) = segs_set sss"
    "\<forall>e\<in>set (segs_entries sm ty sss). SM_DEBUG_DECODE e = 0 \<and> SM_TYPE_DECODE e = take_bit 1 (ucast ty)"
    "sorted_wrt (\<lambda>a b. ss_end a \<le> ss_start b \<or> ss_end b \<le> ss_start a)
       (map (entry_seg sm) (segs_entries sm ty sss))"
proof -
  note seg = seg_entries_segs [OF log, of _ ty]
  show "\<forall>y\<in>set (map (entry_seg sm) (segs_entries sm ty sss)). seg_ok y \<and> seg_within sm y"
    using sss seg(1) by (fastforce simp: segs_entries_def)
  show "\<forall>e\<in>set (segs_entries sm ty sss). SM_DEBUG_DECODE e = 0 \<and> SM_TYPE_DECODE e = take_bit 1 (ucast ty)"
    using sss seg(4) by (fastforce simp: segs_entries_def)
  have "segs_set (map (entry_seg sm) (segs_entries sm ty sss)) =
      (\<Union>s\<in>set sss. segs_set (map (entry_seg sm) (seg_entries sm ty s)))"
    by (auto simp: segs_set_def segs_entries_def)
  also have "\<dots> = segs_set sss" using sss seg(3) by (simp add: segs_set_def)
  finally show "segs_set (map (entry_seg sm) (segs_entries sm ty sss)) = segs_set sss" .
  show "sorted_wrt (\<lambda>a b. ss_end a \<le> ss_start b \<or> ss_end b \<le> ss_start a)
       (map (entry_seg sm) (segs_entries sm ty sss))"
    using sss apart
  proof (induction sss)
    case (Cons s sss)
    have s: "seg_within sm s" "seg_ok s" using Cons.prems by auto
    let ?ys = "map (entry_seg sm) (seg_entries sm ty s)"
    have 1: "sorted_wrt (\<lambda>a b. ss_end a \<le> ss_start b \<or> ss_end b \<le> ss_start a) ?ys"
      by (rule sorted_wrt_mono_rel [OF _ seg(2) [OF s]]) simp
    have 2: "ss_end y \<le> ss_start z \<or> ss_end z \<le> ss_start y"
      if y: "y \<in> set ?ys" and t: "t \<in> set sss" and z: "z \<in> set (map (entry_seg sm) (seg_entries sm ty t))" for y z t
    proof -
      have "ss_start s \<le> ss_start y" "ss_end y \<le> ss_end s" using seg(1) [OF s] y by blast+
      moreover have "ss_start t \<le> ss_start z" "ss_end z \<le> ss_end t"
        using seg(1) [of t] t z Cons.prems(1) by (meson list.set_intros(2))+
      moreover have "ss_end s \<le> ss_start t \<or> ss_end t \<le> ss_start s" using Cons.prems(2) t by simp
      ultimately show ?thesis by (elim disjE) (meson order.trans)+
    qed
    show ?case unfolding segs_entries_def list.map concat.simps map_append sorted_wrt_append
    proof (intro conjI ballI)
      show "sorted_wrt (\<lambda>a b. ss_end a \<le> ss_start b \<or> ss_end b \<le> ss_start a)
          (map (entry_seg sm) (concat (map (seg_entries sm ty) sss)))"
        using Cons by (simp add: segs_entries_def)
      show "ss_end y \<le> ss_start z \<or> ss_end z \<le> ss_start y"
        if y: "y \<in> set ?ys" and z: "z \<in> set (map (entry_seg sm) (concat (map (seg_entries sm ty) sss)))" for y z
        using 2 [OF y] z by auto
    qed (rule 1)
  qed (simp add: segs_entries_def)
qed

lemma take_bit_type: "ty \<in> {SM_ALLOC, SM_FREE} \<Longrightarrow> take_bit 1 (ucast ty :: u64) = ucast ty"
  by (auto simp: SM_ALLOC_def SM_FREE_def)

lemma replay_segs:
  assumes wf: "space_map_wf sms" "space_map_wf sm0" and compat: "sm_compatible sms sm0" and log: "sm_loggable sms"
    and sss: "set sss = set (avl_contents (sm_root sms))" "distinct sss"
    and ty: "ty \<in> {SM_ALLOC, SM_FREE}"
  shows "maptype = ty \<Longrightarrow> sm_set sms \<inter> sm_set sm0 = {} \<Longrightarrow>
      \<exists>sm'. space_map_load_entries zfs_recover maptype (sm_start sm0) (segs_entries sms ty sss) sm0 = Some sm' \<and>
        sm_becomes sm0 (sm_set sm0 \<union> sm_set sms) sm'"
    and "maptype \<noteq> ty \<Longrightarrow> maptype \<in> {SM_ALLOC, SM_FREE} \<Longrightarrow> sm_set sms \<subseteq> sm_set sm0 \<Longrightarrow>
      \<exists>sm'. space_map_load_entries zfs_recover maptype (sm_start sm0) (segs_entries sms ty sss) sm0 = Some sm' \<and>
        sm_becomes sm0 (sm_set sm0 - sm_set sms) sm'"
proof -
  have ok: "segs_ok (avl_contents (sm_root sms))" using wf(1) by (rule space_map_wfD)
  have s: "\<forall>s\<in>set sss. seg_ok s \<and> seg_within sms s"
    using sss(1) segs_ok_elem [OF ok] space_map_wfD(5) [OF wf(1)] by auto
  have apart: "sorted_wrt (\<lambda>a b. ss_end a \<le> ss_start b \<or> ss_end b \<le> ss_start a) sss"
    using sss(2)
  proof (rule sorted_wrt_distinct)
    show "ss_end a \<le> ss_start b \<or> ss_end b \<le> ss_start a" if "a \<in> set sss" "b \<in> set sss" "a \<noteq> b" for a b
      using segs_ok_apart [OF ok, of a b] that sss(1) by (auto simp: less_imp_le)
  qed
  have set: "segs_set sss = sm_set sms" using sss(1) by (simp add: segs_set_def sm_set_def)
  note e = segs_entries_segs [OF log s apart, of ty]
  have eq: "entry_seg sms = entry_seg sm0"
    using compat by (simp add: entry_seg_def sm_compatible_def fun_eq_iff)
  have within: "\<forall>y\<in>set (map (entry_seg sm0) (segs_entries sms ty sss)). seg_ok y \<and> seg_within sm0 y"
    using e(1) compat by (auto simp: eq seg_within_def sm_compatible_def)
  note load = load_entries_apply [OF e(3), of sm0 sm0, OF refl refl, unfolded take_bit_type [OF ty]]
  have ne: "(ucast ty :: u64) \<noteq> ucast maptype" if "maptype \<noteq> ty" "maptype \<in> {SM_ALLOC, SM_FREE}"
    using that ty by (auto simp: SM_ALLOC_def SM_FREE_def)
  show "\<exists>sm'. space_map_load_entries zfs_recover maptype (sm_start sm0) (segs_entries sms ty sss) sm0 = Some sm' \<and>
        sm_becomes sm0 (sm_set sm0 \<union> sm_set sms) sm'" if "maptype = ty" "sm_set sms \<inter> sm_set sm0 = {}"
    using add.apply_becomes [OF wf(2) within e(4) [unfolded eq], of zfs_recover] that
    by (simp add: load e(2) [unfolded eq] set)
  show "\<exists>sm'. space_map_load_entries zfs_recover maptype (sm_start sm0) (segs_entries sms ty sss) sm0 = Some sm' \<and>
        sm_becomes sm0 (sm_set sm0 - sm_set sms) sm'"
    if "maptype \<noteq> ty" "maptype \<in> {SM_ALLOC, SM_FREE}" "sm_set sms \<subseteq> sm_set sm0"
    using remove.apply_becomes [OF wf(2) within e(4) [unfolded eq], of zfs_recover] that(3) ne [OF that(1,2)]
    by (simp add: load e(2) [unfolded eq] set)
qed

subsection \<open>Writing a log\<close>

lemma dmu_write_append:
  assumes "unat off' = unat off + 8 * length xs"
  shows "dmu_write (dmu_write os object off xs) object off' ys = dmu_write os object off (xs @ ys)"
  using assms by (auto simp: dmu_write_def fun_eq_iff nth_append add.commute)

lemma dmu_write_Nil: "dmu_write os object off [] = os"
  by (auto simp: dmu_write_def fun_eq_iff)

text \<open>While the loops run, a part of the entries is in the object and the rest in the buffer.\<close>

definition sync_inv :: "objset \<Rightarrow> u64 \<Rightarrow> u64 \<Rightarrow> nat \<Rightarrow> u64 list \<Rightarrow> sync_state \<Rightarrow> bool" where
  "sync_inv os object objsize bw es st \<longleftrightarrow>
     (\<exists>k. length es = k + length (entry_map st) \<and> entry_map st = drop k es \<and> length (entry_map st) \<le> bw \<and>
       entry_map st \<noteq> [] \<and>
       unat (sync_objsize st) = unat objsize + 8 * k \<and> sync_os st = dmu_write os object objsize (take k es))"

lemma sync_entry_inv:
  assumes inv: "sync_inv os object objsize (unat (bufsize div 8)) es st"
    and buf: "unat bufsize = 8 * unat (bufsize div 8)" "0 < unat (bufsize div 8)"
    and bound: "unat objsize + 8 * length es < 2 ^ 64"
  shows "sync_inv os object objsize (unat (bufsize div 8)) (es @ [e]) (space_map_sync_entry object bufsize e st)"
proof -
  obtain k where k: "length es = k + length (entry_map st)" "entry_map st = drop k es"
    "length (entry_map st) \<le> unat (bufsize div 8)" "entry_map st \<noteq> []"
    "unat (sync_objsize st) = unat objsize + 8 * k" "sync_os st = dmu_write os object objsize (take k es)"
    using inv unfolding sync_inv_def by blast
  show ?thesis
  proof (cases "length (entry_map st) = unat (bufsize div 8)")
    case True
    have "unat (sync_objsize st + bufsize) = unat objsize + 8 * length es"
      using bound k(1,5) buf(1) True by (subst unat_add_bound) auto
    moreover have "dmu_write (sync_os st) object (sync_objsize st) (entry_map st) = dmu_write os object objsize es"
      using k by (simp add: dmu_write_append)
    ultimately show ?thesis unfolding sync_inv_def space_map_sync_entry_def
      using True buf(2) by (intro exI [of _ "length es"]) (simp add: Let_def)
  next
    case False
    have "k \<le> length es" using k(1) by simp
    with False show ?thesis unfolding sync_inv_def space_map_sync_entry_def
      using k(2,3,5,6) by (intro exI [of _ k]) (simp add: Let_def)
  qed
qed

lemma sync_entries_inv:
  assumes "sync_inv os object objsize (unat (bufsize div 8)) es st"
    and "unat bufsize = 8 * unat (bufsize div 8)" "0 < unat (bufsize div 8)"
    and "unat objsize + 8 * (length es + length fs) < 2 ^ 64"
  shows "sync_inv os object objsize (unat (bufsize div 8)) (es @ fs) (fold (space_map_sync_entry object bufsize) fs st)"
  using assms
proof (induction fs arbitrary: es st)
  case (Cons f fs)
  have "sync_inv os object objsize (unat (bufsize div 8)) (es @ [f]) (space_map_sync_entry object bufsize f st)"
    using Cons.prems by (intro sync_entry_inv) auto
  then show ?case using Cons.IH [of "es @ [f]"] Cons.prems by simp
qed simp

lemma sync_segs_fold:
  assumes "sm_loggable sm0" "\<forall>s\<in>set sss. seg_ok s \<and> seg_within sm0 s" "sm_shift sm = sm_shift sm0" "sm_start sm = sm_start sm0"
  shows "space_map_sync_segs object bufsize ty sss sm st =
     (sm\<lparr>sm_space := sm_space sm - sum_list (map (\<lambda>s. ss_end s - ss_start s) sss)\<rparr>,
      fold (space_map_sync_entry object bufsize) (segs_entries sm0 ty sss) st)"
  using assms(2-)
proof (induction sss arbitrary: sm st)
  case (Cons s sss)
  obtain a n where an: "unat (drop_bit (unat (sm_shift sm0)) (ss_start s - sm_start sm0)) = a"
      "unat (drop_bit (unat (sm_shift sm0)) (ss_end s - ss_start s)) = n" "a + n < 2 ^ 47"
    using Cons.prems(1) by (auto elim: seg_units [OF assms(1), of s])
  have "space_map_sync_runs object bufsize ty (drop_bit (unat (sm_shift sm0)) (ss_start s - sm_start sm0))
      (drop_bit (unat (sm_shift sm0)) (ss_end s - ss_start s)) st =
      fold (space_map_sync_entry object bufsize) (seg_entries sm0 ty s) st"
    using an by (subst sync_runs_fold) (auto simp: seg_entries_def)
  then show ?case using Cons.IH Cons.prems
    by (simp add: Let_def segs_entries_def algebra_simps)
qed (simp add: segs_entries_def)

lemma segs_sum:
  "segs_ok xs \<Longrightarrow> of_nat (card (segs_set xs)) = sum_list (map (\<lambda>s. ss_end s - ss_start s) xs)"
proof (induction xs)
  case (Cons s xs)
  have "{ss_start s ..< ss_end s} \<inter> segs_set xs = {}" using Cons.prems by (force simp: segs_set_def seg_ok_def)
  moreover have "segs_set (s # xs) = {ss_start s ..< ss_end s} \<union> segs_set xs" by (auto simp: segs_set_def)
  ultimately have "card (segs_set (s # xs)) = card {ss_start s ..< ss_end s} + card (segs_set xs)"
    by (simp add: card_Un_disjoint)
  moreover have "card {ss_start s ..< ss_end s} = unat (ss_end s - ss_start s)"
    using Cons.prems by (simp add: seg_ok_def unat_diff_le less_imp_le card_word_interval)
  ultimately show ?case using Cons by simp
qed (simp add: segs_set_def)

lemma sum_postorder: "sum_list (map f (postorder t)) = sum_list (map f (inorder t))" for f :: "'a \<Rightarrow> u64"
  by (induction t) (simp_all add: algebra_simps)

text \<open>What \<open>space_map_sync\<close> appends: an entry for the debugger and the entries of the segments.\<close>

definition debug_entry :: "u64 \<Rightarrow> u64 \<Rightarrow> u8 \<Rightarrow> u64" where
  "debug_entry pass txg ty = ((SM_DEBUG_ENCODE 1 OR SM_DEBUG_ACTION_ENCODE (ucast ty)) OR
     SM_DEBUG_SYNCPASS_ENCODE pass) OR SM_DEBUG_TXG_ENCODE txg"

definition sync_log :: "u64 \<Rightarrow> u64 \<Rightarrow> space_map \<Rightarrow> u8 \<Rightarrow> u64 list" where
  "sync_log pass txg sm ty = debug_entry pass txg ty # segs_entries sm ty (postorder (avl_root (sm_root sm)))"

lemma debug_entry_decode: "SM_DEBUG_DECODE (debug_entry pass txg ty) \<noteq> 0"
  by (simp add: debug_entry_def SM_DEBUG_DECODE_def SM_DEBUG_ENCODE_def SM_DEBUG_ACTION_ENCODE_def
      SM_DEBUG_SYNCPASS_ENCODE_def SM_DEBUG_TXG_ENCODE_def BF64_DECODE_OR BF64_DECODE_ENCODE BF64_DECODE_ENCODE_other)

lemma sync_ok:
  assumes wf: "space_map_wf sm" and log: "sm_loggable sm" and ne: "sm_set sm \<noteq> {}"
    and bound: "unat (smo_objsize smo) + 8 * length (sync_log pass txg sm ty) < 2 ^ 64"
    and nodes: "avl_numnodes (sm_root sm) < 2 ^ 60"
  shows "\<exists>sm' objsize. space_map_sync pass txg sm ty smo os =
      Some (sm', smo\<lparr>smo_alloc := (if ty = SM_ALLOC then smo_alloc smo + sm_space sm else smo_alloc smo - sm_space sm),
                     smo_objsize := objsize\<rparr>,
            dmu_write os (smo_object smo) (smo_objsize smo) (sync_log pass txg sm ty)) \<and>
    unat objsize = unat (smo_objsize smo) + 8 * length (sync_log pass txg sm ty) \<and> sm_becomes sm {} sm'"
proof -
  let ?t = "sm_root sm" and ?n = "avl_numnodes (sm_root sm)"
  let ?root = "?t\<lparr>avl_root := NULL, avl_numnodes := 0\<rparr>" and ?sss = "postorder (avl_root (sm_root sm))"
  have sh: "avl_shape ?t" and ok: "segs_ok (avl_contents ?t)" using wf by (auto dest: space_map_wfD)
  have space: "sm_space sm \<noteq> 0" using space_map_wfD(7) [OF wf] ne by (auto simp: unat_eq_0)
  have loop: "avl_destroy_loop (?n + 1) ?t CookieNull = Some (?sss, ?root)"
    using sh by (intro destroy_all) (auto simp: avl_shape_def)
  have sss: "\<forall>s\<in>set ?sss. seg_ok s \<and> seg_within sm s"
    using segs_ok_elem [OF ok] space_map_wfD(5) [OF wf] by (auto simp: set_postorder)
  have "sum_list (map (\<lambda>s. ss_end s - ss_start s) ?sss) = of_nat (card (sm_set sm))"
    using segs_sum [OF ok] by (simp add: sum_postorder sm_set_def)
  then have sum: "sum_list (map (\<lambda>s. ss_end s - ss_start s) ?sss) = sm_space sm"
    by (simp flip: space_map_wfD(7) [OF wf])
  define bufsize :: u64 where "bufsize = min ((8 + of_nat ?n) * 8) (bit64 SPACE_MAP_BLOCKSHIFT)"
  have "unat ((8 + of_nat ?n) * 8 :: u64) = 8 * (8 + ?n)"
  proof -
    have "((8 + of_nat ?n) * 8 :: u64) = of_nat (8 * (8 + ?n))" by simp
    then show ?thesis using nodes by (simp only: unat_of_nat) simp
  qed
  then have buf: "unat bufsize = 8 * min (8 + ?n) 512"
    by (auto simp: bufsize_def SPACE_MAP_BLOCKSHIFT_def min_def word_le_nat_alt)
  then have bw: "unat (bufsize div 8) = min (8 + ?n) 512" by (simp add: unat_div)
  define st where "st = fold (space_map_sync_entry (smo_object smo) bufsize) (segs_entries sm ty ?sss)
    \<lparr>entry_map = [debug_entry pass txg ty], sync_objsize = smo_objsize smo, sync_os = os\<rparr>"
  have segs: "space_map_sync_segs (smo_object smo) bufsize ty ?sss sm
      \<lparr>entry_map = [debug_entry pass txg ty], sync_objsize = smo_objsize smo, sync_os = os\<rparr> =
      (sm\<lparr>sm_space := 0\<rparr>, st)"
    by (simp add: sync_segs_fold [OF log sss refl refl] sum st_def)
  have "sync_inv os (smo_object smo) (smo_objsize smo) (unat (bufsize div 8)) (sync_log pass txg sm ty) st"
    using sync_entries_inv [of os "smo_object smo" "smo_objsize smo" bufsize "[debug_entry pass txg ty]" _ "segs_entries sm ty ?sss"] bound buf bw
    by (auto simp: st_def sync_log_def sync_inv_def dmu_write_Nil)
  then obtain k where k: "length (sync_log pass txg sm ty) = k + length (entry_map st)"
    "entry_map st = drop k (sync_log pass txg sm ty)" "entry_map st \<noteq> []"
    "unat (sync_objsize st) = unat (smo_objsize smo) + 8 * k"
    "sync_os st = dmu_write os (smo_object smo) (smo_objsize smo) (take k (sync_log pass txg sm ty))"
    unfolding sync_inv_def by blast
  let ?objsize = "sync_objsize st + of_nat (length (entry_map st)) * 8"
  have "unat (of_nat (length (entry_map st)) * 8 :: u64) = 8 * length (entry_map st)"
  proof -
    have "(of_nat (length (entry_map st)) * 8 :: u64) = of_nat (8 * length (entry_map st))" by simp
    then show ?thesis using bound k(1) by (simp only: unat_of_nat) simp
  qed
  then have size: "unat ?objsize = unat (smo_objsize smo) + 8 * length (sync_log pass txg sm ty)"
    using bound k(1,4) by (subst unat_add_bound) auto
  have os': "dmu_write (sync_os st) (smo_object smo) (sync_objsize st) (entry_map st) =
      dmu_write os (smo_object smo) (smo_objsize smo) (sync_log pass txg sm ty)"
  proof -
    have "length (take k (sync_log pass txg sm ty)) = k" using k(1) by simp
    then show ?thesis using dmu_write_append [of "sync_objsize st" "smo_objsize smo" "take k (sync_log pass txg sm ty)"] k(2,4,5) by simp
  qed
  let ?sm = "sm\<lparr>sm_space := 0, sm_root := ?root\<rparr>"
  have "space_map_sync pass txg sm ty smo os =
      Some (?sm, smo\<lparr>smo_alloc := (if ty = SM_ALLOC then smo_alloc smo + sm_space sm else smo_alloc smo - sm_space sm),
                     smo_objsize := ?objsize\<rparr>,
            dmu_write os (smo_object smo) (smo_objsize smo) (sync_log pass txg sm ty))"
    using space k(3) os'
    unfolding space_map_sync_def Let_def loop bufsize_def [symmetric] debug_entry_def [symmetric]
    by (simp add: segs)
  moreover have "sm_becomes sm {} ?sm"
    using wf by (intro sm_becomesI [where root = ?root and space = 0]) (auto simp: space_map_wf_def avl_shape_def sm_set_def segs_set_def)
  ultimately show ?thesis using size by blast
qed

subsection \<open>The set a log holds\<close>

text \<open>The offsets of a map.\<close>

definition sm_all :: "space_map \<Rightarrow> u64 set" where
  "sm_all sm = {sm_start sm ..< sm_start sm + sm_size sm}"

text \<open>A log holds the set \<open>A\<close> of allocated offsets if replaying it on an empty map of the
  same frame gives \<open>A\<close>, and replaying it as a map of free space on a full map gives
  the rest.\<close>

definition log_holds :: "space_map \<Rightarrow> u64 list \<Rightarrow> u64 set \<Rightarrow> bool" where
  "log_holds frame es A \<longleftrightarrow> A \<subseteq> sm_all frame \<and>
     (\<forall>zfs_recover maptype sm. space_map_wf sm \<longrightarrow> sm_compatible frame sm \<longrightarrow> maptype \<in> {SM_ALLOC, SM_FREE} \<longrightarrow>
        sm_set sm = (if maptype = SM_FREE then sm_all frame else {}) \<longrightarrow>
        (\<exists>sm'. space_map_load_entries zfs_recover maptype (sm_start frame) es sm = Some sm' \<and>
           sm_becomes sm (if maptype = SM_FREE then sm_all frame - A else A) sm'))"

lemma log_holds_Nil: "log_holds frame [] {}"
proof -
  have "sm_becomes sm S sm" if "space_map_wf sm" "sm_set sm = S" for sm S
    using sm_becomes_refl that by blast
  then show ?thesis by (simp add: log_holds_def)
qed

lemma log_holds_append:
  assumes holds: "log_holds frame es A" and wf: "space_map_wf sms" and compat: "sm_compatible frame sms"
    and log: "sm_loggable sms" and ty: "ty \<in> {SM_ALLOC, SM_FREE}"
    and pre: "if ty = SM_ALLOC then sm_set sms \<inter> A = {} else sm_set sms \<subseteq> A"
  shows "log_holds frame (es @ sync_log pass txg sms ty) (if ty = SM_ALLOC then A \<union> sm_set sms else A - sm_set sms)"
    (is "log_holds _ _ ?B")
  unfolding log_holds_def
proof (intro conjI allI impI)
  have sub: "sm_set sms \<subseteq> sm_all frame"
    using sm_set_subset [OF wf] compat by (simp add: sm_all_def sm_compatible_def)
  have A: "A \<subseteq> sm_all frame" using holds by (simp add: log_holds_def)
  then show "?B \<subseteq> sm_all frame" using sub by auto
  fix zfs_recover :: bool and maptype :: u8 and sm
  assume sm: "space_map_wf sm" "sm_compatible frame sm" "maptype \<in> {SM_ALLOC, SM_FREE}"
    "sm_set sm = (if maptype = SM_FREE then sm_all frame else {})"
  obtain sm1 where sm1: "space_map_load_entries zfs_recover maptype (sm_start frame) es sm = Some sm1"
    "sm_becomes sm (if maptype = SM_FREE then sm_all frame - A else A) sm1"
    using holds sm unfolding log_holds_def by blast
  have sm1': "space_map_wf sm1" "sm_compatible sms sm1" "sm_start frame = sm_start sm1"
    "sm_set sm1 = (if maptype = SM_FREE then sm_all frame - A else A)"
    using sm1(2) sm(2) compat by (auto simp: sm_compatible_def sm_becomes_wf sm_becomes_set)
  let ?sss = "postorder (avl_root (sm_root sms))"
  have sss: "set ?sss = set (avl_contents (sm_root sms))" "distinct ?sss"
    using segs_ok_distinct [OF space_map_wfD(3) [OF wf]] by (simp_all add: set_postorder distinct_postorder)
  note replay = replay_segs [OF wf sm1'(1,2) log sss ty, of maptype zfs_recover]
  have AF: "SM_ALLOC \<noteq> SM_FREE" by (simp add: SM_ALLOC_def SM_FREE_def)
  have "\<exists>sm2. space_map_load_entries zfs_recover maptype (sm_start sm1) (segs_entries sms ty ?sss) sm1 = Some sm2 \<and>
      sm_becomes sm1 (if maptype = SM_FREE then sm_all frame - ?B else ?B) sm2"
  proof (cases "maptype = ty")
    case True
    then have "sm_set sms \<inter> sm_set sm1 = {}" using pre sm1'(4) AF ty by (auto split: if_splits)
    moreover have "sm_set sm1 \<union> sm_set sms = (if maptype = SM_FREE then sm_all frame - ?B else ?B)"
      using True pre sm1'(4) AF ty sub A by auto
    ultimately show ?thesis using replay(1) [OF True] by simp
  next
    case False
    then have "sm_set sms \<subseteq> sm_set sm1" using pre sm1'(4) AF ty sub sm(3) by (auto split: if_splits)
    moreover have "sm_set sm1 - sm_set sms = (if maptype = SM_FREE then sm_all frame - ?B else ?B)"
      using False pre sm1'(4) AF ty sub A sm(3) by auto
    ultimately show ?thesis using replay(2) [OF False sm(3)] by simp
  qed
  then show "\<exists>sm'. space_map_load_entries zfs_recover maptype (sm_start frame) (es @ sync_log pass txg sms ty) sm = Some sm' \<and>
      sm_becomes sm (if maptype = SM_FREE then sm_all frame - ?B else ?B) sm'"
    using sm1 sm1'(3) sm_becomes_trans [OF sm1(2)]
    by (auto simp: load_entries_append sync_log_def debug_entry_decode)
qed

text \<open>An object that holds a set.\<close>

definition obj_words :: "objset \<Rightarrow> space_map_obj \<Rightarrow> u64 list" where
  "obj_words os smo = map (os (smo_object smo)) [0 ..< unat (smo_objsize smo) div 8]"

definition smo_holds :: "space_map \<Rightarrow> space_map_obj \<Rightarrow> objset \<Rightarrow> u64 set \<Rightarrow> bool" where
  "smo_holds frame smo os A \<longleftrightarrow> 8 dvd unat (smo_objsize smo) \<and> unat (smo_objsize smo) + 4096 < 2 ^ 64 \<and>
     unat (smo_alloc smo) = card A \<and> log_holds frame (obj_words os smo) A"

lemma obj_words_write:
  assumes "unat (smo_objsize smo') = unat (smo_objsize smo) + 8 * length es" "smo_object smo' = smo_object smo"
  shows "obj_words (dmu_write os (smo_object smo) (smo_objsize smo) es) smo' = obj_words os smo @ es"
  using assms by (intro nth_equalityI) (auto simp: obj_words_def dmu_write_def nth_append)

lemma load_loop_ok:
  assumes "\<forall>offset size'. \<not> dmu_error (smo_object smo) offset size'"
    and "8 dvd unat end'" "unat end' + 4096 < 2 ^ 64" "4096 dvd unat offset" "unat offset < unat end' + 4096"
    and "unat end' < unat offset + n * 4096"
  shows "space_map_load_loop (Suc n) dmu_error zfs_recover maptype mapstart smo os offset end' sm =
    space_map_load_entries zfs_recover maptype mapstart
      (map (os (smo_object smo)) [unat offset div 8 ..< unat end' div 8]) sm"
  using assms(4-)
proof (induction n arbitrary: offset sm)
  case 0
  then show ?case by (simp add: word_less_nat_alt)
next
  case (Suc n)
  show ?case
  proof (cases "offset < end'")
    case False
    then show ?thesis by (simp add: word_less_nat_alt div_le_mono)
  next
    case True
    let ?size = "min (end' - offset) (bit64 SPACE_MAP_BLOCKSHIFT)"
    have lt: "unat offset < unat end'" using True by (simp add: word_less_nat_alt)
    have d: "unat (end' - offset) = unat end' - unat offset" using True by (simp add: unat_diff_le less_imp_le)
    have size: "unat ?size = min (unat end' - unat offset) 4096"
      by (auto simp: SPACE_MAP_BLOCKSHIFT_def min_def word_le_nat_alt d)
    have off8: "8 dvd unat offset" using Suc.prems(1) by (rule dvd_trans [rotated]) simp
    have s8: "8 dvd unat ?size" unfolding size using assms(2) off8 by (simp add: min_def)
    have "P2PHASE ?size 8 = 0 \<and> ?size \<noteq> 0"
    proof -
      have "P2PHASE ?size (2 ^ 3) = 0" unfolding P2PHASE_bit64 using s8 by (subst aligned_iff_dvd) simp_all
      moreover have "unat ?size \<noteq> 0" unfolding size using lt by simp
      ultimately show ?thesis by auto
    qed
    moreover have "dmu_read os (smo_object smo) offset ?size =
        map (os (smo_object smo)) [unat offset div 8 ..< (unat offset + min (unat end' - unat offset) 4096) div 8]"
      unfolding dmu_read_def size using off8 s8 by (simp add: div_plus_div_distrib_dvd_left)
    moreover have off: "unat (offset + bit64 SPACE_MAP_BLOCKSHIFT) = unat offset + 4096"
      using lt assms(3) by (subst unat_add_bound) (simp_all add: SPACE_MAP_BLOCKSHIFT_def)
    moreover have "space_map_load_loop (Suc n) dmu_error zfs_recover maptype mapstart smo os
          (offset + bit64 SPACE_MAP_BLOCKSHIFT) end' sm' =
        space_map_load_entries zfs_recover maptype mapstart
          (map (os (smo_object smo)) [(unat offset + 4096) div 8 ..< unat end' div 8]) sm'" for sm'
      using Suc.prems lt by (subst Suc.IH) (simp_all only: off, simp_all)
    moreover have "[unat offset div 8 ..< unat end' div 8] =
        [unat offset div 8 ..< (unat offset + min (unat end' - unat offset) 4096) div 8] @
        [(unat offset + 4096) div 8 ..< unat end' div 8]"
    proof (cases "unat end' - unat offset \<le> 4096")
      case False
      then have "(unat offset + 4096) div 8 \<le> unat end' div 8" by (intro div_le_mono) simp
      then obtain k where "unat end' div 8 = (unat offset + 4096) div 8 + k" by (auto simp: le_iff_add)
      then show ?thesis using False upt_add_eq_append [of "unat offset div 8" "(unat offset + 4096) div 8" k]
        by (simp add: div_le_mono min_def)
    qed (use lt in \<open>simp add: div_le_mono\<close>)
    ultimately show ?thesis using True assms(1)
      by (subst space_map_load_loop.simps)
        (simp only: Let_def map_append load_entries_append if_True if_False not_True_eq_False simp_thms
          cong: option.case_cong)
  qed
qed


lemma sync_holds:
  assumes holds: "smo_holds frame smo os A" and wf: "space_map_wf sm" and compat: "sm_compatible frame sm"
    and log: "sm_loggable sm" and ty: "ty \<in> {SM_ALLOC, SM_FREE}"
    and pre: "if ty = SM_ALLOC then sm_set sm \<inter> A = {} else sm_set sm \<subseteq> A"
    and bound: "unat (smo_objsize smo) + 8 * length (sync_log pass txg sm ty) + 4096 < 2 ^ 64"
    and nodes: "avl_numnodes (sm_root sm) < 2 ^ 60"
  obtains sm' smo' os' where "space_map_sync pass txg sm ty smo os = Some (sm', smo', os')" "sm_becomes sm {} sm'"
    "smo_holds frame smo' os' (if ty = SM_ALLOC then A \<union> sm_set sm else A - sm_set sm)"
proof (cases "sm_set sm = {}")
  case True
  then have "sm_space sm = 0" using space_map_wfD(7) [OF wf] by (simp add: unat_eq_0)
  then have "space_map_sync pass txg sm ty smo os = Some (sm, smo, os)" by (simp add: space_map_sync_def)
  moreover have "sm_becomes sm {} sm" using sm_becomes_refl [OF wf] True by simp
  ultimately show ?thesis using that True holds by simp
next
  case False
  let ?B = "if ty = SM_ALLOC then A \<union> sm_set sm else A - sm_set sm"
  let ?alloc = "if ty = SM_ALLOC then smo_alloc smo + sm_space sm else smo_alloc smo - sm_space sm"
  have hold: "8 dvd unat (smo_objsize smo)" "unat (smo_alloc smo) = card A" "log_holds frame (obj_words os smo) A"
    using holds by (auto simp: smo_holds_def)
  have "unat (smo_objsize smo) + 8 * length (sync_log pass txg sm ty) < 2 ^ 64" using bound by simp
  then obtain sm' objsize where sync: "space_map_sync pass txg sm ty smo os =
      Some (sm', smo\<lparr>smo_alloc := ?alloc, smo_objsize := objsize\<rparr>,
            dmu_write os (smo_object smo) (smo_objsize smo) (sync_log pass txg sm ty))"
    "unat objsize = unat (smo_objsize smo) + 8 * length (sync_log pass txg sm ty)" "sm_becomes sm {} sm'"
    using sync_ok [OF wf log False _ nodes, of smo pass txg ty os] by blast
  have holdsB: "log_holds frame (obj_words os smo @ sync_log pass txg sm ty) ?B"
    by (rule log_holds_append [OF hold(3) wf compat log ty pre])
  have fin: "finite A" by simp
  have "unat ?alloc = card ?B"
  proof (cases "ty = SM_ALLOC")
    case True
    have "card (A \<union> sm_set sm) \<le> unat (sm_size sm)"
      using holdsB True compat by (intro sm_card_bound [OF wf]) (simp add: log_holds_def sm_all_def sm_compatible_def)
    then have "card (A \<union> sm_set sm) < 2 ^ 64" by (rule order.strict_trans1) (use unsigned_less [of "sm_size sm"] in simp)
    moreover have "card (A \<union> sm_set sm) = card A + card (sm_set sm)"
      using True pre by (intro card_Un_disjoint) auto
    ultimately show ?thesis using True hold(2) space_map_wfD(7) [OF wf] by (simp add: unat_add_bound)
  next
    case False
    then have sub: "sm_set sm \<subseteq> A" using pre by simp
    have "card (sm_set sm) \<le> card A" using sub by (intro card_mono) simp_all
    then have "sm_space sm \<le> smo_alloc smo"
      using hold(2) space_map_wfD(7) [OF wf] by (simp add: word_le_nat_alt)
    then show ?thesis using False hold(2) space_map_wfD(7) [OF wf] card_Diff_subset [OF _ sub]
      by (simp add: unat_diff_le)
  qed
  then have "smo_holds frame (smo\<lparr>smo_alloc := ?alloc, smo_objsize := objsize\<rparr>)
      (dmu_write os (smo_object smo) (smo_objsize smo) (sync_log pass txg sm ty)) ?B"
    using holdsB hold(1) bound sync(2)
    by (simp add: smo_holds_def obj_words_write [of "smo\<lparr>smo_alloc := ?alloc, smo_objsize := objsize\<rparr>" smo])
  then show ?thesis using that sync by blast
qed

lemma create_compatible: "sm_compatible (space_map_create start size' shift) (space_map_create start size' shift)"
  by (simp add: sm_compatible_def)

text \<open>A load fills an unloaded, empty map with the set of the object, or its rest.\<close>

lemma load_holds:
  assumes holds: "smo_holds sm smo os A" and wf: "space_map_wf sm" and empty: "sm_set sm = {}"
    and idle: "\<not> sm_loaded sm" "\<not> sm_loading sm" and al: "sm_aligned sm (sm_start sm)" "sm_aligned sm (sm_size sm)"
    and pos: "sm_size sm \<noteq> 0" and maptype: "maptype \<in> {SM_ALLOC, SM_FREE}"
    and reads: "\<forall>object offset size'. \<not> dmu_error object offset size'"
  obtains sm' where "space_map_load dmu_error zfs_recover optab sm None maptype smo os = Some (0, sm')"
    "space_map_wf sm'" "sm_loaded sm'" "\<not> sm_loading sm'"
    "sm_set sm' = (if maptype = SM_FREE then sm_all sm - A else A)"
proof -
  let ?sm = "sm\<lparr>sm_loading := True\<rparr>" and ?S = "if maptype = SM_FREE then sm_all sm - A else A"
  let ?space = "if maptype = SM_FREE then sm_size sm - smo_alloc smo else smo_alloc smo"
  have hold: "8 dvd unat (smo_objsize smo)" "unat (smo_objsize smo) + 4096 < 2 ^ 64"
    "unat (smo_alloc smo) = card A" "log_holds sm (obj_words os smo) A"
    using holds by (auto simp: smo_holds_def)
  have wf': "space_map_wf ?sm" "sm_set ?sm = {}"
    using wf empty by (auto simp: space_map_wf_def sm_set_def seg_within_def)
  have space: "sm_space sm = 0" using space_map_wfD(7) [OF wf] empty by (simp add: unat_eq_0)
  have range: "sm_range ?sm (sm_start sm) (sm_size sm)"
    using al pos space_map_wfD(6) [OF wf] by (simp add: sm_range_def)
  obtain sm1 where sm1: "(if maptype = SM_FREE then space_map_add zfs_recover ?sm (sm_start sm) (sm_size sm) else Some ?sm) = Some sm1"
    "sm_becomes ?sm (if maptype = SM_FREE then sm_all sm else {}) sm1"
  proof (cases "maptype = SM_FREE")
    case True
    obtain sm1 where "space_map_add zfs_recover ?sm (sm_start sm) (sm_size sm) = Some sm1"
      "sm_becomes ?sm (sm_set ?sm \<union> {sm_start sm ..< sm_start sm + sm_size sm}) sm1"
      by (rule add_becomes [OF wf'(1) range]) (use wf'(2) in auto)
    then show ?thesis using that True wf'(2) by (simp add: sm_all_def)
  next
    case False
    then show ?thesis using that sm_becomes_refl [OF wf'(1)] wf'(2) by simp
  qed
  have "\<exists>sm2. space_map_load_entries zfs_recover maptype (sm_start sm) (obj_words os smo) sm1 = Some sm2 \<and> sm_becomes sm1 ?S sm2"
  proof -
    have "sm_compatible sm sm1" using sm1(2) by (simp add: sm_compatible_def)
    then show ?thesis
      using hold(4) maptype sm_becomes_wf [OF sm1(2)] sm_becomes_set [OF sm1(2)] unfolding log_holds_def by blast
  qed
  then obtain sm2 where sm2: "space_map_load_entries zfs_recover maptype (sm_start sm) (obj_words os smo) sm1 = Some sm2"
    "sm_becomes sm1 ?S sm2" by blast
  have loop: "space_map_load_loop (unat (smo_objsize smo) div 2 ^ SPACE_MAP_BLOCKSHIFT + 2) dmu_error
      zfs_recover maptype (sm_start sm) smo os 0 (smo_objsize smo) sm1 = Some sm2"
  proof -
    let ?e = "unat (smo_objsize smo)"
    have "?e < (?e div 4096 + 1) * 4096" by (simp add: dividend_less_div_times)
    then show ?thesis
      using load_loop_ok [of dmu_error smo "smo_objsize smo" 0 "?e div 4096 + 1"] reads hold(1,2) sm2(1)
      by (simp add: SPACE_MAP_BLOCKSHIFT_def obj_words_def)
  qed
  have A: "A \<subseteq> sm_all sm" using hold(4) by (simp add: log_holds_def)
  have all: "card (sm_all sm) = unat (sm_size sm)"
    using space_map_wfD(6) [OF wf] by (simp add: sm_all_def card_word_interval unat_add_bound)
  have "unat (sm_space sm2) = unat ?space"
  proof (cases "maptype = SM_FREE")
    case True
    have "card A \<le> card (sm_all sm)" using A by (intro card_mono) simp_all
    then have "smo_alloc smo \<le> sm_size sm" by (simp add: word_le_nat_alt hold(3) all)
    then show ?thesis using True space_map_wfD(7) [OF sm_becomes_wf [OF sm2(2)]] sm_becomes_set [OF sm2(2)] card_Diff_subset [OF _ A]
      by (simp add: hold(3) all unat_diff_le)
  next
    case False
    then show ?thesis using space_map_wfD(7) [OF sm_becomes_wf [OF sm2(2)]] sm_becomes_set [OF sm2(2)]
      by (simp add: hold(3))
  qed
  then have sp: "sm_space sm2 = ?space" by (rule unsigned_word_eqI)
  let ?sm' = "sm2\<lparr>sm_loading := False, sm_loaded := True, sm_ops := None\<rparr>"
  have st: "sm_start sm1 = sm_start sm" "sm_size sm1 = sm_size sm" using sm1(2) by simp_all
  have "space_map_load dmu_error zfs_recover optab sm None maptype smo os = Some (0, ?sm')"
    using idle space sm1(1) loop sp unfolding space_map_load_def space_map_load_wait_def
    by (cases "maptype = SM_FREE") (auto simp: Let_def st simp del: space_map_load_loop.simps)
  moreover have "space_map_wf ?sm'" "sm_set ?sm' = ?S"
    using sm_becomes_wf [OF sm2(2)] sm_becomes_set [OF sm2(2)]
    by (auto simp: space_map_wf_def sm_set_def seg_within_def)
  ultimately show ?thesis using that by simp
qed

lemma truncate_holds:
  "smo_holds frame (smo\<lparr>smo_objsize := 0, smo_alloc := 0\<rparr>) os {}"
  by (simp add: smo_holds_def obj_words_def log_holds_Nil)

section \<open>Properties of the logs\<close>

text \<open>C9: space_map_sync of a map of allocations (or frees) to the object of a space map
  empties the map in core and appends a log such that the object, which held the allocated
  set A, now holds A with the map's offsets added (or taken away), smo_alloc being the
  number of allocated offsets.\<close>
theorem space_map_sync_correct:
  assumes "smo_holds frame smo os A" "space_map_wf sm" "sm_compatible frame sm" "sm_loggable sm"
    "ty \<in> {SM_ALLOC, SM_FREE}" "if ty = SM_ALLOC then sm_set sm \<inter> A = {} else sm_set sm \<subseteq> A"
    "unat (smo_objsize smo) + 8 * length (sync_log pass txg sm ty) + 4096 < 2 ^ 64"
    "avl_numnodes (sm_root sm) < 2 ^ 60"
  shows "\<exists>sm' smo' os'. space_map_sync pass txg sm ty smo os = Some (sm', smo', os') \<and> sm_becomes sm {} sm' \<and>
    smo_holds frame smo' os' (if ty = SM_ALLOC then A \<union> sm_set sm else A - sm_set sm)"
  by (rule sync_holds [OF assms]) blast

lemma example_loggable: "sm_loggable example_map"
  by (simp add: sm_loggable_def P2PHASE_def)

lemma example_sync_log: "length (sync_log 1 7 example_map SM_ALLOC) = 2"
  by (simp add: sync_log_def segs_entries_def seg_entries_def example_map_segs example_map_def
      space_map_create_def seg_runs.simps drop_bit_eq_div)

theorem space_map_sync_correct_witness:
  "\<exists>sm' smo' os'. space_map_sync 1 7 example_map SM_ALLOC \<lparr>smo_object = 5, smo_objsize = 0, smo_alloc = 0\<rparr> (\<lambda>_ _. 0) =
      Some (sm', smo', os') \<and> sm_becomes example_map {} sm' \<and>
    smo_holds example_map smo' os' (if SM_ALLOC = SM_ALLOC then {} \<union> sm_set example_map else {} - sm_set example_map)"
proof (rule space_map_sync_correct)
  show "smo_holds example_map \<lparr>smo_object = 5, smo_objsize = 0, smo_alloc = 0\<rparr> (\<lambda>_ _. 0) {}"
    by (simp add: smo_holds_def obj_words_def log_holds_Nil)
qed (auto simp: example_map_wf sm_compatible_def example_loggable example_sync_log,
     simp add: example_map_def)



end
