(* ===== verification/Namecheck.thy ===== *)
theory Namecheck
  imports Prelude
begin

section \<open>Name validation\<close>

text \<open>
  The routines of \<^verbatim>\<open>common/zfs/zfs_namecheck.c\<close> that userland and the ioctl layer
  share.  A C string is the list of its characters before the terminator; reading
  the terminator gives the null character.  A result \<open>Inl (why, what)\<close> is the
  return value -1 with \<open>*why\<close> and, where the code stores it, \<open>*what\<close>;
  \<open>Inr ()\<close> is the return value 0.
\<close>

datatype namecheck_err =
    NAME_ERR_LEADING_SLASH | NAME_ERR_EMPTY_COMPONENT | NAME_ERR_TRAILING_SLASH
  | NAME_ERR_INVALCHAR | NAME_ERR_MULTIPLE_AT | NAME_ERR_NOLETTER | NAME_ERR_RESERVED
  | NAME_ERR_DISKLIKE | NAME_ERR_TOOLONG | NAME_ERR_NO_AT

type_synonym namecheck = "(namecheck_err \<times> char option) + unit"

definition MAXNAMELEN :: nat where "MAXNAMELEN = 256"
definition ZFS_PERMSET_MAXLEN :: nat where "ZFS_PERMSET_MAXLEN = 64"

abbreviation NUL :: char where "NUL \<equiv> CHR 0x00"

text \<open>\<open>c >= lo && c <= hi\<close>\<close>

definition char_range :: "char \<Rightarrow> char \<Rightarrow> char \<Rightarrow> bool" where
  "char_range lo hi c \<longleftrightarrow> of_char lo \<le> (of_char c :: nat) \<and> of_char c \<le> (of_char hi :: nat)"

definition valid_char :: "char \<Rightarrow> bool" where
  "valid_char c \<longleftrightarrow>
     char_range CHR ''a'' CHR ''z'' c \<or> char_range CHR ''A'' CHR ''Z'' c \<or>
     char_range CHR ''0'' CHR ''9'' c \<or>
     c = CHR ''-'' \<or> c = CHR ''_'' \<or> c = CHR ''.'' \<or> c = CHR '':''"

text \<open>\<open>path[i]\<close>\<close>

definition char_at :: "string \<Rightarrow> nat \<Rightarrow> char" where
  "char_at path i = (if i < length path then path ! i else NUL)"

text \<open>The loop that looks for a character that is not allowed.\<close>

fun check_chars :: "string \<Rightarrow> namecheck" where
  "check_chars [] = Inr ()"
| "check_chars (c # cs) = (if \<not> valid_char c then Inl (NAME_ERR_INVALCHAR, Some c) else check_chars cs)"

definition snapshot_namecheck :: "string \<Rightarrow> namecheck" where
  "snapshot_namecheck path =
     (if length path \<ge> MAXNAMELEN then Inl (NAME_ERR_TOOLONG, None)
      else if char_at path 0 = NUL then Inl (NAME_ERR_EMPTY_COMPONENT, None)
      else check_chars path)"

definition permset_namecheck :: "string \<Rightarrow> namecheck" where
  "permset_namecheck path =
     (if length path \<ge> ZFS_PERMSET_MAXLEN then Inl (NAME_ERR_TOOLONG, None)
      else if char_at path 0 \<noteq> CHR ''@'' then Inl (NAME_ERR_NO_AT, Some (char_at path 0))
      else snapshot_namecheck (tl path))"

text \<open>
  The loop over the components of a dataset name.  \<open>prev\<close> is the character before
  \<open>loc\<close>, so that \<open>end[-1]\<close> is the last of the component or, if that is empty,
  \<open>prev\<close>.
\<close>

lemma dropWhile_length: "dropWhile P xs = c # rest \<Longrightarrow> length rest < length xs"
  by (metis Suc_le_lessD length_Cons length_dropWhile_le)

definition in_component :: "char \<Rightarrow> bool" where
  "in_component c \<longleftrightarrow> c \<noteq> CHR ''/'' \<and> c \<noteq> CHR ''@''"

function dataset_loop :: "char \<Rightarrow> string \<Rightarrow> bool \<Rightarrow> namecheck" where
  "dataset_loop prev loc found_snapshot =
     (let comp = takeWhile in_component loc;
          end' = dropWhile in_component loc
      in
      if end' = [] \<and> last (prev # comp) = CHR ''/'' then Inl (NAME_ERR_TRAILING_SLASH, None)
      else if comp = [] then
        Inl (if char_at end' 0 = CHR ''@'' \<and> found_snapshot then NAME_ERR_MULTIPLE_AT
             else NAME_ERR_EMPTY_COMPONENT, None)
      else
        case check_chars comp of
          Inl err \<Rightarrow> Inl err
        | Inr _ \<Rightarrow>
            (case end' of
               [] \<Rightarrow> Inr ()
             | c # rest \<Rightarrow>
                 if c = CHR ''@'' \<and> found_snapshot then Inl (NAME_ERR_MULTIPLE_AT, None)
                 else
                   let found_snapshot = (found_snapshot \<or> c = CHR ''@'')
                   in if c = CHR ''/'' \<and> found_snapshot then Inl (NAME_ERR_TRAILING_SLASH, None)
                      else dataset_loop c rest found_snapshot))"
  by pat_completeness auto

termination dataset_loop
  by (relation "measure (\<lambda>(prev, loc, found). length loc)") (auto dest: dropWhile_length [OF sym])

definition dataset_namecheck :: "string \<Rightarrow> namecheck" where
  "dataset_namecheck path =
     (if length path \<ge> MAXNAMELEN then Inl (NAME_ERR_TOOLONG, None)
      else if char_at path 0 = CHR ''/'' then Inl (NAME_ERR_LEADING_SLASH, None)
      else if char_at path 0 = NUL then Inl (NAME_ERR_EMPTY_COMPONENT, None)
      else dataset_loop NUL path False)"

function mountpoint_loop :: "string \<Rightarrow> namecheck" where
  "mountpoint_loop start =
     (let comp = takeWhile (\<lambda>c. c \<noteq> CHR ''/'') start;
          end' = dropWhile (\<lambda>c. c \<noteq> CHR ''/'') start
      in
      if length comp \<ge> MAXNAMELEN then Inl (NAME_ERR_TOOLONG, None)
      else case end' of [] \<Rightarrow> Inr () | c # rest \<Rightarrow> mountpoint_loop rest)"
  by pat_completeness auto

termination mountpoint_loop
  by (relation "measure length") (auto dest: dropWhile_length [OF sym])

text \<open>A null \<open>path\<close> is \<open>None\<close>.\<close>

definition mountpoint_namecheck :: "string option \<Rightarrow> namecheck" where
  "mountpoint_namecheck path =
     (case path of
        None \<Rightarrow> Inl (NAME_ERR_LEADING_SLASH, None)
      | Some path \<Rightarrow>
          if char_at path 0 \<noteq> CHR ''/'' then Inl (NAME_ERR_LEADING_SLASH, None)
          else mountpoint_loop (tl path))"

definition pool_namecheck :: "string \<Rightarrow> namecheck" where
  "pool_namecheck pool =
     (if length pool \<ge> MAXNAMELEN then Inl (NAME_ERR_TOOLONG, None)
      else
        case check_chars pool of
          Inl err \<Rightarrow> Inl err
        | Inr _ \<Rightarrow>
            if \<not> char_range CHR ''a'' CHR ''z'' (char_at pool 0) \<and>
               \<not> char_range CHR ''A'' CHR ''Z'' (char_at pool 0) then Inl (NAME_ERR_NOLETTER, None)
            else if pool = ''mirror'' \<or> pool = ''raidz'' then Inl (NAME_ERR_RESERVED, None)
            else if char_at pool 0 = CHR ''c'' \<and> char_range CHR ''0'' CHR ''9'' (char_at pool 1)
            then Inl (NAME_ERR_DISKLIKE, None)
            else Inr ())"

definition dataset_name_hidden :: "string \<Rightarrow> bool" where
  "dataset_name_hidden name \<longleftrightarrow> CHR ''$'' \<in> set name"

declare dataset_loop.simps [simp del] mountpoint_loop.simps [simp del]

section \<open>Correctness of the name checks\<close>

lemma check_chars_ok: "check_chars cs = Inr () \<longleftrightarrow> (\<forall>c\<in>set cs. valid_char c)"
  by (induction cs) auto

text \<open>The first character that is not allowed is reported.\<close>

lemma check_chars_eq:
  "check_chars cs = (case dropWhile valid_char cs of [] \<Rightarrow> Inr () | c # _ \<Rightarrow> Inl (NAME_ERR_INVALCHAR, Some c))"
  by (induction cs) auto

lemma valid_char_special [simp]:
  "\<not> valid_char CHR ''/''" "\<not> valid_char CHR ''@''" "\<not> valid_char NUL" "\<not> valid_char CHR ''$''"
  by (simp_all add: valid_char_def char_range_def)

lemma valid_in_component: "valid_char c \<Longrightarrow> in_component c"
  by (auto simp: in_component_def)

text \<open>A component: not empty, of allowed characters.\<close>

definition component :: "string \<Rightarrow> bool" where
  "component cs \<longleftrightarrow> cs \<noteq> [] \<and> (\<forall>c\<in>set cs. valid_char c)"

text \<open>Components joined by slashes, and the optional snapshot name after them.\<close>

fun join_path :: "string list \<Rightarrow> string" where
  "join_path [] = []"
| "join_path [cs] = cs"
| "join_path (cs # css) = cs @ CHR ''/'' # join_path css"

definition snapshot_suffix :: "string option \<Rightarrow> string" where
  "snapshot_suffix snap = (case snap of None \<Rightarrow> [] | Some s \<Rightarrow> CHR ''@'' # s)"

definition dataset_form :: "string \<Rightarrow> bool" where
  "dataset_form path \<longleftrightarrow>
     (\<exists>css snap. css \<noteq> [] \<and> (\<forall>cs\<in>set css. component cs) \<and> (\<forall>s. snap = Some s \<longrightarrow> component s) \<and>
        path = join_path css @ snapshot_suffix snap)"

lemma component_split:
  assumes "component cs"
  shows "\<not> in_component c \<Longrightarrow> takeWhile in_component (cs @ c # rest) = cs"
    "\<not> in_component c \<Longrightarrow> dropWhile in_component (cs @ c # rest) = c # rest"
    "takeWhile in_component cs = cs" "dropWhile in_component cs = []"
  using assms valid_in_component by (auto simp: component_def)

lemma in_component_special [simp]: "\<not> in_component CHR ''/''" "\<not> in_component CHR ''@''"
  by (simp_all add: in_component_def)

lemma component_check: "component cs \<Longrightarrow> check_chars cs = Inr () \<and> cs \<noteq> [] \<and> last cs \<noteq> CHR ''/''"
  using last_in_set [of cs] valid_char_special(1) unfolding component_def check_chars_ok by metis

lemma dataset_loop_component:
  assumes "component cs"
  shows "dataset_loop prev cs found = Inr ()"
    "dataset_loop prev (cs @ CHR ''/'' # rest) found =
      (if found then Inl (NAME_ERR_TRAILING_SLASH, None) else dataset_loop CHR ''/'' rest False)"
    "dataset_loop prev (cs @ CHR ''@'' # rest) found =
      (if found then Inl (NAME_ERR_MULTIPLE_AT, None) else dataset_loop CHR ''@'' rest True)"
  unfolding dataset_loop.simps [of prev] Let_def
  by (simp_all add: component_split [OF assms] component_check [OF assms] del: dropWhile_eq_Nil_conv)

lemma dataset_loop_ok:
  assumes "dataset_loop prev loc found = Inr ()"
  obtains (last) "component loc"
    | (slash) cs rest where "component cs" "loc = cs @ CHR ''/'' # rest" "\<not> found" "dataset_loop CHR ''/'' rest False = Inr ()"
    | (at) cs rest where "component cs" "loc = cs @ CHR ''@'' # rest" "\<not> found" "dataset_loop CHR ''@'' rest True = Inr ()"
proof -
  define cs where "cs = takeWhile in_component loc"
  define end' where "end' = dropWhile in_component loc"
  note ok = assms [unfolded dataset_loop.simps [of prev loc] Let_def, folded cs_def end'_def]
  have cs: "component cs" using ok by (auto simp: component_def check_chars_ok [symmetric] split: if_splits sum.splits)
  have loc: "loc = cs @ end'" by (simp add: cs_def end'_def)
  show ?thesis
  proof (cases end')
    case Nil
    then show ?thesis using last cs loc by simp
  next
    case (Cons c rest)
    then have "\<not> in_component c" unfolding end'_def by (metis hd_dropWhile list.sel(1) list.distinct(1))
    then consider "c = CHR ''/''" | "c = CHR ''@''" by (auto simp: in_component_def)
    then show ?thesis using ok Cons slash [OF cs, of rest] at [OF cs, of rest] loc
      by cases (auto split: if_splits sum.splits)
  qed
qed

lemma dataset_loop_snapshot: "dataset_loop prev loc True = Inr () \<longleftrightarrow> component loc"
proof
  assume "dataset_loop prev loc True = Inr ()"
  then show "component loc" by (cases rule: dataset_loop_ok) auto
qed (rule dataset_loop_component)

lemma join_path_Cons: "css \<noteq> [] \<Longrightarrow> join_path (cs # css) = cs @ CHR ''/'' # join_path css"
  by (cases css) auto

lemma dataset_loop_form: "dataset_loop prev loc False = Inr () \<longleftrightarrow> dataset_form loc"
proof
  show "dataset_form loc" if "dataset_loop prev loc False = Inr ()"
    using that
  proof (induction "length loc" arbitrary: prev loc rule: less_induct)
    case less
    from less.prems show ?case
    proof (cases rule: dataset_loop_ok)
      case last
      then show ?thesis unfolding dataset_form_def
        by (intro exI [of _ "[loc]"] exI [of _ None]) (simp add: snapshot_suffix_def)
    next
      case (slash cs rest)
      then obtain css snap where "css \<noteq> []" "\<forall>cs\<in>set css. component cs" "\<forall>s. snap = Some s \<longrightarrow> component s"
        "rest = join_path css @ snapshot_suffix snap"
        using less.hyps [of rest] unfolding dataset_form_def by force
      then show ?thesis unfolding dataset_form_def using slash(1,2)
        by (intro exI [of _ "cs # css"] exI [of _ snap]) (simp add: join_path_Cons)
    next
      case (at cs rest)
      then show ?thesis unfolding dataset_form_def
        by (intro exI [of _ "[cs]"] exI [of _ "Some rest"])
          (simp add: snapshot_suffix_def dataset_loop_snapshot)
    qed
  qed
next
  assume "dataset_form loc"
  then obtain css snap where css: "css \<noteq> []" "\<forall>cs\<in>set css. component cs" and snap: "\<forall>s. snap = Some s \<longrightarrow> component s"
    and loc: "loc = join_path css @ snapshot_suffix snap" by (auto simp: dataset_form_def)
  have suffix: "dataset_loop prev (cs @ snapshot_suffix snap) False = Inr ()" if "component cs" for prev cs
    using snap dataset_loop_component [OF that]
    by (cases snap) (auto simp: snapshot_suffix_def dataset_loop_snapshot)
  show "dataset_loop prev loc False = Inr ()"
    unfolding loc using css
  proof (induction css arbitrary: prev)
    case (Cons cs css)
    then show ?case using suffix [of cs] dataset_loop_component(2) [of cs]
      by (cases "css = []") (auto simp: join_path_Cons)
  qed simp
qed

lemma dataset_form_start: "dataset_form path \<Longrightarrow> valid_char (char_at path 0)"
proof -
  assume "dataset_form path"
  then obtain css snap where css: "css \<noteq> []" "\<forall>cs\<in>set css. component cs" "path = join_path css @ snapshot_suffix snap"
    by (auto simp: dataset_form_def)
  obtain cs css' where c: "css = cs # css'" using css(1) by (cases css) auto
  then obtain rest where "component cs" "path = cs @ rest"
    using css(2,3) by (cases css') auto
  then show ?thesis by (cases cs) (auto simp: component_def char_at_def)
qed

fun slash_split :: "string \<Rightarrow> string list" where
  "slash_split [] = [[]]"
| "slash_split (c # cs) = (if c = CHR ''/'' then [] # slash_split cs
     else (c # hd (slash_split cs)) # tl (slash_split cs))"

lemma slash_split_eq:
  "slash_split s = takeWhile (\<lambda>c. c \<noteq> CHR ''/'') s #
     (case dropWhile (\<lambda>c. c \<noteq> CHR ''/'') s of [] \<Rightarrow> [] | c # rest \<Rightarrow> slash_split rest)"
  by (induction s) auto

lemma mountpoint_loop_ok:
  "mountpoint_loop s = Inr () \<longleftrightarrow> (\<forall>cs\<in>set (slash_split s). length cs < MAXNAMELEN)"
proof (induction s rule: mountpoint_loop.induct)
  case (1 start)
  define cs where "cs = takeWhile (\<lambda>c. c \<noteq> CHR ''/'') start"
  define rest where "rest = dropWhile (\<lambda>c. c \<noteq> CHR ''/'') start"
  have split: "slash_split start = cs # (case rest of [] \<Rightarrow> [] | c # rest \<Rightarrow> slash_split rest)"
    unfolding cs_def rest_def by (rule slash_split_eq)
  have loop: "mountpoint_loop start = (if MAXNAMELEN \<le> length cs then Inl (NAME_ERR_TOOLONG, None)
      else case rest of [] \<Rightarrow> Inr () | c # rest \<Rightarrow> mountpoint_loop rest)"
    by (subst mountpoint_loop.simps) (simp only: Let_def cs_def rest_def)
  show ?case using "1.IH" [OF cs_def rest_def] unfolding split loop by (cases rest) auto
qed

lemma snapshot_namecheck_ok: "snapshot_namecheck path = Inr () \<longleftrightarrow> length path < MAXNAMELEN \<and> component path"
  by (cases path) (auto simp: snapshot_namecheck_def component_def check_chars_ok char_at_def)

lemma permset_namecheck_ok:
  "permset_namecheck path = Inr () \<longleftrightarrow> (\<exists>s. path = CHR ''@'' # s \<and> component s \<and> length path < ZFS_PERMSET_MAXLEN)"
  by (cases path) (auto simp: permset_namecheck_def snapshot_namecheck_ok char_at_def ZFS_PERMSET_MAXLEN_def MAXNAMELEN_def)

lemma mountpoint_namecheck_ok:
  "mountpoint_namecheck (Some path) = Inr () \<longleftrightarrow>
    (\<exists>s. path = CHR ''/'' # s \<and> (\<forall>cs\<in>set (slash_split s). length cs < MAXNAMELEN))"
  by (cases path) (auto simp: mountpoint_namecheck_def mountpoint_loop_ok char_at_def)

lemma letter_valid: "char_range CHR ''a'' CHR ''z'' c \<or> char_range CHR ''A'' CHR ''Z'' c \<Longrightarrow> valid_char c"
  by (auto simp: valid_char_def)

section \<open>Properties of the name checks\<close>

text \<open>C21: dataset_namecheck accepts a name exactly if it is shorter than MAXNAMELEN and of the
  documented form: one or more components separated by slashes, then at most one '@' with a
  snapshot component, every component non-empty and of letters, digits and -_.: only.\<close>
theorem dataset_namecheck_correct:
  "dataset_namecheck path = Inr () \<longleftrightarrow> length path < MAXNAMELEN \<and> dataset_form path"
proof -
  have "char_at path 0 \<noteq> CHR ''/'' \<and> char_at path 0 \<noteq> NUL" if "dataset_form path"
    using dataset_form_start [OF that] by auto
  then show ?thesis by (auto simp: dataset_namecheck_def dataset_loop_form)
qed



end
