(* ===== verification/Blkptr.thy ===== *)
theory Blkptr
  imports Prelude
begin

section \<open>Block pointers\<close>

text \<open>
  The block pointers of \<^verbatim>\<open>fs/zfs/sys/spa.h\<close>: words with bit fields, and the macros
  that read and write them.  A macro that assigns to a field of \<open>*bp\<close> is a function
  that returns the updated block pointer.
\<close>

unbundle bit_operations_syntax

definition SPA_MINBLOCKSHIFT :: nat where "SPA_MINBLOCKSHIFT = 9"
definition SPA_MAXBLOCKSHIFT :: nat where "SPA_MAXBLOCKSHIFT = 17"

record dva =
  dva_word0 :: u64
  dva_word1 :: u64

record zio_cksum =
  zc_word0 :: u64
  zc_word1 :: u64
  zc_word2 :: u64
  zc_word3 :: u64

record blkptr =
  blk_dva0 :: dva
  blk_dva1 :: dva
  blk_dva2 :: dva
  blk_prop :: u64
  blk_pad :: "u64 \<times> u64 \<times> u64"
  blk_birth :: u64
  blk_fill :: u64
  blk_cksum :: zio_cksum

definition DVA_GET_ASIZE :: "dva \<Rightarrow> u64" where
  "DVA_GET_ASIZE dva = BF64_GET_SB (dva_word0 dva) 0 24 SPA_MINBLOCKSHIFT 0"
definition DVA_SET_ASIZE :: "dva \<Rightarrow> u64 \<Rightarrow> dva" where
  "DVA_SET_ASIZE dva x = dva\<lparr>dva_word0 := BF64_SET_SB (dva_word0 dva) 0 24 SPA_MINBLOCKSHIFT 0 x\<rparr>"
definition DVA_GET_GRID :: "dva \<Rightarrow> u64" where
  "DVA_GET_GRID dva = BF64_DECODE (dva_word0 dva) 24 8"
definition DVA_SET_GRID :: "dva \<Rightarrow> u64 \<Rightarrow> dva" where
  "DVA_SET_GRID dva x = dva\<lparr>dva_word0 := BF64_SET (dva_word0 dva) 24 8 x\<rparr>"
definition DVA_GET_VDEV :: "dva \<Rightarrow> u64" where
  "DVA_GET_VDEV dva = BF64_DECODE (dva_word0 dva) 32 32"
definition DVA_SET_VDEV :: "dva \<Rightarrow> u64 \<Rightarrow> dva" where
  "DVA_SET_VDEV dva x = dva\<lparr>dva_word0 := BF64_SET (dva_word0 dva) 32 32 x\<rparr>"
definition DVA_GET_OFFSET :: "dva \<Rightarrow> u64" where
  "DVA_GET_OFFSET dva = BF64_GET_SB (dva_word1 dva) 0 63 SPA_MINBLOCKSHIFT 0"
definition DVA_SET_OFFSET :: "dva \<Rightarrow> u64 \<Rightarrow> dva" where
  "DVA_SET_OFFSET dva x = dva\<lparr>dva_word1 := BF64_SET_SB (dva_word1 dva) 0 63 SPA_MINBLOCKSHIFT 0 x\<rparr>"
definition DVA_GET_GANG :: "dva \<Rightarrow> u64" where
  "DVA_GET_GANG dva = BF64_DECODE (dva_word1 dva) 63 1"
definition DVA_SET_GANG :: "dva \<Rightarrow> u64 \<Rightarrow> dva" where
  "DVA_SET_GANG dva x = dva\<lparr>dva_word1 := BF64_SET (dva_word1 dva) 63 1 x\<rparr>"
definition DVA_EQUAL :: "dva \<Rightarrow> dva \<Rightarrow> bool" where
  "DVA_EQUAL dva1 dva2 \<longleftrightarrow> dva_word1 dva1 = dva_word1 dva2 \<and> dva_word0 dva1 = dva_word0 dva2"
definition DVA_IS_VALID :: "dva \<Rightarrow> bool" where
  "DVA_IS_VALID dva \<longleftrightarrow> DVA_GET_ASIZE dva \<noteq> 0"

definition BP_IS_HOLE :: "blkptr \<Rightarrow> bool" where
  "BP_IS_HOLE bp \<longleftrightarrow> blk_birth bp = 0"
definition BP_GET_LSIZE :: "blkptr \<Rightarrow> u64" where
  "BP_GET_LSIZE bp = (if BP_IS_HOLE bp then 0 else BF64_GET_SB (blk_prop bp) 0 16 SPA_MINBLOCKSHIFT 1)"
definition BP_SET_LSIZE :: "blkptr \<Rightarrow> u64 \<Rightarrow> blkptr" where
  "BP_SET_LSIZE bp x = bp\<lparr>blk_prop := BF64_SET_SB (blk_prop bp) 0 16 SPA_MINBLOCKSHIFT 1 x\<rparr>"
definition BP_GET_PSIZE :: "blkptr \<Rightarrow> u64" where
  "BP_GET_PSIZE bp = BF64_GET_SB (blk_prop bp) 16 16 SPA_MINBLOCKSHIFT 1"
definition BP_SET_PSIZE :: "blkptr \<Rightarrow> u64 \<Rightarrow> blkptr" where
  "BP_SET_PSIZE bp x = bp\<lparr>blk_prop := BF64_SET_SB (blk_prop bp) 16 16 SPA_MINBLOCKSHIFT 1 x\<rparr>"
definition BP_GET_COMPRESS :: "blkptr \<Rightarrow> u64" where
  "BP_GET_COMPRESS bp = BF64_DECODE (blk_prop bp) 32 8"
definition BP_SET_COMPRESS :: "blkptr \<Rightarrow> u64 \<Rightarrow> blkptr" where
  "BP_SET_COMPRESS bp x = bp\<lparr>blk_prop := BF64_SET (blk_prop bp) 32 8 x\<rparr>"
definition BP_GET_CHECKSUM :: "blkptr \<Rightarrow> u64" where
  "BP_GET_CHECKSUM bp = BF64_DECODE (blk_prop bp) 40 8"
definition BP_SET_CHECKSUM :: "blkptr \<Rightarrow> u64 \<Rightarrow> blkptr" where
  "BP_SET_CHECKSUM bp x = bp\<lparr>blk_prop := BF64_SET (blk_prop bp) 40 8 x\<rparr>"
definition BP_GET_TYPE :: "blkptr \<Rightarrow> u64" where
  "BP_GET_TYPE bp = BF64_DECODE (blk_prop bp) 48 8"
definition BP_SET_TYPE :: "blkptr \<Rightarrow> u64 \<Rightarrow> blkptr" where
  "BP_SET_TYPE bp x = bp\<lparr>blk_prop := BF64_SET (blk_prop bp) 48 8 x\<rparr>"
definition BP_GET_LEVEL :: "blkptr \<Rightarrow> u64" where
  "BP_GET_LEVEL bp = BF64_DECODE (blk_prop bp) 56 5"
definition BP_SET_LEVEL :: "blkptr \<Rightarrow> u64 \<Rightarrow> blkptr" where
  "BP_SET_LEVEL bp x = bp\<lparr>blk_prop := BF64_SET (blk_prop bp) 56 5 x\<rparr>"
definition BP_GET_BYTEORDER :: "blkptr \<Rightarrow> u64" where
  "BP_GET_BYTEORDER bp = 0 - BF64_DECODE (blk_prop bp) 63 1"
definition BP_SET_BYTEORDER :: "blkptr \<Rightarrow> u64 \<Rightarrow> blkptr" where
  "BP_SET_BYTEORDER bp x = bp\<lparr>blk_prop := BF64_SET (blk_prop bp) 63 1 x\<rparr>"

definition BP_GET_ASIZE :: "blkptr \<Rightarrow> u64" where
  "BP_GET_ASIZE bp = DVA_GET_ASIZE (blk_dva0 bp) + DVA_GET_ASIZE (blk_dva1 bp) + DVA_GET_ASIZE (blk_dva2 bp)"
definition BP_GET_NDVAS :: "blkptr \<Rightarrow> nat" where
  "BP_GET_NDVAS bp = of_bool (DVA_GET_ASIZE (blk_dva0 bp) \<noteq> 0) + of_bool (DVA_GET_ASIZE (blk_dva1 bp) \<noteq> 0) +
     of_bool (DVA_GET_ASIZE (blk_dva2 bp) \<noteq> 0)"
definition BP_COUNT_GANG :: "blkptr \<Rightarrow> u64" where
  "BP_COUNT_GANG bp = DVA_GET_GANG (blk_dva0 bp) + DVA_GET_GANG (blk_dva1 bp) + DVA_GET_GANG (blk_dva2 bp)"
definition BP_IDENTITY :: "blkptr \<Rightarrow> dva" where
  "BP_IDENTITY bp = blk_dva0 bp"
definition BP_IS_GANG :: "blkptr \<Rightarrow> bool" where
  "BP_IS_GANG bp \<longleftrightarrow> DVA_GET_GANG (BP_IDENTITY bp) \<noteq> 0"
definition BP_IS_OLDER :: "blkptr \<Rightarrow> u64 \<Rightarrow> bool" where
  "BP_IS_OLDER bp txg \<longleftrightarrow> \<not> BP_IS_HOLE bp \<and> blk_birth bp < txg"

definition ZIO_CHECKSUM_EQUAL :: "zio_cksum \<Rightarrow> zio_cksum \<Rightarrow> bool" where
  "ZIO_CHECKSUM_EQUAL zc1 zc2 \<longleftrightarrow>
     0 = ((zc_word0 zc1 - zc_word0 zc2) OR (zc_word1 zc1 - zc_word1 zc2) OR
          (zc_word2 zc1 - zc_word2 zc2) OR (zc_word3 zc1 - zc_word3 zc2))"
definition ZIO_SET_CHECKSUM :: "u64 \<Rightarrow> u64 \<Rightarrow> u64 \<Rightarrow> u64 \<Rightarrow> zio_cksum" where
  "ZIO_SET_CHECKSUM w0 w1 w2 w3 = \<lparr>zc_word0 = w0, zc_word1 = w1, zc_word2 = w2, zc_word3 = w3\<rparr>"
definition BP_ZERO :: blkptr where
  "BP_ZERO = \<lparr>blk_dva0 = \<lparr>dva_word0 = 0, dva_word1 = 0\<rparr>, blk_dva1 = \<lparr>dva_word0 = 0, dva_word1 = 0\<rparr>,
     blk_dva2 = \<lparr>dva_word0 = 0, dva_word1 = 0\<rparr>, blk_prop = 0, blk_pad = (0, 0, 0), blk_birth = 0,
     blk_fill = 0, blk_cksum = ZIO_SET_CHECKSUM 0 0 0 0\<rparr>"

text \<open>\<open>big_endian\<close> is whether the host is.\<close>

definition ZFS_HOST_BYTEORDER :: "bool \<Rightarrow> u64" where
  "ZFS_HOST_BYTEORDER big_endian = (if big_endian then 0 else - 1)"
definition BP_SHOULD_BYTESWAP :: "bool \<Rightarrow> blkptr \<Rightarrow> bool" where
  "BP_SHOULD_BYTESWAP big_endian bp \<longleftrightarrow> BP_GET_BYTEORDER bp \<noteq> ZFS_HOST_BYTEORDER big_endian"

section \<open>Correctness of the block pointer fields\<close>

lemma or_eq_0: "(a OR b) = 0 \<longleftrightarrow> a = 0 \<and> b = 0" for a b :: u64
  by (auto simp: bit_eq_iff bit_simps)

lemma checksum_equal_iff: "ZIO_CHECKSUM_EQUAL zc1 zc2 \<longleftrightarrow> zc1 = zc2"
  unfolding ZIO_CHECKSUM_EQUAL_def eq_commute [of 0] or_eq_0
  by (cases zc1; cases zc2) simp

text \<open>A size that a shifted and biased field can hold.\<close>

definition sb_fits :: "nat \<Rightarrow> u64 \<Rightarrow> u64 \<Rightarrow> bool" where
  "sb_fits len bias x \<longleftrightarrow> take_bit SPA_MINBLOCKSHIFT x = 0 \<and> take_bit len (drop_bit SPA_MINBLOCKSHIFT x - bias) = drop_bit SPA_MINBLOCKSHIFT x - bias"

lemma GET_SET_SB:
  assumes "low + len \<le> 64" "sb_fits len bias x"
  shows "BF64_GET_SB (BF64_SET_SB w low len SPA_MINBLOCKSHIFT bias x) low len SPA_MINBLOCKSHIFT bias = x"
proof -
  have "BF64_DECODE (BF64_SET_SB w low len SPA_MINBLOCKSHIFT bias x) low len + bias = drop_bit SPA_MINBLOCKSHIFT x"
    using assms by (simp add: BF64_SET_SB_def BF64_DECODE_SET sb_fits_def)
  moreover have "push_bit SPA_MINBLOCKSHIFT (drop_bit SPA_MINBLOCKSHIFT x) = x"
    using assms(2) bits_ident [of SPA_MINBLOCKSHIFT x] by (simp add: sb_fits_def)
  ultimately show ?thesis by (simp add: BF64_GET_SB_def)
qed

lemma GET_SET_SB_other:
  assumes "low + len \<le> low' \<or> low' + len' \<le> low"
  shows "BF64_GET_SB (BF64_SET_SB w low' len' s' b' x) low len s b = BF64_GET_SB w low len s b"
    "BF64_DECODE (BF64_SET_SB w low' len' s' b' x) low len = BF64_DECODE w low len"
    "BF64_GET_SB (BF64_SET w low' len' x) low len s b = BF64_GET_SB w low len s b"
  using BF64_DECODE_SET_other [OF assms] by (simp_all add: BF64_GET_SB_def BF64_SET_SB_def)

text \<open>The properties of a block pointer that fit into \<open>blk_prop\<close>.\<close>

definition bp_props :: "blkptr \<Rightarrow> u64 \<times> u64 \<times> u64 \<times> u64 \<times> u64 \<times> u64 \<times> u64" where
  "bp_props bp = (BP_GET_LSIZE bp, BP_GET_PSIZE bp, BP_GET_COMPRESS bp, BP_GET_CHECKSUM bp, BP_GET_TYPE bp,
     BP_GET_LEVEL bp, BP_GET_BYTEORDER bp)"

lemmas bp_defs = BP_GET_LSIZE_def BP_GET_PSIZE_def BP_GET_COMPRESS_def BP_GET_CHECKSUM_def BP_GET_TYPE_def
  BP_GET_LEVEL_def BP_GET_BYTEORDER_def BP_SET_LSIZE_def BP_SET_PSIZE_def BP_SET_COMPRESS_def BP_SET_CHECKSUM_def
  BP_SET_TYPE_def BP_SET_LEVEL_def BP_SET_BYTEORDER_def BP_IS_HOLE_def

lemmas bp_fields = GET_SET_SB GET_SET_SB_other BF64_DECODE_SET BF64_DECODE_SET_other

section \<open>Properties of the block pointers\<close>



text \<open>C32: The fields of a DVA do not overlap: after setting the allocated size, grid, vdev, offset
  and gang bit, with values that fit, each reads back as it was set.  Any offset that is a
  multiple of the minimum block size fits.\<close>
theorem dva_set_get:
  assumes "sb_fits 24 0 asize" "take_bit 8 grid = grid" "take_bit 32 vdev = vdev"
    "take_bit SPA_MINBLOCKSHIFT offset = 0" "gang = 0 \<or> gang = 1"
  shows "let d = DVA_SET_GANG (DVA_SET_OFFSET (DVA_SET_VDEV (DVA_SET_GRID (DVA_SET_ASIZE dva asize) grid) vdev) offset) gang
    in DVA_GET_ASIZE d = asize \<and> DVA_GET_GRID d = grid \<and> DVA_GET_VDEV d = vdev \<and> DVA_GET_OFFSET d = offset \<and>
      DVA_GET_GANG d = gang"
proof -
  have "take_bit 63 (drop_bit SPA_MINBLOCKSHIFT offset) = drop_bit SPA_MINBLOCKSHIFT offset"
    by (rule bit_eqI) (auto simp: bit_simps SPA_MINBLOCKSHIFT_def dest: bit_imp_le_length)
  then have "sb_fits 63 0 offset" using assms(4) by (simp add: sb_fits_def)
  moreover have "take_bit 1 gang = gang" using assms(5) by auto
  ultimately show ?thesis using assms(1-3)
    unfolding Let_def DVA_GET_ASIZE_def DVA_GET_GRID_def DVA_GET_VDEV_def DVA_GET_OFFSET_def DVA_GET_GANG_def
      DVA_SET_ASIZE_def DVA_SET_GRID_def DVA_SET_VDEV_def DVA_SET_OFFSET_def DVA_SET_GANG_def
    by (simp add: bp_fields)
qed

theorem dva_set_get_witness:
  "let d = DVA_SET_GANG (DVA_SET_OFFSET (DVA_SET_VDEV (DVA_SET_GRID (DVA_SET_ASIZE
       \<lparr>dva_word0 = 0, dva_word1 = 0\<rparr> 1024) 0) 2) 1048576) 1
   in DVA_GET_ASIZE d = 1024 \<and> DVA_GET_GRID d = 0 \<and> DVA_GET_VDEV d = 2 \<and> DVA_GET_OFFSET d = 1048576 \<and>
     DVA_GET_GANG d = 1"
proof -
  have "sb_fits 24 0 1024" "take_bit 8 (0::u64) = 0" "take_bit 32 (2::u64) = 2"
    "take_bit SPA_MINBLOCKSHIFT (1048576::u64) = 0" "(1::u64) = 0 \<or> (1::u64) = 1"
    by (simp_all add: sb_fits_def SPA_MINBLOCKSHIFT_def take_bit_eq_mod drop_bit_eq_div)
  from dva_set_get [OF this] show ?thesis .
qed

end
