(* ===== verification/Compress.thy ===== *)
theory Compress
  imports Prelude
begin

section \<open>Compression\<close>

text \<open>
  The LZJB routines of \<^verbatim>\<open>fs/zfs/lzjb.c\<close> and their use in \<^verbatim>\<open>fs/zfs/zio_compress.c\<close>.

  Buffers are lists of bytes and pointers into them are indices.  Two things the
  compressor reads are not determined by its input: the address \<open>s_start\<close> of the
  source buffer, whose low bits go into the hash table, and the initial contents of
  that table, which is an uninitialised array.  Both are parameters, \<open>base\<close> and
  \<open>lempel\<close>.
\<close>

unbundle bit_operations_syntax

definition MATCH_BITS :: nat where "MATCH_BITS = 6"
definition MATCH_MIN :: nat where "MATCH_MIN = 3"
definition MATCH_MAX :: nat where "MATCH_MAX = 66"
definition OFFSET_MASK :: nat where "OFFSET_MASK = 1023"
definition LEMPEL_SIZE :: nat where "LEMPEL_SIZE = 256"

text \<open>\<open>for (mlen = MATCH_MIN; mlen < MATCH_MAX; mlen++) if (src[mlen] != cpy[mlen]) break;\<close>\<close>

function lzjb_match :: "u8 list \<Rightarrow> nat \<Rightarrow> nat \<Rightarrow> nat \<Rightarrow> nat" where
  "lzjb_match s src cpy mlen =
     (if \<not> mlen < MATCH_MAX then mlen
      else if s ! (src + mlen) \<noteq> s ! (cpy + mlen) then mlen
      else lzjb_match s src cpy (mlen + 1))"
  by pat_completeness auto

termination lzjb_match
  by (relation "measure (\<lambda>(s, src, cpy, mlen). MATCH_MAX - mlen)") auto

declare lzjb_match.simps [simp del]

lemma lzjb_match_ok:
  assumes "mlen \<le> MATCH_MAX"
  shows "mlen \<le> lzjb_match s src cpy mlen \<and> lzjb_match s src cpy mlen \<le> MATCH_MAX \<and>
    (\<forall>k. mlen \<le> k \<longrightarrow> k < lzjb_match s src cpy mlen \<longrightarrow> s ! (src + k) = s ! (cpy + k))"
  using assms
proof (induction s src cpy mlen rule: lzjb_match.induct)
  case (1 s src cpy mlen)
  show ?case
  proof (cases "mlen < MATCH_MAX \<and> s ! (src + mlen) = s ! (cpy + mlen)")
    case True
    then have IH: "mlen + 1 \<le> lzjb_match s src cpy (mlen + 1)" "lzjb_match s src cpy (mlen + 1) \<le> MATCH_MAX"
      "\<forall>k. mlen + 1 \<le> k \<longrightarrow> k < lzjb_match s src cpy (mlen + 1) \<longrightarrow> s ! (src + k) = s ! (cpy + k)"
      using "1.IH" by auto
    have "lzjb_match s src cpy mlen = lzjb_match s src cpy (mlen + 1)"
      using True by (subst lzjb_match.simps) simp
    moreover have "s ! (src + k) = s ! (cpy + k)" if "mlen \<le> k" "k < lzjb_match s src cpy (mlen + 1)" for k
      using IH(3) that True by (cases "k = mlen") auto
    ultimately show ?thesis using IH by auto
  next
    case False
    then have "lzjb_match s src cpy mlen = mlen" by (subst lzjb_match.simps) auto
    then show ?thesis using "1.prems" by simp
  qed
qed

text \<open>The table index; only the low eight bits of the \<open>int\<close> expression count.\<close>

definition lzjb_hash :: "u8 list \<Rightarrow> nat \<Rightarrow> nat" where
  "lzjb_hash s src = unat ((s ! src + 13) XOR (s ! (src + 1) - 13) XOR s ! (src + 2))"

text \<open>
  The loop of the compressor.  \<open>dst\<close> is what has been written, \<open>copymap\<close> the
  index of the current bit map in it.  The result is the return value and the
  bytes written.
\<close>

function lzjb_compress_loop ::
  "u64 \<Rightarrow> u8 list \<Rightarrow> nat \<Rightarrow> nat \<Rightarrow> u8 list \<Rightarrow> nat \<Rightarrow> nat \<Rightarrow> (nat \<Rightarrow> u16) \<Rightarrow> nat \<times> u8 list" where
  "lzjb_compress_loop base s d_len src dst copymask copymap lempel =
     (if \<not> src < length s then (length dst, dst)
      else
        let copymask = copymask * 2
        in
        if copymask = 256 \<and> int (length dst) \<ge> int d_len - 1 - 2 * 8 then
          (length s, if d_len \<noteq> length s then dst else s)
        else
          let (copymask, copymap, dst) =
                (if copymask = 256 then (1, length dst, dst @ [0]) else (copymask, copymap, dst))
          in
          if int src > int (length s) - int MATCH_MAX then
            lzjb_compress_loop base s d_len (src + 1) (dst @ [s ! src]) copymask copymap lempel
          else
            let hp = lzjb_hash s src;
                offset = unat ((base + of_nat src - ucast (lempel hp)) AND of_nat OFFSET_MASK);
                lempel = lempel(hp := ucast (base + of_nat src))
            in
            if offset \<le> src \<and> offset \<noteq> 0 \<and> s ! src = s ! (src - offset) \<and>
               s ! (src + 1) = s ! (src - offset + 1) \<and> s ! (src + 2) = s ! (src - offset + 2)
            then
              let dst = dst[copymap := dst ! copymap OR of_nat copymask];
                  mlen = lzjb_match s src (src - offset) MATCH_MIN
              in lzjb_compress_loop base s d_len (src + mlen)
                   (dst @ [of_nat (push_bit (8 - MATCH_BITS) (mlen - MATCH_MIN) OR drop_bit 8 offset),
                           of_nat offset]) copymask copymap lempel
            else
              lzjb_compress_loop base s d_len (src + 1) (dst @ [s ! src]) copymask copymap lempel)"
  by pat_completeness auto

lemma lzjb_match_pos [simp]: "0 < lzjb_match s src cpy MATCH_MIN" "lzjb_match s src cpy MATCH_MIN \<noteq> 0"
  using lzjb_match_ok [of MATCH_MIN s src cpy] by (auto simp: MATCH_MIN_def MATCH_MAX_def)

termination lzjb_compress_loop
  by (relation "measure (\<lambda>(base, s, d_len, src, _). length s - src)")
    (auto simp: diff_less_mono2)

definition lzjb_compress :: "u64 \<Rightarrow> (nat \<Rightarrow> u16) \<Rightarrow> u8 list \<Rightarrow> nat \<Rightarrow> nat \<times> u8 list" where
  "lzjb_compress base lempel s d_len = lzjb_compress_loop base s d_len 0 [] (2 ^ 7) 0 lempel"

text \<open>
  The decompressor does not look at the length of its source: a read past the end
  is \<open>LZ_overread\<close>.  The destination buffer has contents before, which a copy
  with offset 0 would read.
\<close>

datatype lzjb_result = LZ_overread | LZ_error | LZ_ok "u8 list"

fun lzjb_copy :: "nat \<Rightarrow> nat \<Rightarrow> nat \<Rightarrow> u8 list \<Rightarrow> nat \<times> u8 list" where
  "lzjb_copy 0 cpy dst d = (dst, d)"
| "lzjb_copy (Suc mlen) cpy dst d =
     (if dst < length d then lzjb_copy mlen (cpy + 1) (dst + 1) (d[dst := d ! cpy]) else (dst, d))"

lemma lzjb_copy_mono: "dst \<le> fst (lzjb_copy mlen cpy dst d)" "length (snd (lzjb_copy mlen cpy dst d)) = length d"
  by (induction mlen cpy dst d rule: lzjb_copy.induct) auto

function lzjb_decompress_loop ::
  "u8 list \<Rightarrow> nat \<Rightarrow> nat \<Rightarrow> u8 list \<Rightarrow> nat \<Rightarrow> u8 \<Rightarrow> lzjb_result" where
  "lzjb_decompress_loop s src dst d copymask copymap =
     (if \<not> dst < length d then LZ_ok d
      else
        let copymask = copymask * 2;
            new = (copymask = 256)
        in
        if new \<and> \<not> src < length s then LZ_overread
        else
          let copymap = (if new then s ! src else copymap);
              src = (if new then src + 1 else src);
              copymask = (if new then 1 else copymask)
          in
          if copymap AND of_nat copymask \<noteq> 0 then
            if \<not> src + 1 < length s then LZ_overread
            else
              let mlen = unat (drop_bit (8 - MATCH_BITS) (s ! src)) + MATCH_MIN;
                  offset = (push_bit 8 (unat (s ! src)) OR unat (s ! (src + 1))) AND OFFSET_MASK
              in
              if dst < offset then LZ_error
              else
                let (dst, d) = lzjb_copy mlen (dst - offset) dst d
                in lzjb_decompress_loop s (src + 2) dst d copymask copymap
          else if \<not> src < length s then LZ_overread
          else lzjb_decompress_loop s (src + 1) (dst + 1) (d[dst := s ! src]) copymask copymap)"
  by pat_completeness auto

lemma lzjb_copy_less: "dst < length d \<Longrightarrow> lzjb_copy (n + MATCH_MIN) cpy dst d = (dst', d') \<Longrightarrow> length d' - dst' < length d - dst"
  using lzjb_copy_mono [of "dst + 1" "n + 2" "cpy + 1" "d[dst := d ! cpy]"] lzjb_copy_mono(2) [of "n + 2" "cpy + 1" "dst + 1" "d[dst := d ! cpy]"]
  by (auto simp: MATCH_MIN_def numeral_3_eq_3)

termination lzjb_decompress_loop
  by (relation "measure (\<lambda>(s, src, dst, d, _). length d - dst)") (auto dest: lzjb_copy_less [OF _ sym])

definition lzjb_decompress :: "u8 list \<Rightarrow> u8 list \<Rightarrow> lzjb_result" where
  "lzjb_decompress s d = lzjb_decompress_loop s 0 0 d (2 ^ 7) 0"

declare lzjb_compress_loop.simps [simp del] lzjb_decompress_loop.simps [simp del]

section \<open>Correctness of the compression\<close>

subsection \<open>Tokens\<close>

datatype lz_token = Lit u8 | Match nat nat

fun is_match :: "lz_token \<Rightarrow> bool" where
  "is_match (Lit b) = False"
| "is_match (Match mlen offset) = True"

fun tok_bytes :: "lz_token \<Rightarrow> u8 list" where
  "tok_bytes (Lit b) = [b]"
| "tok_bytes (Match mlen offset) =
     [of_nat (push_bit (8 - MATCH_BITS) (mlen - MATCH_MIN) OR drop_bit 8 offset), of_nat offset]"

text \<open>What a token appends to the data before it.\<close>

fun copy_out :: "nat \<Rightarrow> nat \<Rightarrow> 'a list \<Rightarrow> 'a list" where
  "copy_out 0 offset xs = xs"
| "copy_out (Suc mlen) offset xs = copy_out mlen offset (xs @ [xs ! (length xs - offset)])"

fun expand_tok :: "u8 list \<Rightarrow> lz_token \<Rightarrow> u8 list" where
  "expand_tok xs (Lit b) = xs @ [b]"
| "expand_tok xs (Match mlen offset) = copy_out mlen offset xs"

fun tok_ok :: "u8 list \<Rightarrow> lz_token \<Rightarrow> bool" where
  "tok_ok xs (Lit b) = True"
| "tok_ok xs (Match mlen offset) =
     (MATCH_MIN \<le> mlen \<and> mlen \<le> MATCH_MAX \<and> 0 < offset \<and> offset \<le> OFFSET_MASK \<and> offset \<le> length xs)"

fun toks_ok :: "u8 list \<Rightarrow> lz_token list \<Rightarrow> bool" where
  "toks_ok xs [] = True"
| "toks_ok xs (t # ts) = (tok_ok xs t \<and> toks_ok (expand_tok xs t) ts)"

abbreviation expand :: "u8 list \<Rightarrow> lz_token list \<Rightarrow> u8 list" where
  "expand xs ts \<equiv> foldl expand_tok xs ts"

lemma toks_ok_append: "toks_ok xs (ts @ us) \<longleftrightarrow> toks_ok xs ts \<and> toks_ok (expand xs ts) us"
  by (induction ts arbitrary: xs) auto

lemma length_copy_out [simp]: "length (copy_out mlen offset xs) = length xs + mlen"
  by (induction mlen arbitrary: xs) auto

text \<open>Eight tokens go under one bit map.\<close>

fun group_map :: "lz_token list \<Rightarrow> nat" where
  "group_map [] = 0"
| "group_map (t # ts) = of_bool (is_match t) + 2 * group_map ts"

definition enc_group :: "lz_token list \<Rightarrow> u8 list" where
  "enc_group ts = of_nat (group_map ts) # concat (map tok_bytes ts)"

lemma group_map_bound: "group_map ts < 2 ^ length ts"
  by (induction ts) auto

lemma bit_group_map: "bit (group_map ts) i \<longleftrightarrow> i < length ts \<and> is_match (ts ! i)"
proof (induction ts arbitrary: i)
  case (Cons t ts)
  then show ?case by (cases i) (auto simp: bit_Suc bit_0)
qed simp

lemma bit_group_map_u8:
  "length ts \<le> 8 \<Longrightarrow> bit (of_nat (group_map ts) :: u8) i \<longleftrightarrow> i < length ts \<and> is_match (ts ! i)"
  by (auto simp: bit_of_nat_iff bit_group_map)

lemma group_map_snoc: "group_map (ts @ [t]) = group_map ts + of_bool (is_match t) * 2 ^ length ts"
  by (induction ts) auto

lemma group_map_snoc_u8:
  "length ts < 8 \<Longrightarrow> (of_nat (group_map (ts @ [Match m f])) :: u8) = of_nat (group_map ts) OR of_nat (2 ^ length ts)"
  by (rule bit_eqI) (auto simp: bit_group_map_u8 bit_group_map bit_simps nth_append)

subsection \<open>The bytes of a match\<close>

lemma or_eq_add: "b < 2 ^ k \<Longrightarrow> push_bit k a OR b = a * 2 ^ k + b" for a b :: nat
proof -
  assume "b < 2 ^ k"
  then have "take_bit k b = b" by (simp add: take_bit_nat_eq_self)
  then have "\<not> bit (push_bit k a) n \<or> \<not> bit b n" for n by (metis bit_push_bit_iff_nat bit_take_bit_iff not_less)
  then show ?thesis by (simp add: disjunctive_add [symmetric] push_bit_eq_mult)
qed

lemma and_1023: "x AND 1023 = x mod 1024" for x :: nat
  using take_bit_eq_mask [of 10 x] by (simp add: mask_eq_exp_minus_1 take_bit_eq_mod)

lemma match_bytes:
  assumes "MATCH_MIN \<le> mlen" "mlen \<le> MATCH_MAX" "offset \<le> OFFSET_MASK"
    and b: "tok_bytes (Match mlen offset) = [b0, b1]"
  shows "unat (drop_bit (8 - MATCH_BITS) b0) + MATCH_MIN = mlen"
    "(push_bit 8 (unat b0) OR unat b1) AND OFFSET_MASK = offset"
proof -
  let ?h = "offset div 256"
  have h: "?h < 4" "mlen - 3 < 64" using assms(1-3) by (auto simp: OFFSET_MASK_def MATCH_MIN_def MATCH_MAX_def)
  have "push_bit (8 - MATCH_BITS) (mlen - MATCH_MIN) OR drop_bit 8 offset = (mlen - 3) * 2 ^ 2 + ?h"
    using h or_eq_add [of ?h 2 "mlen - 3"] by (simp add: MATCH_BITS_def MATCH_MIN_def drop_bit_eq_div)
  then have "b0 = of_nat ((mlen - 3) * 4 + ?h)" and b1': "b1 = of_nat offset" using b by simp_all
  moreover have "unat (of_nat n :: u8) = n mod 256" for n by (simp add: unat_of_nat take_bit_eq_mod)
  ultimately have b0: "unat b0 = (mlen - 3) * 4 + ?h" and b1: "unat b1 = offset mod 256"
    using h by (simp_all del: of_nat_add of_nat_mult)
  show "unat (drop_bit (8 - MATCH_BITS) b0) + MATCH_MIN = mlen"
    using h assms(1) b0 by (simp add: unat_drop_bit_eq MATCH_BITS_def MATCH_MIN_def drop_bit_nat_def)
  have "push_bit 8 (unat b0) OR unat b1 = unat b0 * 2 ^ 8 + unat b1"
    by (rule or_eq_add) (simp add: b1)
  also have "\<dots> = (mlen - 3) * 1024 + offset" by (simp add: b0 b1 algebra_simps)
  finally have "(push_bit 8 (unat b0) OR unat b1) AND OFFSET_MASK = ((mlen - 3) * 1024 + offset) mod 2 ^ 10"
    by (simp add: OFFSET_MASK_def and_1023)
  then show "(push_bit 8 (unat b0) OR unat b1) AND OFFSET_MASK = offset"
    using assms(3) by (simp add: OFFSET_MASK_def)
qed

subsection \<open>Decompression\<close>

lemma lzjb_copy_expand:
  assumes "0 < offset" "offset \<le> dst" "dst + mlen \<le> length d"
  shows "\<exists>d'. lzjb_copy mlen (dst - offset) dst d = (dst + mlen, d') \<and> length d' = length d \<and>
    take (dst + mlen) d' = copy_out mlen offset (take dst d)"
  using assms
proof (induction mlen arbitrary: dst d)
  case (Suc mlen)
  let ?d = "d[dst := d ! (dst - offset)]"
  have "take (dst + 1) ?d = take dst d @ [take dst d ! (length (take dst d) - offset)]"
    using Suc.prems by (simp add: take_Suc_conv_app_nth min_def)
  moreover have "dst + 1 - offset = dst - offset + 1" using Suc.prems by simp
  ultimately show ?case using Suc.IH [of "dst + 1" ?d] Suc.prems by simp
qed simp

lemma expand_tok_length: "tok_ok xs t \<Longrightarrow> length xs < length (expand_tok xs t)"
  by (cases t) (auto simp: MATCH_MIN_def)

lemma expand_length: "toks_ok xs ts \<Longrightarrow> length xs \<le> length (expand xs ts)"
proof (induction ts arbitrary: xs)
  case (Cons t ts)
  have "length xs < length (expand_tok xs t)" using Cons.prems by (intro expand_tok_length) simp
  moreover have "length (expand_tok xs t) \<le> length (expand (expand_tok xs t) ts)"
    using Cons.prems by (intro Cons.IH) simp
  ultimately show ?case by simp
qed simp

lemma drop_plus: "drop (a + b) s = drop b (drop a s)"
  by (simp add: add.commute)

lemma drop_nthD:
  assumes "drop n xs = y # ys"
  shows "n < length xs" "xs ! n = y" "drop (n + 1) xs = ys" "drop (Suc n) xs = ys"
proof -
  show n: "n < length xs" using assms by (metis drop_all list.distinct(1) not_less)
  then have "drop n xs = xs ! n # drop (Suc n) xs" by (rule Cons_nth_drop_Suc [symmetric])
  then show "xs ! n = y" "drop (n + 1) xs = ys" "drop (Suc n) xs = ys" using assms by simp_all
qed

lemma and_exp_bit: "w AND of_nat (2 ^ i) \<noteq> 0 \<longleftrightarrow> bit w i" for w :: u8
  by (simp add: bit_iff_and_push_bit_not_eq_0 push_bit_eq_mult)

text \<open>The state of the decompressor before a token: the copy mask has been through \<open>i\<close>
  tokens of the group.\<close>

definition mask_before :: "nat \<Rightarrow> nat" where
  "mask_before i = (if i = 0 then 2 ^ 7 else 2 ^ (i - 1))"

lemma mask_before_simps: "i < 8 \<Longrightarrow> mask_before i * 2 = (if i = 0 then 256 else 2 ^ i)"
  "i < 8 \<Longrightarrow> mask_before (Suc i) = 2 ^ i" "mask_before 8 = mask_before 0"
  by (cases i; simp add: mask_before_def)+

text \<open>The body of the loop once the bit map of the group is there.\<close>

definition decompress_body :: "u8 list \<Rightarrow> nat \<Rightarrow> nat \<Rightarrow> u8 list \<Rightarrow> nat \<Rightarrow> u8 \<Rightarrow> lzjb_result" where
  "decompress_body s src dst d copymask copymap =
     (if copymap AND of_nat copymask \<noteq> 0 then
        if \<not> src + 1 < length s then LZ_overread
        else
          let mlen = unat (drop_bit (8 - MATCH_BITS) (s ! src)) + MATCH_MIN;
              offset = (push_bit 8 (unat (s ! src)) OR unat (s ! (src + 1))) AND OFFSET_MASK
          in
          if dst < offset then LZ_error
          else
            let (dst, d) = lzjb_copy mlen (dst - offset) dst d
            in lzjb_decompress_loop s (src + 2) dst d copymask copymap
      else if \<not> src < length s then LZ_overread
      else lzjb_decompress_loop s (src + 1) (dst + 1) (d[dst := s ! src]) copymask copymap)"

definition group_head :: "nat \<Rightarrow> u8 \<Rightarrow> u8 list" where
  "group_head i m = (if i = 0 then [m] else [])"

lemma decompress_head:
  assumes i: "i < 8" "0 < i \<Longrightarrow> copymap = m" and dst: "dst < length d" and src: "drop src s = group_head i m @ rest"
  shows "lzjb_decompress_loop s src dst d (mask_before i) copymap =
    decompress_body s (src + length (group_head i m)) dst d (2 ^ i) m"
proof (cases "i = 0")
  case True
  then have "src < length s" "s ! src = m" using src drop_nthD [of src s m rest] by (auto simp: group_head_def)
  then show ?thesis unfolding lzjb_decompress_loop.simps [of s src dst d] decompress_body_def Let_def
    using True dst by (simp add: mask_before_simps(1) group_head_def)
next
  case False
  have "(2::nat) ^ i < 2 ^ 8" using i(1) by (rule power_strict_increasing) simp
  then show ?thesis unfolding lzjb_decompress_loop.simps [of s src dst d] decompress_body_def Let_def
    using False dst i by (simp add: mask_before_simps(1) group_head_def)
qed

lemma decompress_body_token:
  assumes tok: "tok_ok xs t" and bit: "bit m i \<longleftrightarrow> is_match t" and src: "drop src s = tok_bytes t @ rest"
    and d: "take dst d = xs" "dst = length xs" "length (expand_tok xs t) \<le> length d"
  shows "\<exists>d'. decompress_body s src dst d (2 ^ i) m =
      lzjb_decompress_loop s (src + length (tok_bytes t)) (length (expand_tok xs t)) d' (2 ^ i) m \<and>
    length d' = length d \<and> take (length (expand_tok xs t)) d' = expand_tok xs t"
proof (cases t)
  case (Lit b)
  have lt: "dst < length d" using expand_tok_length [OF tok] d by simp
  have sb: "src < length s" "s ! src = b" using src Lit drop_nthD [of src s b rest] by auto
  have "decompress_body s src dst d (2 ^ i) m = lzjb_decompress_loop s (src + 1) (dst + 1) (d[dst := b]) (2 ^ i) m"
    unfolding decompress_body_def and_exp_bit using sb bit Lit by simp
  moreover have "take (dst + 1) (d[dst := b]) = xs @ [b]" using lt d by (simp add: take_Suc_conv_app_nth)
  ultimately show ?thesis using Lit d by (intro exI [of _ "d[dst := b]"]) simp
next
  case (Match mlen offset)
  obtain b0 b1 where b: "tok_bytes t = [b0, b1]" using Match by simp
  have sb: "Suc src < length s" "s ! src = b0" "s ! Suc src = b1"
    using src b drop_nthD [of src s b0 "b1 # rest"] drop_nthD [of "Suc src" s b1 rest] by auto
  have ok: "MATCH_MIN \<le> mlen" "mlen \<le> MATCH_MAX" "offset \<le> OFFSET_MASK" "0 < offset" "offset \<le> dst"
    using tok Match d by auto
  obtain d' where d': "lzjb_copy mlen (dst - offset) dst d = (dst + mlen, d')" "length d' = length d"
    "take (dst + mlen) d' = copy_out mlen offset (take dst d)"
    using lzjb_copy_expand [OF ok(4,5), of mlen d] d Match by auto
  have "decompress_body s src dst d (2 ^ i) m = lzjb_decompress_loop s (src + 2) (dst + mlen) d' (2 ^ i) m"
    unfolding decompress_body_def and_exp_bit
    using sb ok(5) d'(1) bit Match match_bytes [OF ok(1-3) b [unfolded Match]] by (simp add: Let_def)
  then show ?thesis using Match d d' b by (intro exI [of _ d']) simp
qed

lemma decompress_tokens:
  assumes "toks_ok xs ts" "ts \<noteq> []" "i + length ts \<le> 8" "0 < i \<Longrightarrow> copymap = m"
    "\<forall>k < length ts. bit m (i + k) \<longleftrightarrow> is_match (ts ! k)"
    "drop src s = group_head i m @ concat (map tok_bytes ts) @ rest"
    "take dst d = xs" "dst = length xs" "length (expand xs ts) \<le> length d"
  shows "\<exists>d'. lzjb_decompress_loop s src dst d (mask_before i) copymap =
      lzjb_decompress_loop s (src + length (group_head i m) + length (concat (map tok_bytes ts)))
        (length (expand xs ts)) d' (mask_before (i + length ts)) m \<and>
    length d' = length d \<and> take (length (expand xs ts)) d' = expand xs ts"
  using assms
proof (induction ts arbitrary: xs i src dst d copymap)
  case (Cons t ts)
  let ?xs = "expand_tok xs t" and ?src = "src + length (group_head i m)"
  have tok: "tok_ok xs t" and toks: "toks_ok ?xs ts" using Cons.prems(1) by auto
  have len: "length xs < length ?xs" "length ?xs \<le> length d"
    using expand_tok_length [OF tok] expand_length [OF toks] Cons.prems(9) by auto
  have src: "drop ?src s = tok_bytes t @ concat (map tok_bytes ts) @ rest"
    unfolding drop_plus using Cons.prems(6) by simp
  have bit: "bit m i \<longleftrightarrow> is_match t" using Cons.prems(5) by (auto dest: spec [of _ 0])
  have i: "i < 8" using Cons.prems(3) by simp
  have "dst < length d" using Cons.prems(8) len by simp
  from decompress_head [OF i Cons.prems(4) this Cons.prems(6)]
  have head: "lzjb_decompress_loop s src dst d (mask_before i) copymap = decompress_body s ?src dst d (2 ^ i) m" by simp
  obtain d' where d': "decompress_body s ?src dst d (2 ^ i) m =
      lzjb_decompress_loop s (?src + length (tok_bytes t)) (length ?xs) d' (2 ^ i) m"
    "length d' = length d" "take (length ?xs) d' = ?xs"
    using decompress_body_token [OF tok bit src Cons.prems(7,8) len(2)] by blast
  have mask: "mask_before (Suc i) = 2 ^ i" using i by (rule mask_before_simps)
  show ?case
  proof (cases "ts = []")
    case True
    then show ?thesis using head d' mask by (intro exI [of _ d']) simp
  next
    case False
    have "drop (?src + length (tok_bytes t)) s = group_head (Suc i) m @ concat (map tok_bytes ts) @ rest"
      unfolding drop_plus [of ?src] using src by (simp add: group_head_def)
    moreover have "\<forall>k < length ts. bit m (Suc i + k) \<longleftrightarrow> is_match (ts ! k)"
      using Cons.prems(5) by (auto dest: spec [of _ "Suc _"])
    ultimately obtain d'' where "lzjb_decompress_loop s (?src + length (tok_bytes t)) (length ?xs) d' (mask_before (Suc i)) m =
      lzjb_decompress_loop s (?src + length (tok_bytes t) + length (group_head (Suc i) m) + length (concat (map tok_bytes ts)))
        (length (expand ?xs ts)) d'' (mask_before (Suc i + length ts)) m"
      "length d'' = length d'" "take (length (expand ?xs ts)) d'' = expand ?xs ts"
      using Cons.IH [OF toks False _ _ _ _ d'(3) refl, of "Suc i" m "?src + length (tok_bytes t)"] Cons.prems(3,9) d'(2) by auto
    then show ?thesis using head d' mask by (intro exI [of _ d'']) (simp add: group_head_def add.assoc)
  qed
qed simp

definition groups_ok :: "lz_token list list \<Rightarrow> bool" where
  "groups_ok gs \<longleftrightarrow> (\<forall>g\<in>set (butlast gs). length g = 8) \<and> (\<forall>g\<in>set gs. g \<noteq> [] \<and> length g \<le> 8)"

lemma groups_ok_Cons: "groups_ok (g # gs) \<longleftrightarrow> g \<noteq> [] \<and> length g \<le> 8 \<and> (gs \<noteq> [] \<longrightarrow> length g = 8) \<and> groups_ok gs"
  by (auto simp: groups_ok_def)

lemma groups_ok_snoc: "groups_ok (gs @ [g]) \<longleftrightarrow> (\<forall>f\<in>set gs. length f = 8) \<and> g \<noteq> [] \<and> length g \<le> 8"
  by (auto simp: groups_ok_def)

abbreviation enc_groups :: "lz_token list list \<Rightarrow> u8 list" where
  "enc_groups gs \<equiv> concat (map enc_group gs)"

lemma decompress_groups:
  assumes "groups_ok gs" "toks_ok xs (concat gs)" "drop src s = enc_groups gs @ rest"
    "take dst d = xs" "dst = length xs" "length (expand xs (concat gs)) = length d"
  shows "lzjb_decompress_loop s src dst d (mask_before 0) copymap = LZ_ok (expand xs (concat gs))"
  using assms
proof (induction gs arbitrary: xs src dst d copymap)
  case Nil
  have "dst = length d" using Nil.prems(5,6) by simp
  moreover from this have "d = xs" using Nil.prems(4) by simp
  ultimately have "\<not> dst < length d" "d = xs" by simp_all
  then show ?case by (simp only: lzjb_decompress_loop.simps [of s src] concat.simps foldl.simps if_True not_False_eq_True)
next
  case (Cons g gs)
  let ?m = "of_nat (group_map g) :: u8" and ?xs = "expand xs g"
  have g: "g \<noteq> []" "length g \<le> 8" "gs \<noteq> [] \<longrightarrow> length g = 8" and gs: "groups_ok gs"
    using Cons.prems(1) by (auto simp: groups_ok_Cons)
  have toks: "toks_ok xs g" "toks_ok ?xs (concat gs)" using Cons.prems(2) by (auto simp: toks_ok_append)
  have len: "length ?xs \<le> length d" using expand_length [OF toks(2)] Cons.prems(6) by simp
  have "\<exists>d'. lzjb_decompress_loop s src dst d (mask_before 0) copymap =
      lzjb_decompress_loop s (src + length (group_head 0 ?m) + length (concat (map tok_bytes g)))
        (length ?xs) d' (mask_before (0 + length g)) ?m \<and> length d' = length d \<and> take (length ?xs) d' = ?xs"
    using g(2) Cons.prems(3)
    by (intro decompress_tokens [OF toks(1) g(1) _ _ _ _ Cons.prems(4,5) len, where rest = "enc_groups gs @ rest"])
      (auto simp: bit_group_map_u8 group_head_def enc_group_def [of g])
  then obtain d' where d': "lzjb_decompress_loop s src dst d (mask_before 0) copymap =
      lzjb_decompress_loop s (src + length (enc_group g)) (length ?xs) d' (mask_before (length g)) ?m"
    "length d' = length d" "take (length ?xs) d' = ?xs" by (auto simp: group_head_def enc_group_def [of g])
  show ?case
  proof (cases "gs = []")
    case True
    then have full: "length ?xs = length d'" using Cons.prems(6) d'(2) by simp
    then have "d' = ?xs" using d'(3) by simp
    moreover have "\<not> length ?xs < length d'" using full by simp
    then have "lzjb_decompress_loop s (src + length (enc_group g)) (length ?xs) d' (mask_before (length g)) ?m = LZ_ok d'"
      by (simp only: lzjb_decompress_loop.simps [of s _ "length ?xs"] if_True not_False_eq_True)
    ultimately show ?thesis using d'(1) True by simp
  next
    case False
    have "lzjb_decompress_loop s (src + length (enc_group g)) (length ?xs) d' (mask_before 0) ?m =
        LZ_ok (expand ?xs (concat gs))"
      using Cons.prems(3,6) d'
      by (intro Cons.IH [OF gs toks(2) _ d'(3) refl]) (simp_all add: drop_plus)
    then show ?thesis using d'(1) g(3) False by (simp add: mask_before_simps(3))
  qed
qed

subsection \<open>The compressor writes tokens\<close>

text \<open>Adding a token to the groups.\<close>

definition add_tok :: "lz_token list list \<Rightarrow> lz_token \<Rightarrow> lz_token list list" where
  "add_tok gs t = (if gs = [] \<or> length (last gs) = 8 then gs @ [[t]] else butlast gs @ [last gs @ [t]])"

lemma concat_add_tok: "concat (add_tok gs t) = concat gs @ [t]"
proof (cases "gs = [] \<or> length (last gs) = 8")
  case False
  then show ?thesis
    by (simp add: add_tok_def) (metis append_butlast_last_id concat.simps(1,2) concat_append append_Nil2 append_assoc)
qed (simp add: add_tok_def)

lemma groups_ok_add_tok: "groups_ok gs \<Longrightarrow> groups_ok (add_tok gs t)"
proof (cases "gs = [] \<or> length (last gs) = 8")
  case False
  assume ok: "groups_ok gs"
  obtain fs g where gs: "gs = fs @ [g]" using False by (cases gs rule: rev_cases) auto
  then show ?thesis using ok False by (auto simp: add_tok_def groups_ok_snoc)
next
  case True
  assume ok: "groups_ok gs"
  have "length f = 8" if "f \<in> set gs" for f
  proof -
    obtain fs g where gs: "gs = fs @ [g]" using \<open>f \<in> set gs\<close> by (cases gs rule: rev_cases) auto
    then show ?thesis using True ok that by (auto simp: groups_ok_snoc)
  qed
  then show ?thesis using True by (auto simp: add_tok_def groups_ok_snoc)
qed

text \<open>The state of the compressor and the groups of tokens it has written.\<close>

definition lz_state :: "u8 list \<Rightarrow> nat \<Rightarrow> u8 list \<Rightarrow> nat \<Rightarrow> nat \<Rightarrow> lz_token list list \<Rightarrow> bool" where
  "lz_state s src dst copymask copymap gs \<longleftrightarrow>
     src \<le> length s \<and> dst = enc_groups gs \<and> groups_ok gs \<and> toks_ok [] (concat gs) \<and>
     expand [] (concat gs) = take src s \<and>
     copymask = (if gs = [] then 2 ^ 7 else 2 ^ (length (last gs) - 1)) \<and>
     (gs \<noteq> [] \<longrightarrow> copymap = length (enc_groups (butlast gs)))"

text \<open>What the code writes for a token, after the start of a group if there is one.\<close>

definition put_tok :: "u8 list \<Rightarrow> nat \<Rightarrow> nat \<Rightarrow> lz_token \<Rightarrow> u8 list" where
  "put_tok dst copymask copymap t =
     (if is_match t then dst[copymap := dst ! copymap OR of_nat copymask] else dst) @ tok_bytes t"

lemma put_tok_enc:
  assumes "length g < 8"
  shows "put_tok (xs @ enc_group g) (2 ^ length g) (length xs) t = xs @ enc_group (g @ [t])"
proof (cases t)
  case (Match m f)
  then show ?thesis using group_map_snoc_u8 [OF assms, of m f]
    by (simp add: put_tok_def enc_group_def list_update_append)
qed (simp add: put_tok_def enc_group_def group_map_snoc)

lemma lz_state_step:
  assumes state: "lz_state s src dst copymask copymap gs"
    and tok: "tok_ok (take src s) t" "expand_tok (take src s) t = take src' s" "src' \<le> length s"
    and new: "(copymask', copymap', dst') = (if copymask * 2 = 256 then (1, length dst, dst @ [0]) else (copymask * 2, copymap, dst))"
  shows "lz_state s src' (put_tok dst' copymask' copymap' t) copymask' copymap' (add_tok gs t)"
proof -
  have st: "dst = enc_groups gs" "groups_ok gs" "toks_ok [] (concat gs)" "expand [] (concat gs) = take src s"
    "copymask = (if gs = [] then 2 ^ 7 else 2 ^ (length (last gs) - 1))"
    "gs \<noteq> [] \<Longrightarrow> copymap = length (enc_groups (butlast gs))"
    using state by (auto simp: lz_state_def)
  have "put_tok dst' copymask' copymap' t = enc_groups (add_tok gs t) \<and>
    copymask' = 2 ^ (length (last (add_tok gs t)) - 1) \<and> copymap' = length (enc_groups (butlast (add_tok gs t)))"
  proof (cases "gs = [] \<or> length (last gs) = 8")
    case True
    then have "copymask * 2 = 256" using st(5) by auto
    then have n: "copymask' = 1" "copymap' = length dst" "dst' = dst @ enc_group []"
      using new by (simp_all add: enc_group_def)
    then show ?thesis using True put_tok_enc [of "[]" dst t] st(1) by (simp add: add_tok_def)
  next
    case False
    then obtain fs g where gs: "gs = fs @ [g]" by (metis append_butlast_last_id)
    have g: "g \<noteq> []" "length g < 8" using False st(2) gs by (auto simp: groups_ok_snoc)
    then have cm: "copymask * 2 = 2 ^ length g" using st(5) gs by (cases g) auto
    have "(2::nat) ^ length g < 2 ^ 8" using g(2) by (rule power_strict_increasing) simp
    then have n: "copymask' = 2 ^ length g" "copymap' = length (enc_groups fs)" "dst' = enc_groups fs @ enc_group g"
      using new cm st(1,6) gs by simp_all
    then show ?thesis using False gs put_tok_enc [OF g(2), of "enc_groups fs" t] by (simp add: add_tok_def)
  qed
  moreover have "add_tok gs t \<noteq> []" by (simp add: add_tok_def)
  ultimately show ?thesis unfolding lz_state_def using st tok groups_ok_add_tok
    by (auto simp: concat_add_tok toks_ok_append)
qed


lemma copy_out_take:
  assumes "0 < offset" "offset \<le> n" "n + mlen \<le> length s" "\<And>k. k < mlen \<Longrightarrow> s ! (n + k) = s ! (n - offset + k)"
  shows "copy_out mlen offset (take n s) = take (n + mlen) s"
  using assms
proof (induction mlen arbitrary: n)
  case (Suc mlen)
  have "take n s @ [take n s ! (length (take n s) - offset)] = take (n + 1) s"
    using Suc.prems(1-3) Suc.prems(4) [of 0] by (simp add: take_Suc_conv_app_nth min_def)
  moreover have "s ! (n + 1 + k) = s ! (n + 1 - offset + k)" if "k < mlen" for k
    using Suc.prems(4) [of "Suc k"] Suc.prems(2) that by (simp add: Suc_diff_le)
  ultimately show ?case using Suc.IH [of "n + 1"] Suc.prems(1-3) by simp
qed simp

lemma and_mask_bound: "unat ((w :: u64) AND of_nat OFFSET_MASK) \<le> OFFSET_MASK"
proof -
  have "w AND of_nat OFFSET_MASK = take_bit 10 w"
    by (simp add: OFFSET_MASK_def take_bit_eq_mask mask_eq_exp_minus_1)
  moreover have "unat (take_bit 10 w) = take_bit 10 (unat w)" by (simp add: unsigned_take_bit_eq)
  moreover have "take_bit 10 (unat w) < 2 ^ 10" by (rule take_bit_nat_less_exp)
  ultimately show ?thesis by (simp add: OFFSET_MASK_def)
qed

lemma compress_loop_tokens:
  assumes "lz_state s src dst copymask copymap gs"
    "lzjb_compress_loop base s d_len src dst copymask copymap lempel = (r, out)" "r \<noteq> length s"
  shows "\<exists>gs' cm cp. lz_state s (length s) out cm cp gs' \<and> r = length out"
  using assms
proof (induction "length s - src" arbitrary: src dst copymask copymap lempel gs rule: less_induct)
  case less
  note unfold = less.prems(2) [unfolded lzjb_compress_loop.simps [of base s d_len src] Let_def]
  show ?case
  proof (cases "src < length s")
    case False
    then have "src = length s" using less.prems(1) by (simp add: lz_state_def)
    then show ?thesis using unfold False less.prems(1) by auto
  next
    case True
    have nofall: "\<not> (copymask * 2 = 256 \<and> int (length dst) \<ge> int d_len - 1 - 2 * 8)"
      using unfold True less.prems(3) by (auto split: if_splits)
    obtain cm cp dst1 where new: "(cm, cp, dst1) = (if copymask * 2 = 256 then (1, length dst, dst @ [0]) else (copymask * 2, copymap, dst))"
      by (metis prod_cases3)
    note step = lz_state_step [OF less.prems(1) _ _ _ new]
    have lit: "\<exists>gs' cm cp. lz_state s (length s) out cm cp gs' \<and> r = length out"
      if "lzjb_compress_loop base s d_len (src + 1) (dst1 @ [s ! src]) cm cp lempel' = (r, out)" for lempel'
    proof -
      have "lz_state s (src + 1) (put_tok dst1 cm cp (Lit (s ! src))) cm cp (add_tok gs (Lit (s ! src)))"
        using True by (intro step) (simp_all add: take_Suc_conv_app_nth)
      then show ?thesis using less.hyps [OF _ _ that less.prems(3)] True by (simp add: put_tok_def)
    qed
    let ?off = "unat ((base + of_nat src - ucast (lempel (lzjb_hash s src))) AND of_nat OFFSET_MASK)"
    let ?mlen = "lzjb_match s src (src - ?off) MATCH_MIN"
    have match: "\<exists>gs' cm cp. lz_state s (length s) out cm cp gs' \<and> r = length out"
      if loop: "lzjb_compress_loop base s d_len (src + ?mlen) (put_tok dst1 cm cp (Match ?mlen ?off)) cm cp lempel' = (r, out)"
        and cond: "?off \<le> src" "?off \<noteq> 0" "s ! src = s ! (src - ?off)" "s ! (src + 1) = s ! (src - ?off + 1)"
          "s ! (src + 2) = s ! (src - ?off + 2)" and room: "\<not> int src > int (length s) - int MATCH_MAX" for lempel'
    proof -
      have m: "MATCH_MIN \<le> ?mlen" "?mlen \<le> MATCH_MAX"
        "\<And>k. MATCH_MIN \<le> k \<Longrightarrow> k < ?mlen \<Longrightarrow> s ! (src + k) = s ! (src - ?off + k)"
        using lzjb_match_ok [of MATCH_MIN s src "src - ?off"] by (auto simp: MATCH_MIN_def MATCH_MAX_def)
      have eq: "s ! (src + k) = s ! (src - ?off + k)" if "k < ?mlen" for k
      proof (cases "MATCH_MIN \<le> k")
        case False
        then have "k = 0 \<or> k = 1 \<or> k = 2" unfolding MATCH_MIN_def by arith
        then consider "k = 0" | "k = 1" | "k = 2" by blast
        then show ?thesis using cond by cases auto
      qed (use m that in auto)
      have le: "src + ?mlen \<le> length s" using room m(2) by linarith
      have "lz_state s (src + ?mlen) (put_tok dst1 cm cp (Match ?mlen ?off)) cm cp (add_tok gs (Match ?mlen ?off))"
        using cond m and_mask_bound le eq True
        by (intro step) (auto simp: copy_out_take)
      moreover have "length s - (src + ?mlen) < length s - src"
        using True lzjb_match_pos(1) [of s src "src - ?off"] by linarith
      ultimately show ?thesis using less.hyps [OF _ _ loop less.prems(3)] by blast
    qed
    let ?lempel = "lempel(lzjb_hash s src := ucast (base + of_nat src))"
    let ?cond = "?off \<le> src \<and> ?off \<noteq> 0 \<and> s ! src = s ! (src - ?off) \<and>
      s ! (src + 1) = s ! (src - ?off + 1) \<and> s ! (src + 2) = s ! (src - ?off + 2)"
    have body: "(if int src > int (length s) - int MATCH_MAX
        then lzjb_compress_loop base s d_len (src + 1) (dst1 @ [s ! src]) cm cp lempel
        else if ?cond
        then lzjb_compress_loop base s d_len (src + ?mlen) (put_tok dst1 cm cp (Match ?mlen ?off)) cm cp ?lempel
        else lzjb_compress_loop base s d_len (src + 1) (dst1 @ [s ! src]) cm cp ?lempel) = (r, out)"
      using unfold True nofall unfolding new [symmetric] put_tok_def
      by (simp only: not_True_eq_False if_False is_match.simps tok_bytes.simps if_True prod.case)
    consider (end') "int src > int (length s) - int MATCH_MAX" | (match) "\<not> int src > int (length s) - int MATCH_MAX" ?cond
      | (lit) "\<not> int src > int (length s) - int MATCH_MAX" "\<not> ?cond" by blast
    then show ?thesis
    proof cases
      case end'
      show ?thesis by (rule lit, insert body end', simp only: if_True)
    next
      case match': match
      show ?thesis
        by (rule match, insert body match', simp_all only: if_True if_False simp_thms)
    next
      case lit': lit
      show ?thesis by (rule lit, insert body lit', simp only: if_False)
    qed
  qed
qed

text \<open>The stream that the compressor writes, whatever follows it, expands to the source.\<close>

lemma lzjb_roundtrip:
  assumes "lzjb_compress base lempel s d_len = (r, out)" "r \<noteq> length s" "length d = length s"
  shows "r = length out" "lzjb_decompress (out @ rest) d = LZ_ok s"
proof -
  have "lz_state s 0 [] (2 ^ 7) 0 []" by (simp add: lz_state_def groups_ok_def)
  then obtain gs cm cp where gs: "lz_state s (length s) out cm cp gs" and r: "r = length out"
    using compress_loop_tokens assms(1,2) unfolding lzjb_compress_def by blast
  show "r = length out" by (rule r)
  have "lzjb_decompress_loop (out @ rest) 0 0 d (mask_before 0) 0 = LZ_ok (expand [] (concat gs))"
    using gs assms(3) by (intro decompress_groups [where rest = rest]) (auto simp: lz_state_def)
  then show "lzjb_decompress (out @ rest) d = LZ_ok s"
    using gs by (simp add: lzjb_decompress_def mask_before_def lz_state_def)
qed

subsection \<open>The compressor stays inside its buffer\<close>

lemma compress_loop_bound:
  assumes "src \<le> length s" "1 \<le> k" "k \<le> 8" "copymask = 2 ^ (k - 1)" "length dst + 2 * (8 - k) \<le> d_len"
    "lzjb_compress_loop base s d_len src dst copymask copymap lempel = (r, out)"
  shows "length out \<le> d_len"
  using assms
proof (induction "length s - src" arbitrary: src dst copymask copymap lempel k rule: less_induct)
  case less
  note unfold = less.prems(6) [unfolded lzjb_compress_loop.simps [of base s d_len src] Let_def]
  have cm2: "copymask * 2 = 2 ^ k" using less.prems(2,4) by (cases k) auto
  have k8: "copymask * 2 = 256 \<longleftrightarrow> k = 8"
  proof
    assume "copymask * 2 = 256"
    then have "(2::nat) ^ k = 2 ^ 8" using cm2 by simp
    then show "k = 8" by (simp only: power_inject_exp)
  qed (simp add: cm2)
  show ?case
  proof (cases "src < length s \<and> \<not> (copymask * 2 = 256 \<and> int (length dst) \<ge> int d_len - 1 - 2 * 8)")
    case False
    then have "out = dst \<or> (out = s \<and> d_len = length s)"
      using unfold by (auto split: if_splits)
    then show ?thesis using less.prems(5) by auto
  next
    case True
    obtain cm cp dst1 where new: "(cm, cp, dst1) = (if copymask * 2 = 256 then (1, length dst, dst @ [0]) else (copymask * 2, copymap, dst))"
      by (metis prod_cases3)
    define k' where "k' = (if k = 8 then 1 else Suc k)"
    have st: "1 \<le> k'" "k' \<le> 8" "cm = 2 ^ (k' - 1)" "length dst1 + 2 * (8 - k') + 2 \<le> d_len"
      using new True less.prems(2,3,5) cm2 by (auto simp: k'_def k8 split: if_splits)
    have IH: "length out \<le> d_len"
      if "lzjb_compress_loop base s d_len src' dst' cm cp lempel' = (r, out)" "src < src'" "src' \<le> length s"
        "length dst' \<le> length dst1 + 2" for src' dst' lempel'
      using less.hyps [OF _ that(3) st(1-3) _ that(1)] that True st(4) by auto
    show ?thesis
    proof (cases "int src > int (length s) - int MATCH_MAX")
      case end': True
      then have "lzjb_compress_loop base s d_len (src + 1) (dst1 @ [s ! src]) cm cp lempel = (r, out)"
        using unfold conjunct1 [OF True] conjunct2 [OF True] unfolding new [symmetric]
        by (simp only: not_True_eq_False if_False if_True prod.case)
      then show ?thesis using IH [of "src + 1"] True by simp
    next
      case room: False
      define off where "off = unat ((base + of_nat src - ucast (lempel (lzjb_hash s src))) AND of_nat OFFSET_MASK)"
      define mlen where "mlen = lzjb_match s src (src - off) MATCH_MIN"
      have m: "0 < mlen" "mlen \<le> MATCH_MAX"
        using lzjb_match_ok [of MATCH_MIN s src "src - off"] by (auto simp: mlen_def MATCH_MIN_def MATCH_MAX_def)
      have le: "src + mlen \<le> length s" using room m(2) by linarith
      have "\<exists>src' dst' lempel'. lzjb_compress_loop base s d_len src' dst' cm cp lempel' = (r, out) \<and>
          (src' = src + 1 \<and> dst' = dst1 @ [s ! src] \<or> src' = src + mlen \<and> length dst' = length dst1 + 2)"
        using unfold conjunct1 [OF True] conjunct2 [OF True] room
        unfolding new [symmetric] prod.case off_def [symmetric] mlen_def [symmetric]
        by (simp only: if_False not_True_eq_False split: if_split_asm) fastforce+
      then show ?thesis using IH True m(1) le by auto
    qed
  qed
qed

lemma lzjb_compress_bound:
  assumes "lzjb_compress base lempel s d_len = (r, out)"
  shows "length out \<le> d_len"
  by (rule compress_loop_bound [of 0 s 8]) (use assms in \<open>simp_all add: lzjb_compress_def\<close>)

section \<open>Block compression\<close>

datatype zio_compress =
    ZIO_COMPRESS_INHERIT | ZIO_COMPRESS_ON | ZIO_COMPRESS_OFF | ZIO_COMPRESS_LZJB
  | ZIO_COMPRESS_EMPTY | ZIO_COMPRESS_GZIP nat

definition zio_compress_select :: "zio_compress \<Rightarrow> zio_compress \<Rightarrow> zio_compress" where
  "zio_compress_select child parent =
     (if child = ZIO_COMPRESS_INHERIT then parent
      else if child = ZIO_COMPRESS_ON then ZIO_COMPRESS_LZJB
      else child)"

text \<open>
  \<open>zio_compress_table\<close>: the routines of a compression function, which gets the source,
  the size of the destination and the level.  The gzip routines call zlib and are
  parameters.
\<close>

type_synonym compress_func = "u8 list \<Rightarrow> nat \<Rightarrow> nat \<times> u8 list"
type_synonym decompress_func = "u8 list \<Rightarrow> u8 list \<Rightarrow> lzjb_result"

fun ci_compress ::
  "compress_func \<Rightarrow> (nat \<Rightarrow> compress_func) \<Rightarrow> zio_compress \<Rightarrow> compress_func option" where
  "ci_compress lzjb gzip ZIO_COMPRESS_LZJB = Some lzjb"
| "ci_compress lzjb gzip (ZIO_COMPRESS_GZIP level) = Some (gzip level)"
| "ci_compress lzjb gzip _ = None"

fun ci_decompress ::
  "decompress_func \<Rightarrow> (nat \<Rightarrow> decompress_func) \<Rightarrow> zio_compress \<Rightarrow> decompress_func option" where
  "ci_decompress lzjb gzip ZIO_COMPRESS_LZJB = Some lzjb"
| "ci_decompress lzjb gzip (ZIO_COMPRESS_GZIP level) = Some (gzip level)"
| "ci_decompress lzjb gzip _ = None"

definition SPA_MINBLOCKSIZE :: u64 where "SPA_MINBLOCKSIZE = 2 ^ 9"

text \<open>
  \<open>Compressed dest destsize destbufsize\<close> is the return value 1 with what is stored
  through the pointers; \<open>Incompressible\<close> is 0; calling a null \<open>ci_compress\<close> is a
  \<open>Compress_panic\<close>.
\<close>

datatype compress_result = Compressed "u8 list option" u64 u64 | Incompressible | Compress_panic

definition zio_compress_data ::
  "compress_func \<Rightarrow> (nat \<Rightarrow> compress_func) \<Rightarrow> zio_compress \<Rightarrow> u8 list \<Rightarrow> compress_result" where
  "zio_compress_data lzjb gzip cpfunc src =
     (let srcsize = of_nat (length src) :: u64 in
      if list_all (\<lambda>b. b = 0) src then Compressed None 0 0
      else if cpfunc = ZIO_COMPRESS_EMPTY then Incompressible
      else
        let destbufsize = P2ALIGN (srcsize - drop_bit 3 srcsize) SPA_MINBLOCKSIZE
        in
        if destbufsize = 0 then Incompressible
        else
          case ci_compress lzjb gzip cpfunc of
            None \<Rightarrow> Compress_panic
          | Some f \<Rightarrow>
              let (r, dest) = f src (unat destbufsize);
                  ciosize = of_nat r :: u64
              in
              if ciosize > destbufsize then Incompressible
              else
                let gapsize = P2ROUNDUP ciosize SPA_MINBLOCKSIZE - ciosize
                in Compressed (Some (take r dest @ replicate (unat gapsize) 0)) (ciosize + gapsize) destbufsize)"

definition zio_decompress_data ::
  "decompress_func \<Rightarrow> (nat \<Rightarrow> decompress_func) \<Rightarrow> zio_compress \<Rightarrow> u8 list \<Rightarrow> u8 list \<Rightarrow> lzjb_result option" where
  "zio_decompress_data lzjb gzip cpfunc src dest =
     map_option (\<lambda>f. f src dest) (ci_decompress lzjb gzip cpfunc)"

lemma block_compress_ok:
  assumes z: "zio_compress_data (lzjb_compress base lempel) gzip ZIO_COMPRESS_LZJB src = Compressed (Some dest) n bufsize"
    and src: "length src < 2 ^ 32" and d: "length d = length src"
  shows "lzjb_decompress dest d = LZ_ok src" "unat n = length dest" "512 dvd unat n" "8 * unat n \<le> 7 * length src + 7"
proof -
  let ?s = "of_nat (length src) :: u64"
  define buf where "buf = P2ALIGN (?s - drop_bit 3 ?s) SPA_MINBLOCKSIZE"
  obtain r out where out: "lzjb_compress base lempel src (unat buf) = (r, out)" by fastforce
  define gap where "gap = P2ROUNDUP (of_nat r) SPA_MINBLOCKSIZE - of_nat r"
  have z': "\<not> (of_nat r :: u64) > buf" "dest = take r out @ replicate (unat gap) 0" "n = of_nat r + gap" "buf \<noteq> 0"
    using z out by (auto simp: zio_compress_data_def Let_def buf_def gap_def split: if_splits)
  have s: "unat ?s = length src" using src by (simp add: unat_of_nat)
  have s8: "unat (drop_bit 3 ?s) = length src div 8" by (simp add: unat_drop_bit_eq s drop_bit_nat_def)
  have "unat (?s - drop_bit 3 ?s) = length src - length src div 8"
    by (simp add: unat_diff_le s s8 word_le_nat_alt)
  then have b: "unat buf = (length src - length src div 8) div 512 * 512"
    using P2ALIGN_unat [of "?s - drop_bit 3 ?s" 9] by (simp add: buf_def SPA_MINBLOCKSIZE_def)
  then have b8: "unat buf \<le> length src - length src div 8" by (simp add: div_times_less_eq_dividend)
  have b0: "unat buf \<noteq> 0" using z'(4) by (simp add: unat_eq_0)
  have out_len: "length out \<le> unat buf" using lzjb_compress_bound [OF out] .
  have r_ne: "r \<noteq> length src"
  proof
    assume "r = length src"
    then have "length src \<le> unat buf" using z'(1) s by (simp add: word_less_nat_alt not_less)
    moreover have "512 \<le> unat buf" using b b0 by (cases "(length src - length src div 8) div 512") auto
    then have "0 < length src div 8" using b8 by (simp add: div_greater_zero_iff)
    ultimately show False using b8 b0 by linarith
  qed
  note rt = lzjb_roundtrip [OF out r_ne d]
  have r: "unat (of_nat r :: u64) = r" "r \<le> unat buf" using rt(1) out_len b8 src by (auto simp: unat_of_nat)
  show "lzjb_decompress dest d = LZ_ok src" unfolding z'(2) using rt by simp
  let ?u = "(r + 511) div 512 * 512"
  have up: "unat (P2ROUNDUP (of_nat r) SPA_MINBLOCKSIZE) = ?u"
    using P2ROUNDUP_unat [of 9 "of_nat r"] r b8 src by (simp add: SPA_MINBLOCKSIZE_def)
  have "r \<le> ?u" using dividend_less_div_times [of 512 "r + 511"] by simp
  then have gap: "unat gap = ?u - r" using up r(1) by (simp add: gap_def unat_diff_le word_le_nat_alt)
  have n: "n = P2ROUNDUP (of_nat r) SPA_MINBLOCKSIZE" by (simp add: z'(3) gap_def)
  show "unat n = length dest" unfolding n up z'(2) using rt(1) gap \<open>r \<le> ?u\<close> by simp
  show "512 dvd unat n" unfolding n up by simp
  have "?u \<le> unat buf"
  proof -
    have "(r + 511) div 512 \<le> (length src - length src div 8) div 512"
    proof -
      have "(r + 511) div 512 \<le> ((length src - length src div 8) div 512 * 512 + 511) div 512"
        using r(2) unfolding b by (intro div_le_mono) simp
      then show ?thesis by simp
    qed
    then show ?thesis unfolding b by simp
  qed
  then show "8 * unat n \<le> 7 * length src + 7" unfolding n up using b8 by linarith
qed

lemma lzjb_match_replicate:
  "a + MATCH_MAX \<le> n \<Longrightarrow> b \<le> a \<Longrightarrow> m \<le> MATCH_MAX \<Longrightarrow> lzjb_match (replicate n x) a b m = MATCH_MAX"
proof (induction "MATCH_MAX - m" arbitrary: m)
  case 0
  then show ?case by (subst lzjb_match.simps) simp
next
  case (Suc k)
  then show ?case by (subst lzjb_match.simps) simp
qed

lemma lzjb_hash_replicate: "a + 2 < n \<Longrightarrow> lzjb_hash (replicate n x) a = unat ((x + 13) XOR (x - 13) XOR x)"
  by (simp add: lzjb_hash_def)

section \<open>Properties of the compression\<close>

text \<open>C10: LZJB round trip: whenever lzjb_compress reports a size other than that of the source (its
  report of failure), the bytes it wrote, followed by anything, decompress to the source.
  This holds for any address of the source buffer and any garbage in the hash table.\<close>
theorem lzjb_compress_decompress:
  assumes "lzjb_compress base lempel s d_len = (r, out)" "r \<noteq> length s" "length d = length s"
  shows "r = length out \<and> lzjb_decompress (out @ rest) d = LZ_ok s"
  using lzjb_roundtrip [OF assms] by simp

lemma lzjb_example:
  "lzjb_compress 0 (\<lambda>_. 0) (replicate 600 7) 512 =
    (26, [254, 7, 252, 1, 252, 66, 252, 66, 252, 66, 252, 66, 252, 66, 252, 66, 3, 252, 66, 252, 66, 7, 7, 7, 7, 7])"
  by (simp add: lzjb_compress_def lzjb_compress_loop.simps lzjb_match_replicate lzjb_hash_replicate
      MATCH_MAX_def OFFSET_MASK_def MATCH_BITS_def MATCH_MIN_def push_bit_nat_def)

theorem lzjb_compress_decompress_witness:
  "26 = length [254, 7, 252, 1, 252, 66, 252, 66, 252, 66, 252, 66, 252, 66, 252, 66, 3, 252, 66, 252, 66, 7, 7, 7, 7, 7 :: u8] \<and>
   lzjb_decompress ([254, 7, 252, 1, 252, 66, 252, 66, 252, 66, 252, 66, 252, 66, 252, 66, 3, 252, 66, 252, 66, 7, 7, 7, 7, 7] @ [9, 9])
     (replicate 600 0) = LZ_ok (replicate 600 7)"
  by (rule lzjb_compress_decompress [OF lzjb_example]) simp_all

text \<open>C22: lzjb_compress never writes past the d_len bytes of its destination, whatever the data.\<close>
theorem lzjb_compress_in_bounds:
  assumes "lzjb_compress base lempel s d_len = (r, out)"
  shows "length out \<le> d_len"
  using lzjb_compress_bound [OF assms] .

theorem lzjb_compress_in_bounds_witness:
  "length [254, 7, 252, 1, 252, 66, 252, 66, 252, 66, 252, 66, 252, 66, 252, 66, 3, 252, 66, 252, 66, 7, 7, 7, 7, 7 :: u8] \<le> 512"
  by (rule lzjb_compress_in_bounds [OF lzjb_example])

text \<open>C34: A block that zio_compress_data compresses with LZJB has a size that is a multiple of the
  minimum block size and saves at least an eighth (up to rounding of the source size), and
  zio_decompress_data gives the source back from the padded block.\<close>
theorem zio_compress_roundtrip:
  assumes "zio_compress_data (lzjb_compress base lempel) gzip ZIO_COMPRESS_LZJB src = Compressed (Some dest) n bufsize"
    "length src < 2 ^ 32" "length d = length src"
  shows "zio_decompress_data lzjb_decompress gunzip ZIO_COMPRESS_LZJB dest d = Some (LZ_ok src) \<and>
    unat n = length dest \<and> 512 dvd unat n \<and> 8 * unat n \<le> 7 * length src + 7"
  using block_compress_ok [OF assms] by (simp add: zio_decompress_data_def)

lemma zio_compress_example:
  "zio_compress_data (lzjb_compress 0 (\<lambda>_. 0)) (\<lambda>_ _ _. (0, [])) ZIO_COMPRESS_LZJB (replicate 600 7) =
    Compressed (Some ([254, 7, 252, 1, 252, 66, 252, 66, 252, 66, 252, 66, 252, 66, 252, 66, 3, 252, 66, 252, 66, 7, 7, 7, 7, 7] @
      replicate 486 0)) 512 512"
proof -
  have "P2ALIGN (600 - drop_bit 3 600) SPA_MINBLOCKSIZE = 512" "P2ROUNDUP 26 SPA_MINBLOCKSIZE = 512"
    by (simp_all add: P2ALIGN_def P2ROUNDUP_def SPA_MINBLOCKSIZE_def)
  moreover have "\<not> list_all (\<lambda>b. b = 0) (replicate 600 (7::u8))" by (simp add: list_all_iff)
  ultimately show ?thesis by (simp add: zio_compress_data_def Let_def lzjb_example)
qed

theorem zio_compress_roundtrip_witness:
  "zio_decompress_data lzjb_decompress (\<lambda>_ _ _. LZ_error) ZIO_COMPRESS_LZJB
     ([254, 7, 252, 1, 252, 66, 252, 66, 252, 66, 252, 66, 252, 66, 252, 66, 3, 252, 66, 252, 66, 7, 7, 7, 7, 7] @
      replicate 486 0) (replicate 600 0) = Some (LZ_ok (replicate 600 7)) \<and>
   unat (512 :: u64) = length ([254, 7, 252, 1, 252, 66, 252, 66, 252, 66, 252, 66, 252, 66, 252, 66, 3, 252, 66, 252, 66, 7, 7, 7, 7, 7] @
      replicate 486 (0 :: u8)) \<and> 512 dvd unat (512 :: u64) \<and> 8 * unat (512 :: u64) \<le> 7 * length (replicate 600 (7 :: u8)) + 7"
  by (rule zio_compress_roundtrip [OF zio_compress_example]) simp_all

end
