(* ===== verification/Byteorder.thy ===== *)
theory Byteorder
  imports Prelude
begin

section \<open>Byte order\<close>

text \<open>
  The byte swapping macros of \<^verbatim>\<open>sys/byteorder.h\<close> and the functions of \<^verbatim>\<open>fs/zfs/dmu.c\<close>
  that swap the elements of an array.  A buffer is the list of its 64-bit words as the
  host reads them; the 32-bit words and the bytes in it depend on the byte order of the
  host, \<open>big_endian\<close>.  The lemmas show that a buffer written by a host of one byte order,
  read by a host of the other and swapped, has the same words and the same bytes.
\<close>

unbundle bit_operations_syntax

definition BSWAP_8 :: "'a::len word \<Rightarrow> 'a word" where
  "BSWAP_8 x = x AND 0xff"
definition BSWAP_16 :: "'a::len word \<Rightarrow> 'a word" where
  "BSWAP_16 x = push_bit 8 (BSWAP_8 x) OR BSWAP_8 (drop_bit 8 x)"
definition BSWAP_32 :: "'a::len word \<Rightarrow> 'a word" where
  "BSWAP_32 x = push_bit 16 (BSWAP_16 x) OR BSWAP_16 (drop_bit 16 x)"
definition BSWAP_64 :: "u64 \<Rightarrow> u64" where
  "BSWAP_64 x = push_bit 32 (BSWAP_32 x) OR BSWAP_32 (drop_bit 32 x)"

definition words32 :: "bool \<Rightarrow> u64 list \<Rightarrow> u32 list" where
  "words32 big_endian ws = concat (map (\<lambda>w.
     if big_endian then [ucast (drop_bit 32 w), ucast w] else [ucast w, ucast (drop_bit 32 w)]) ws)"

definition word_bytes :: "bool \<Rightarrow> u64 \<Rightarrow> u8 list" where
  "word_bytes big_endian w =
     (let bs = map (\<lambda>i. ucast (drop_bit (8 * i) w)) [0..<8] in if big_endian then rev bs else bs)"

definition bytes_of :: "bool \<Rightarrow> u64 list \<Rightarrow> u8 list" where
  "bytes_of big_endian ws = concat (map (word_bytes big_endian) ws)"

definition byteswap_uint64_array :: "u64 list \<Rightarrow> u64 list" where
  "byteswap_uint64_array buf = map BSWAP_64 buf"
definition byteswap_uint32_array :: "u32 list \<Rightarrow> u32 list" where
  "byteswap_uint32_array buf = map BSWAP_32 buf"
definition byteswap_uint16_array :: "u16 list \<Rightarrow> u16 list" where
  "byteswap_uint16_array buf = map BSWAP_16 buf"
definition byteswap_uint8_array :: "u8 list \<Rightarrow> u8 list" where
  "byteswap_uint8_array buf = buf"

subsection \<open>Swapping twice, and the parts of a swapped word\<close>

lemma bit_BSWAP_8: "bit (BSWAP_8 x) i \<longleftrightarrow> i < 8 \<and> bit x i"
proof -
  have "BSWAP_8 x = take_bit 8 x" by (simp add: BSWAP_8_def take_bit_eq_mask mask_eq_exp_minus_1)
  then show ?thesis by (simp add: bit_take_bit_iff)
qed

lemma bit_BSWAP_16:
  "bit (BSWAP_16 (x :: 'a::len word)) i \<longleftrightarrow>
    i < LENGTH('a) \<and> (i < 8 \<and> bit x (i + 8) \<or> 8 \<le> i \<and> i < 16 \<and> bit x (i - 8))"
  by (auto simp: BSWAP_16_def bit_BSWAP_8 bit_simps add.commute dest: bit_imp_le_length)

lemma bit_BSWAP_32:
  "bit (BSWAP_32 (x :: 'a::len word)) i \<longleftrightarrow>
    i < LENGTH('a) \<and> (i < 16 \<and> bit (BSWAP_16 (drop_bit 16 x)) i \<or> 16 \<le> i \<and> bit (BSWAP_16 x) (i - 16))"
  by (auto simp: BSWAP_32_def bit_BSWAP_16 bit_simps)

lemma bit_BSWAP_64:
  "bit (BSWAP_64 x) i \<longleftrightarrow>
    i < 64 \<and> (i < 32 \<and> bit (BSWAP_32 (drop_bit 32 x)) i \<or> 32 \<le> i \<and> bit (BSWAP_32 x) (i - 32))"
  by (auto simp: BSWAP_64_def bit_BSWAP_32 bit_BSWAP_16 bit_simps)

lemma bit_BSWAP_64_eq: "bit (BSWAP_64 x) i \<longleftrightarrow> i < 64 \<and> bit x (8 * (7 - i div 8) + i mod 8)"
proof (cases "i < 64")
  case True
  define q r where "q = i div 8" and "r = i mod 8"
  have i: "i = 8 * q + r" "r < 8" by (simp_all add: q_def r_def)
  have "q < 8" using True by (simp add: q_def)
  then consider "q = 0" | "q = 1" | "q = 2" | "q = 3" | "q = 4" | "q = 5" | "q = 6" | "q = 7" by linarith
  then have "bit (BSWAP_64 x) i \<longleftrightarrow> bit x (8 * (7 - q) + r)" using i
    by cases (simp_all add: bit_BSWAP_64 bit_BSWAP_32 bit_BSWAP_16 bit_drop_bit_eq add_ac)
  then show ?thesis using True by (simp add: q_def r_def)
qed (simp add: bit_BSWAP_64)

lemma bit_BSWAP_32_eq: "bit (BSWAP_32 (x :: u32)) i \<longleftrightarrow> i < 32 \<and> bit x (8 * (3 - i div 8) + i mod 8)"
proof (cases "i < 32")
  case True
  define q r where "q = i div 8" and "r = i mod 8"
  have i: "i = 8 * q + r" "r < 8" by (simp_all add: q_def r_def)
  have "q < 4" using True by (simp add: q_def)
  then consider "q = 0" | "q = 1" | "q = 2" | "q = 3" by linarith
  then have "bit (BSWAP_32 x) i \<longleftrightarrow> bit x (8 * (3 - q) + r)" using i
    by cases (simp_all add: bit_BSWAP_32 bit_BSWAP_16 bit_drop_bit_eq add_ac)
  then show ?thesis using True by (simp add: q_def r_def)
qed (simp add: bit_BSWAP_32)

lemma BSWAP_64_BSWAP_64 [simp]: "BSWAP_64 (BSWAP_64 x) = x"
proof (rule bit_eqI)
  fix i assume "possible_bit TYPE(u64) i"
  then have "i < 64" by simp
  then have "8 * (7 - i div 8) + i mod 8 < 64" "(8 * (7 - i div 8) + i mod 8) div 8 = 7 - i div 8"
    "8 * (i div 8) + i mod 8 = i" "7 - (7 - i div 8) = i div 8" by auto
  then show "bit (BSWAP_64 (BSWAP_64 x)) i \<longleftrightarrow> bit x i" using \<open>i < 64\<close> by (simp add: bit_BSWAP_64_eq)
qed

lemma BSWAP_64_words32:
  "(ucast (BSWAP_64 w) :: u32) = BSWAP_32 (ucast (drop_bit 32 w))"
  "(ucast (drop_bit 32 (BSWAP_64 w)) :: u32) = BSWAP_32 (ucast w)"
proof -
  have d: "i mod 8 < 8" "8 * (7 - i div 8) + i mod 8 = 32 + (8 * (3 - i div 8) + i mod 8)" "8 * (3 - i div 8) + i mod 8 < 32"
    "(32 + i) div 8 = 4 + i div 8" "(32 + i) mod 8 = i mod 8" "7 - (4 + i div 8) = 3 - i div 8" if "i < 32" for i :: nat
    using that by (auto simp: mod_add_eq) presburger
  show "(ucast (BSWAP_64 w) :: u32) = BSWAP_32 (ucast (drop_bit 32 w))"
    by (rule bit_eqI) (auto simp: bit_ucast_iff bit_BSWAP_64_eq bit_BSWAP_32_eq bit_drop_bit_eq d)
  show "(ucast (drop_bit 32 (BSWAP_64 w)) :: u32) = BSWAP_32 (ucast w)"
    by (rule bit_eqI) (auto simp: bit_ucast_iff bit_BSWAP_64_eq bit_BSWAP_32_eq bit_drop_bit_eq d)
qed

lemma words32_BSWAP: "words32 (\<not> big_endian) (map BSWAP_64 ws) = map BSWAP_32 (words32 big_endian ws)"
  by (induction ws) (auto simp: words32_def BSWAP_64_words32)

lemma word_bytes_BSWAP: "word_bytes (\<not> big_endian) (BSWAP_64 w) = word_bytes big_endian w"
proof -
  have b: "(ucast (drop_bit (8 * k) (BSWAP_64 w)) :: u8) = ucast (drop_bit (8 * (7 - k)) w)" if "k < 8" for k
  proof (rule bit_eqI)
    fix i assume "possible_bit TYPE(u8) i"
    then have "i < 8" by simp
    moreover have "(8 * k + i) div 8 = k" "(8 * k + i) mod 8 = i" "8 * k + i < 64" using that \<open>i < 8\<close> by auto
    ultimately show "bit (ucast (drop_bit (8 * k) (BSWAP_64 w)) :: u8) i \<longleftrightarrow> bit (ucast (drop_bit (8 * (7 - k)) w) :: u8) i"
      using that by (simp add: bit_ucast_iff bit_drop_bit_eq bit_BSWAP_64_eq)
  qed
  have u: "[0..<8] = [0, 1, 2, 3, 4, 5, 6, 7 :: nat]" by (simp add: upt_rec)
  have "map (\<lambda>k. ucast (drop_bit (8 * k) (BSWAP_64 w)) :: u8) [0..<8] = rev (map (\<lambda>k. ucast (drop_bit (8 * k) w)) [0..<8])"
    using b [of 0] b [of 1] b [of 2] b [of 3] b [of 4] b [of 5] b [of 6] b [of 7] by (simp add: u)
  then show ?thesis by (simp add: word_bytes_def Let_def)
qed

lemma bytes_of_BSWAP: "bytes_of (\<not> big_endian) (map BSWAP_64 ws) = bytes_of big_endian ws"
  by (induction ws) (auto simp: bytes_of_def word_bytes_BSWAP)

lemma BSWAP_32_BSWAP_32 [simp]: "BSWAP_32 (BSWAP_32 (x :: u32)) = x"
proof (rule bit_eqI)
  fix i assume "possible_bit TYPE(u32) i"
  then have "i < 32" by simp
  then have "8 * (3 - i div 8) + i mod 8 < 32" "(8 * (3 - i div 8) + i mod 8) div 8 = 3 - i div 8"
    "8 * (i div 8) + i mod 8 = i" "3 - (3 - i div 8) = i div 8" by auto
  then show "bit (BSWAP_32 (BSWAP_32 x)) i \<longleftrightarrow> bit x i" using \<open>i < 32\<close> by (simp add: bit_BSWAP_32_eq)
qed

end
