(* ===== verification/Inject.thy ===== *)
theory Inject
  imports Blkptr
begin

section \<open>Fault injection\<close>

text \<open>
  The registry of injected faults of \<^verbatim>\<open>fs/zfs/zio_inject.c\<close>, with the injection
  references of \<^verbatim>\<open>fs/zfs/spa.c\<close>.  A pool is identified by its name: the namespace
  maps it to its \<^verbatim>\<open>spa_inject_ref\<close>.  A random draw \<^verbatim>\<open>spa_get_random(100)\<close> happens at most
  once per handler in a scan of the list: \<open>rand\<close> gives the number drawn at the
  handler with a given id.  The result of \<^verbatim>\<open>spa_reset\<close>, which exports the pool, is an
  argument.
\<close>

unbundle bit_operations_syntax

datatype zio_type = ZIO_TYPE_NULL | ZIO_TYPE_READ | ZIO_TYPE_WRITE | ZIO_TYPE_FREE | ZIO_TYPE_CLAIM | ZIO_TYPE_IOCTL

record zbookmark =
  zb_objset :: u64
  zb_object :: u64
  zb_level :: u64
  zb_blkid :: u64

record zio =
  io_spa :: string
  io_logical :: "zbookmark option"
  io_type :: zio_type
  io_bp :: "blkptr option"
  io_data :: "u64 list"
  io_error :: int

record zinject_record =
  zi_objset :: u64
  zi_object :: u64
  zi_start :: u64
  zi_end :: u64
  zi_guid :: u64
  zi_level :: u32
  zi_error :: u32
  zi_type :: u64
  zi_freq :: u32

record inject_handler =
  zi_id :: int
  zi_spa :: string
  zi_record :: zinject_record

record inject_state =
  inject_handlers :: "inject_handler list"
  inject_next_id :: int
  zio_injection_enabled :: u32
  spa_inject_ref :: "string \<rightharpoonup> int"

record vdev_inj =
  vdev_guid :: u64
  vs_aux :: nat

definition DMU_OT_NONE :: u64 where "DMU_OT_NONE = 0"
definition VDEV_AUX_OPEN_FAILED :: nat where "VDEV_AUX_OPEN_FAILED = 1"
definition ZINJECT_NULL :: nat where "ZINJECT_NULL = 1"
definition ZINJECT_FLUSH_ARC :: nat where "ZINJECT_FLUSH_ARC = 2"
definition ZINJECT_UNLOAD_SPA :: nat where "ZINJECT_UNLOAD_SPA = 4"

definition zio_match_handler :: "u64 \<Rightarrow> zbookmark \<Rightarrow> u64 \<Rightarrow> zinject_record \<Rightarrow> int \<Rightarrow> bool" where
  "zio_match_handler random zb typ record error =
     (if zb_objset zb = 0 \<and> zi_objset record = 0 \<and> zi_object record = 0
      then (if zi_type record = DMU_OT_NONE \<or> typ = zi_type record
            then zi_freq record = 0 \<or> random < ucast (zi_freq record)
            else False)
      else if zb_objset zb = zi_objset record \<and> zb_object zb = zi_object record \<and>
              zb_level zb = ucast (zi_level record) \<and>
              zi_start record \<le> zb_blkid zb \<and> zb_blkid zb \<le> zi_end record \<and>
              word_of_int error = zi_error record
      then zi_freq record = 0 \<or> random < ucast (zi_freq record)
      else False)"

fun fault_injection_loop :: "(int \<Rightarrow> u64) \<Rightarrow> zio \<Rightarrow> zbookmark \<Rightarrow> int \<Rightarrow> inject_handler list \<Rightarrow> int" where
  "fault_injection_loop rand io zb error [] = 0"
| "fault_injection_loop rand io zb error (handler # hs) =
     (if io_spa io \<noteq> zi_spa handler then fault_injection_loop rand io zb error hs
      else if zi_guid (zi_record handler) \<noteq> 0 then fault_injection_loop rand io zb error hs
      else if zio_match_handler (rand (zi_id handler)) zb
                (case io_bp io of Some bp \<Rightarrow> BP_GET_TYPE bp | None \<Rightarrow> DMU_OT_NONE) (zi_record handler) error
      then error
      else fault_injection_loop rand io zb error hs)"

definition zio_handle_fault_injection :: "(int \<Rightarrow> u64) \<Rightarrow> inject_state \<Rightarrow> zio \<Rightarrow> int \<Rightarrow> int" where
  "zio_handle_fault_injection rand st io error =
     (case io_logical io of None \<Rightarrow> 0 | Some zb \<Rightarrow>
        if io_type io \<noteq> ZIO_TYPE_READ then 0
        else fault_injection_loop rand io zb error (inject_handlers st))"

fun device_injection_loop :: "vdev_inj \<Rightarrow> int \<Rightarrow> inject_handler list \<Rightarrow> vdev_inj \<times> int" where
  "device_injection_loop vd error [] = (vd, 0)"
| "device_injection_loop vd error (handler # hs) =
     (if vdev_guid vd = zi_guid (zi_record handler)
      then (if zi_error (zi_record handler) = word_of_int error
            then (if error = ENXIO then vd\<lparr>vs_aux := VDEV_AUX_OPEN_FAILED\<rparr> else vd, error)
            else if zi_error (zi_record handler) = word_of_int ENXIO then (vd, EIO)
            else device_injection_loop vd error hs)
      else device_injection_loop vd error hs)"

definition zio_handle_device_injection :: "inject_state \<Rightarrow> vdev_inj \<Rightarrow> int \<Rightarrow> vdev_inj \<times> int" where
  "zio_handle_device_injection st vd error = device_injection_loop vd error (inject_handlers st)"

definition spa_lookup :: "(string \<rightharpoonup> int) \<Rightarrow> string \<Rightarrow> string option" where
  "spa_lookup ns name =
     (let pool = takeWhile (\<lambda>c. c \<noteq> CHR ''/'' \<and> c \<noteq> CHR ''@'') name
      in if ns pool = None then None else Some pool)"

definition spa_inject_addref :: "inject_state \<Rightarrow> string \<Rightarrow> inject_state \<times> string option" where
  "spa_inject_addref st name =
     (case spa_lookup (spa_inject_ref st) name of
        None \<Rightarrow> (st, None)
      | Some spa \<Rightarrow> (st\<lparr>spa_inject_ref := (spa_inject_ref st)(spa := map_option (\<lambda>r. r + 1) (spa_inject_ref st spa))\<rparr>,
                     Some spa))"

definition spa_inject_delref :: "inject_state \<Rightarrow> string \<Rightarrow> inject_state" where
  "spa_inject_delref st spa =
     st\<lparr>spa_inject_ref := (spa_inject_ref st)(spa := map_option (\<lambda>r. r - 1) (spa_inject_ref st spa))\<rparr>"

text \<open>The result is the new state, the error, the id stored in \<^verbatim>\<open>*id\<close> if any, and whether the
  ARC is flushed.\<close>

definition zio_inject_fault ::
    "inject_state \<Rightarrow> string \<Rightarrow> nat \<Rightarrow> zinject_record \<Rightarrow> int \<Rightarrow> inject_state \<times> int \<times> int option \<times> bool" where
  "zio_inject_fault st name flags record reset_error =
     (if flags AND ZINJECT_UNLOAD_SPA \<noteq> 0 \<and> reset_error \<noteq> 0 then (st, reset_error, None, False)
      else if flags AND ZINJECT_NULL = 0
      then (case spa_inject_addref st name of
              (st, None) \<Rightarrow> (st, ENOENT, None, False)
            | (st, Some spa) \<Rightarrow>
                let handler = \<lparr>zi_id = inject_next_id st, zi_spa = spa, zi_record = record\<rparr>
                in (st\<lparr>inject_next_id := inject_next_id st + 1,
                        inject_handlers := inject_handlers st @ [handler],
                        zio_injection_enabled := zio_injection_enabled st + 1\<rparr>,
                    0, Some (zi_id handler), flags AND ZINJECT_FLUSH_ARC \<noteq> 0))
      else (st, 0, None, flags AND ZINJECT_FLUSH_ARC \<noteq> 0))"

definition zio_inject_list_next :: "inject_state \<Rightarrow> int \<Rightarrow> nat \<Rightarrow> (int \<times> string \<times> zinject_record) option" where
  "zio_inject_list_next st zid buflen =
     (case dropWhile (\<lambda>handler. \<not> zid < zi_id handler) (inject_handlers st) of
        handler # _ \<Rightarrow> Some (zi_id handler, take buflen (zi_spa handler), zi_record handler)
      | [] \<Rightarrow> None)"

definition zio_clear_fault :: "inject_state \<Rightarrow> int \<Rightarrow> inject_state \<times> int" where
  "zio_clear_fault st zid =
     (case dropWhile (\<lambda>handler. zi_id handler \<noteq> zid) (inject_handlers st) of
        [] \<Rightarrow> (st, ENOENT)
      | handler # _ \<Rightarrow>
          let st = st\<lparr>inject_handlers := remove1 handler (inject_handlers st)\<rparr>;
              st = spa_inject_delref st (zi_spa handler)
          in (st\<lparr>zio_injection_enabled := zio_injection_enabled st - 1\<rparr>, 0))"

definition zio_inject_init :: "(string \<rightharpoonup> int) \<Rightarrow> inject_state" where
  "zio_inject_init ns = \<lparr>inject_handlers = [], inject_next_id = 1, zio_injection_enabled = 0, spa_inject_ref = ns\<rparr>"

subsection \<open>The registry\<close>

text \<open>
  The invariant: the handlers are in the order of their ids, all below the next zid; the
  global switch counts them (in a 32-bit word); every handler holds a pool of the
  namespace, and a pool's injection references count its handlers.
\<close>

definition inject_inv :: "inject_state \<Rightarrow> bool" where
  "inject_inv st \<longleftrightarrow>
     sorted_wrt (<) (map zi_id (inject_handlers st)) \<and>
     (\<forall>h \<in> set (inject_handlers st). zi_id h < inject_next_id st \<and> 0 < zi_id h) \<and> 0 < inject_next_id st \<and>
     zio_injection_enabled st = of_nat (length (inject_handlers st)) \<and>
     (\<forall>h \<in> set (inject_handlers st). spa_inject_ref st (zi_spa h) \<noteq> None) \<and>
     (\<forall>spa r. spa_inject_ref st spa = Some r \<longrightarrow> r = int (length (filter (\<lambda>h. zi_spa h = spa) (inject_handlers st))))"

lemma inject_inv_init: "\<forall>spa r. ns spa = Some r \<longrightarrow> r = 0 \<Longrightarrow> inject_inv (zio_inject_init ns)"
  by (simp add: inject_inv_def zio_inject_init_def)

lemma inject_inv_inject:
  assumes inv: "inject_inv st" and r: "zio_inject_fault st name flags rc re = (st', err, zid, fl)"
  shows "inject_inv st'"
proof (cases "(flags AND ZINJECT_UNLOAD_SPA \<noteq> 0 \<and> re \<noteq> 0) \<or> flags AND ZINJECT_NULL \<noteq> 0 \<or> spa_lookup (spa_inject_ref st) name = None")
  case True
  then have "st' = st" using r by (auto simp: zio_inject_fault_def spa_inject_addref_def split: if_splits)
  then show ?thesis using inv by simp
next
  case False
  then obtain spa where spa: "spa_lookup (spa_inject_ref st) name = Some spa" by auto
  then obtain k where k: "spa_inject_ref st spa = Some k" by (auto simp: spa_lookup_def Let_def split: if_splits)
  let ?h = "\<lparr>zi_id = inject_next_id st, zi_spa = spa, zi_record = rc\<rparr>"
  have e: "st' = st\<lparr>spa_inject_ref := (spa_inject_ref st)(spa \<mapsto> k + 1), inject_next_id := inject_next_id st + 1,
      inject_handlers := inject_handlers st @ [?h], zio_injection_enabled := zio_injection_enabled st + 1\<rparr>"
    using r False spa k by (auto simp: zio_inject_fault_def spa_inject_addref_def Let_def)
  have k': "k = int (length (filter (\<lambda>h. zi_spa h = spa) (inject_handlers st)))"
    using inv k by (auto simp: inject_inv_def)
  show ?thesis using inv k' unfolding e by (auto simp: inject_inv_def sorted_wrt_append intro: less_trans)
qed

lemma dropWhile_id:
  assumes "sorted_wrt (<) (map zi_id hs)" "h \<in> set hs"
  shows "\<exists>rest. dropWhile (\<lambda>x. zi_id x \<noteq> zi_id h) hs = h # rest"
  using assms by (induction hs) (auto)

lemma length_filter_remove1:
  "h \<in> set hs \<Longrightarrow> int (length (filter P (remove1 h hs))) = int (length (filter P hs)) - (if P h then 1 else 0)"
  by (induction hs) auto

lemma clear_fault_found:
  assumes inv: "inject_inv st" and h: "h \<in> set (inject_handlers st)"
  shows "zio_clear_fault st (zi_id h) =
    (st\<lparr>inject_handlers := remove1 h (inject_handlers st),
         spa_inject_ref := (spa_inject_ref st)(zi_spa h := map_option (\<lambda>r. r - 1) (spa_inject_ref st (zi_spa h))),
         zio_injection_enabled := zio_injection_enabled st - 1\<rparr>, 0)"
proof -
  obtain rest where "dropWhile (\<lambda>x. zi_id x \<noteq> zi_id h) (inject_handlers st) = h # rest"
    using dropWhile_id [OF _ h] inv by (auto simp: inject_inv_def)
  then show ?thesis by (simp add: zio_clear_fault_def spa_inject_delref_def Let_def)
qed

lemma clear_fault_missing:
  "zid \<notin> zi_id ` set (inject_handlers st) \<Longrightarrow> zio_clear_fault st zid = (st, ENOENT)"
proof -
  assume "zid \<notin> zi_id ` set (inject_handlers st)"
  then have "dropWhile (\<lambda>h. zi_id h \<noteq> zid) (inject_handlers st) = []" by (auto simp: dropWhile_eq_Nil_conv)
  then show ?thesis by (simp only: zio_clear_fault_def list.case)
qed

lemma sorted_wrt_remove1: "sorted_wrt (<) (map zi_id hs) \<Longrightarrow> sorted_wrt (<) (map zi_id (remove1 h hs))"
  by (induction hs) (auto dest: in_set_remove1 [THEN iffD1, rotated] set_remove1_subset [THEN subsetD])

lemma inject_inv_clear:
  assumes inv: "inject_inv st"
  shows "inject_inv (fst (zio_clear_fault st zid))"
proof (cases "zid \<in> zi_id ` set (inject_handlers st)")
  case True
  then obtain h where h: "h \<in> set (inject_handlers st)" "zid = zi_id h" by auto
  obtain k where k: "spa_inject_ref st (zi_spa h) = Some k" using inv h(1) by (auto simp: inject_inv_def)
  have "0 < length (inject_handlers st)" using h(1) by (cases "inject_handlers st") auto
  then have en: "of_nat (length (inject_handlers st) - Suc 0) = (of_nat (length (inject_handlers st)) - 1 :: u32)"
    by (cases "inject_handlers st") simp_all
  show ?thesis unfolding h(2) clear_fault_found [OF inv h(1)] using inv h(1) k en
    by (auto simp: inject_inv_def sorted_wrt_remove1 length_remove1 length_filter_remove1 dest: set_remove1_subset [THEN subsetD])
next
  case False
  then show ?thesis using inv by (simp add: clear_fault_missing)
qed

inductive inject_reachable :: "(string \<rightharpoonup> int) \<Rightarrow> inject_state \<Rightarrow> bool" for ns where
  inject_start: "inject_reachable ns (zio_inject_init ns)"
| inject_inject: "inject_reachable ns st \<Longrightarrow> inject_reachable ns (fst (zio_inject_fault st name flags rc re))"
| inject_clear: "inject_reachable ns st \<Longrightarrow> inject_reachable ns (fst (zio_clear_fault st zid))"

lemma inject_reachable_invariant:
  assumes "inject_reachable ns st" "\<forall>spa r. ns spa = Some r \<longrightarrow> r = 0"
  shows "inject_inv st"
  using assms
proof induction
  case (inject_inject st name flags rc re)
  then show ?case by (cases "zio_inject_fault st name flags rc re") (auto intro: inject_inv_inject)
qed (simp_all add: inject_inv_init inject_inv_clear)


definition example_record :: zinject_record where
  "example_record = \<lparr>zi_objset = 5, zi_object = 7, zi_start = 0, zi_end = 9, zi_guid = 0, zi_level = 0,
     zi_error = 88, zi_type = 0, zi_freq = 0\<rparr>"

definition example_registry :: inject_state where
  "example_registry = fst (zio_inject_fault (zio_inject_init [''tank'' \<mapsto> 0]) ''tank/home'' 0 example_record 0)"

lemma example_registry_eq:
  "example_registry = \<lparr>inject_handlers = [\<lparr>zi_id = 1, zi_spa = ''tank'', zi_record = example_record\<rparr>],
     inject_next_id = 2, zio_injection_enabled = 1, spa_inject_ref = [''tank'' \<mapsto> 1]\<rparr>"
  by (simp add: example_registry_def zio_inject_fault_def zio_inject_init_def spa_inject_addref_def spa_lookup_def
      ZINJECT_UNLOAD_SPA_def ZINJECT_NULL_def)

lemma example_registry_reachable: "inject_reachable [''tank'' \<mapsto> 0] example_registry"
  unfolding example_registry_def by (intro inject_reachable.intros)


text \<open>C35: Clearing a fault undoes its injection: the handlers, the switch and the injection
  references are again what they were; only the next id has moved on.\<close>

theorem zio_clear_fault_undoes:
  assumes "inject_inv st" "zio_inject_fault st name flags rc re = (st', 0, Some zid, fl)"
  shows "zio_clear_fault st' zid = (st\<lparr>inject_next_id := inject_next_id st + 1\<rparr>, 0)"
proof -
  have ok: "\<not> (flags AND ZINJECT_UNLOAD_SPA \<noteq> 0 \<and> re \<noteq> 0)" "flags AND ZINJECT_NULL = 0"
    using assms(2) by (auto simp: zio_inject_fault_def split: if_splits)
  then obtain spa where spa: "spa_lookup (spa_inject_ref st) name = Some spa" using assms(2)
    by (cases "spa_lookup (spa_inject_ref st) name") (auto simp: zio_inject_fault_def spa_inject_addref_def ENOENT_def)
  then obtain k where k: "spa_inject_ref st spa = Some k" by (auto simp: spa_lookup_def Let_def split: if_splits)
  let ?h = "\<lparr>zi_id = inject_next_id st, zi_spa = spa, zi_record = rc\<rparr>"
  have e: "st' = st\<lparr>spa_inject_ref := (spa_inject_ref st)(spa \<mapsto> k + 1), inject_next_id := inject_next_id st + 1,
      inject_handlers := inject_handlers st @ [?h], zio_injection_enabled := zio_injection_enabled st + 1\<rparr>"
    and zid: "zid = zi_id ?h"
    using assms(2) ok spa k by (auto simp: zio_inject_fault_def spa_inject_addref_def Let_def)
  have "inject_inv st'" using inject_inv_inject [OF assms] .
  moreover have "?h \<in> set (inject_handlers st')" by (simp add: e)
  moreover have "?h \<notin> set (inject_handlers st)" using assms(1) by (auto simp: inject_inv_def)
  ultimately show ?thesis unfolding zid using k
    by (subst clear_fault_found) (simp_all add: e remove1_append fun_upd_idem)
qed

theorem zio_clear_fault_undoes_witness:
  "zio_clear_fault example_registry 1 = ((zio_inject_init [''tank'' \<mapsto> 0])\<lparr>inject_next_id := 1 + 1\<rparr>, 0)"
proof -
  have "inject_inv (zio_inject_init [''tank'' \<mapsto> 0])" by (rule inject_inv_init) simp
  moreover have "zio_inject_fault (zio_inject_init [''tank'' \<mapsto> 0]) ''tank/home'' 0 example_record 0
      = (example_registry, 0, Some 1, False)"
    by (simp add: example_registry_def zio_inject_fault_def zio_inject_init_def spa_inject_addref_def spa_lookup_def
      ZINJECT_UNLOAD_SPA_def ZINJECT_NULL_def)
  ultimately show ?thesis using zio_clear_fault_undoes by (fastforce simp: zio_inject_init_def)
qed

text \<open>C36: Asking for the next handler after each one reported lists every handler once: from
  the id of the \<open>k\<close>-th handler the next is the \<open>k + 1\<close>-st, from an id below all the first,
  and after the last there is none.\<close>

theorem zio_inject_list_next_all:
  assumes "inject_inv st" "k \<le> length (inject_handlers st)"
    and "zid = (if k = 0 then 0 else zi_id (inject_handlers st ! (k - 1)))"
  shows "zio_inject_list_next st zid buflen =
    (if k < length (inject_handlers st)
     then let h = inject_handlers st ! k in Some (zi_id h, take buflen (zi_spa h), zi_record h)
     else None)"
proof -
  let ?hs = "inject_handlers st"
  have sorted: "sorted_wrt (<) (map zi_id ?hs)" and pos: "\<forall>h \<in> set ?hs. 0 < zi_id h"
    using assms(1) by (auto simp: inject_inv_def)
  have before: "\<not> zid < zi_id h" if h: "h \<in> set (take k ?hs)" for h
  proof -
    obtain i where i: "i < k" "h = ?hs ! i" using h assms(2) by (auto simp: in_set_conv_nth)
    then have "i = k - 1 \<or> zi_id (?hs ! i) < zi_id (?hs ! (k - 1))"
      using sorted_wrt_nth_less [OF sorted, of i "k - 1"] assms(2) by (cases "i = k - 1") auto
    then show ?thesis using i assms(3) by auto
  qed
  have after: "zid < zi_id (?hs ! k)" if "k < length ?hs"
    using sorted_wrt_nth_less [OF sorted, of "k - 1" k] assms(3) that pos by (cases "k = 0") auto
  have "dropWhile (\<lambda>h. \<not> zid < zi_id h) ?hs = dropWhile (\<lambda>h. \<not> zid < zi_id h) (take k ?hs @ drop k ?hs)" by simp
  also have "\<dots> = drop k ?hs"
    using before after by (cases "k < length ?hs") (simp_all add: Cons_nth_drop_Suc [symmetric])
  finally have d: "dropWhile (\<lambda>h. \<not> zid < zi_id h) ?hs = drop k ?hs" .
  show ?thesis unfolding zio_inject_list_next_def d
    by (cases "k < length ?hs") (simp_all add: Let_def Cons_nth_drop_Suc [symmetric])
qed

theorem zio_inject_list_next_all_witness:
  "zio_inject_list_next example_registry 0 80 = Some (1, ''tank'', example_record)"
proof -
  have "inject_inv example_registry"
    by (rule inject_reachable_invariant [OF example_registry_reachable]) simp
  from zio_inject_list_next_all [OF this, of 0 0 80] show ?thesis by (simp add: example_registry_eq)
qed

end
