(* ===== verification/Checksum.thy ===== *)
theory Checksum
  imports Blkptr Byteorder Inject
begin

section \<open>Checksums\<close>

text \<open>
  The checksum functions of \<^verbatim>\<open>fs/zfs/fletcher.c\<close> and \<^verbatim>\<open>fs/zfs/sha256.c\<close>, and the
  generation and verification of block checksums in \<^verbatim>\<open>fs/zfs/zio_checksum.c\<close>.

  A buffer is the list of its 64-bit words as the host reads them.  The 32-bit words
  and the bytes in it depend on the byte order of the host, \<open>big_endian\<close>.  The
  loop of \<open>fletcher_2\<close> reads pairs of words; on a buffer with an odd number of words
  it reads behind the end of the buffer.  An access behind the end of an array is
  \<^const>\<open>None\<close>.
\<close>

unbundle bit_operations_syntax

subsection \<open>Fletcher checksums\<close>

fun fletcher_2_native_loop :: "u64 list \<Rightarrow> u64 \<Rightarrow> u64 \<Rightarrow> u64 \<Rightarrow> u64 \<Rightarrow> zio_cksum option" where
  "fletcher_2_native_loop [] a0 b0 a1 b1 = Some (ZIO_SET_CHECKSUM a0 a1 b0 b1)"
| "fletcher_2_native_loop [w0] a0 b0 a1 b1 = None"
| "fletcher_2_native_loop (w0 # w1 # ip) a0 b0 a1 b1 =
     (let a0 = a0 + w0; a1 = a1 + w1; b0 = b0 + a0; b1 = b1 + a1
      in fletcher_2_native_loop ip a0 b0 a1 b1)"

definition fletcher_2_native :: "u64 list \<Rightarrow> zio_cksum option" where
  "fletcher_2_native buf = fletcher_2_native_loop buf 0 0 0 0"

fun fletcher_2_byteswap_loop :: "u64 list \<Rightarrow> u64 \<Rightarrow> u64 \<Rightarrow> u64 \<Rightarrow> u64 \<Rightarrow> zio_cksum option" where
  "fletcher_2_byteswap_loop [] a0 b0 a1 b1 = Some (ZIO_SET_CHECKSUM a0 a1 b0 b1)"
| "fletcher_2_byteswap_loop [w0] a0 b0 a1 b1 = None"
| "fletcher_2_byteswap_loop (w0 # w1 # ip) a0 b0 a1 b1 =
     (let a0 = a0 + BSWAP_64 w0; a1 = a1 + BSWAP_64 w1; b0 = b0 + a0; b1 = b1 + a1
      in fletcher_2_byteswap_loop ip a0 b0 a1 b1)"

definition fletcher_2_byteswap :: "u64 list \<Rightarrow> zio_cksum option" where
  "fletcher_2_byteswap buf = fletcher_2_byteswap_loop buf 0 0 0 0"

fun fletcher_4_native_loop :: "u32 list \<Rightarrow> u64 \<Rightarrow> u64 \<Rightarrow> u64 \<Rightarrow> u64 \<Rightarrow> zio_cksum" where
  "fletcher_4_native_loop [] a b c d = ZIO_SET_CHECKSUM a b c d"
| "fletcher_4_native_loop (w # ip) a b c d =
     (let a = a + ucast w; b = b + a; c = c + b; d = d + c in fletcher_4_native_loop ip a b c d)"

definition fletcher_4_native :: "u32 list \<Rightarrow> zio_cksum" where
  "fletcher_4_native buf = fletcher_4_native_loop buf 0 0 0 0"

fun fletcher_4_byteswap_loop :: "u32 list \<Rightarrow> u64 \<Rightarrow> u64 \<Rightarrow> u64 \<Rightarrow> u64 \<Rightarrow> zio_cksum" where
  "fletcher_4_byteswap_loop [] a b c d = ZIO_SET_CHECKSUM a b c d"
| "fletcher_4_byteswap_loop (w # ip) a b c d =
     (let a = a + ucast (BSWAP_32 w); b = b + a; c = c + b; d = d + c in fletcher_4_byteswap_loop ip a b c d)"

definition fletcher_4_byteswap :: "u32 list \<Rightarrow> zio_cksum" where
  "fletcher_4_byteswap buf = fletcher_4_byteswap_loop buf 0 0 0 0"

definition fletcher_4_incremental_native :: "u32 list \<Rightarrow> zio_cksum \<Rightarrow> zio_cksum" where
  "fletcher_4_incremental_native buf zcp =
     fletcher_4_native_loop buf (zc_word0 zcp) (zc_word1 zcp) (zc_word2 zcp) (zc_word3 zcp)"

definition fletcher_4_incremental_byteswap :: "u32 list \<Rightarrow> zio_cksum \<Rightarrow> zio_cksum" where
  "fletcher_4_incremental_byteswap buf zcp =
     fletcher_4_byteswap_loop buf (zc_word0 zcp) (zc_word1 zcp) (zc_word2 zcp) (zc_word3 zcp)"

subsection \<open>SHA-256\<close>

definition Ch :: "u32 \<Rightarrow> u32 \<Rightarrow> u32 \<Rightarrow> u32" where
  "Ch x y z = z XOR (x AND (y XOR z))"
definition Maj :: "u32 \<Rightarrow> u32 \<Rightarrow> u32 \<Rightarrow> u32" where
  "Maj x y z = (x AND y) XOR (z AND (x XOR y))"
definition Rot32 :: "u32 \<Rightarrow> nat \<Rightarrow> u32" where
  "Rot32 x s = drop_bit s x OR push_bit (32 - s) x"
definition SIGMA0 :: "u32 \<Rightarrow> u32" where
  "SIGMA0 x = Rot32 x 2 XOR Rot32 x 13 XOR Rot32 x 22"
definition SIGMA1 :: "u32 \<Rightarrow> u32" where
  "SIGMA1 x = Rot32 x 6 XOR Rot32 x 11 XOR Rot32 x 25"
definition sigma0 :: "u32 \<Rightarrow> u32" where
  "sigma0 x = Rot32 x 7 XOR Rot32 x 18 XOR drop_bit 3 x"
definition sigma1 :: "u32 \<Rightarrow> u32" where
  "sigma1 x = Rot32 x 17 XOR Rot32 x 19 XOR drop_bit 10 x"

definition SHA256_K :: "u32 list" where
  "SHA256_K = concat [
     [0x428a2f98, 0x71374491, 0xb5c0fbcf, 0xe9b5dba5],
     [0x3956c25b, 0x59f111f1, 0x923f82a4, 0xab1c5ed5],
     [0xd807aa98, 0x12835b01, 0x243185be, 0x550c7dc3],
     [0x72be5d74, 0x80deb1fe, 0x9bdc06a7, 0xc19bf174],
     [0xe49b69c1, 0xefbe4786, 0x0fc19dc6, 0x240ca1cc],
     [0x2de92c6f, 0x4a7484aa, 0x5cb0a9dc, 0x76f988da],
     [0x983e5152, 0xa831c66d, 0xb00327c8, 0xbf597fc7],
     [0xc6e00bf3, 0xd5a79147, 0x06ca6351, 0x14292967],
     [0x27b70a85, 0x2e1b2138, 0x4d2c6dfc, 0x53380d13],
     [0x650a7354, 0x766a0abb, 0x81c2c92e, 0x92722c85],
     [0xa2bfe8a1, 0xa81a664b, 0xc24b8b70, 0xc76c51a3],
     [0xd192e819, 0xd6990624, 0xf40e3585, 0x106aa070],
     [0x19a4c116, 0x1e376c08, 0x2748774c, 0x34b0bcb5],
     [0x391c0cb3, 0x4ed8aa4a, 0x5b9cca4f, 0x682e6ff3],
     [0x748f82ee, 0x78a5636f, 0x84c87814, 0x8cc70208],
     [0x90befffa, 0xa4506ceb, 0xbef9a3f7, 0xc67178f2]]"

fun sha256_load :: "nat \<Rightarrow> u8 list \<Rightarrow> u32 list" where
  "sha256_load 0 cp = []"
| "sha256_load (Suc n) cp =
     (push_bit 24 (ucast (cp ! 0)) OR push_bit 16 (ucast (cp ! 1)) OR push_bit 8 (ucast (cp ! 2)) OR ucast (cp ! 3))
     # sha256_load n (drop 4 cp)"

fun sha256_expand :: "nat \<Rightarrow> u32 list \<Rightarrow> u32 list" where
  "sha256_expand 0 W = W"
| "sha256_expand (Suc n) W =
     (let t = length W
      in sha256_expand n (W @ [sigma1 (W ! (t - 2)) + W ! (t - 7) + sigma0 (W ! (t - 15)) + W ! (t - 16)]))"

type_synonym sha_state = "u32 \<times> u32 \<times> u32 \<times> u32 \<times> u32 \<times> u32 \<times> u32 \<times> u32"

fun sha256_rounds :: "nat \<Rightarrow> nat \<Rightarrow> u32 list \<Rightarrow> sha_state \<Rightarrow> sha_state" where
  "sha256_rounds 0 t W s = s"
| "sha256_rounds (Suc n) t W (a, b, c, d, e, f, g, h) =
     (let T1 = h + SIGMA1 e + Ch e f g + SHA256_K ! t + W ! t;
          T2 = SIGMA0 a + Maj a b c;
          h = g; g = f; f = e; e = d + T1;
          d = c; c = b; b = a; a = T1 + T2
      in sha256_rounds n (t + 1) W (a, b, c, d, e, f, g, h))"

definition SHA256Transform :: "sha_state \<Rightarrow> u8 list \<Rightarrow> sha_state option" where
  "SHA256Transform H cp =
     (if length cp < 64 then None
      else case H of (H0, H1, H2, H3, H4, H5, H6, H7) \<Rightarrow>
        let W = sha256_expand 48 (sha256_load 16 cp);
            (a, b, c, d, e, f, g, h) = sha256_rounds 64 0 W H
        in Some (H0 + a, H1 + b, H2 + c, H3 + d, H4 + e, H5 + f, H6 + g, H7 + h))"

definition SHA256_H0 :: sha_state where
  "SHA256_H0 = (0x6a09e667, 0xbb67ae85, 0x3c6ef372, 0xa54ff53a,
                0x510e527f, 0x9b05688c, 0x1f83d9ab, 0x5be0cd19)"

text \<open>\<^verbatim>\<open>for (; i < lim; i += 64) SHA256Transform(H, buf + i)\<close>, with the final \<open>i\<close>.\<close>

function sha256_blocks :: "nat \<Rightarrow> u8 list \<Rightarrow> nat \<Rightarrow> sha_state \<Rightarrow> (sha_state \<times> nat) option" where
  "sha256_blocks lim buf i H =
     (if i < lim
      then case SHA256Transform H (drop i buf) of
          None \<Rightarrow> None
        | Some H' \<Rightarrow> sha256_blocks lim buf (i + 64) H'
      else Some (H, i))"
  by pat_completeness auto
termination by (relation "measure (\<lambda>(lim, buf, i, H). lim - i)") auto
declare sha256_blocks.simps [simp del]

text \<open>\<^verbatim>\<open>pad[padsize++] = b\<close>: the list holds the bytes written so far.\<close>

definition pad_put :: "u8 list \<Rightarrow> u8 \<Rightarrow> u8 list option" where
  "pad_put pad b = (if length pad < 128 then Some (pad @ [b]) else None)"

fun pad_copy :: "u8 list \<Rightarrow> u8 list \<Rightarrow> u8 list option" where
  "pad_copy [] pad = Some pad"
| "pad_copy (b # bs) pad = (case pad_put pad b of None \<Rightarrow> None | Some pad \<Rightarrow> pad_copy bs pad)"

function pad_zero :: "u8 list \<Rightarrow> u8 list option" where
  "pad_zero pad =
     (if length pad mod 64 \<noteq> 56
      then (if length pad < 128 then pad_zero (pad @ [0]) else None)
      else Some pad)"
  by pat_completeness auto
termination by (relation "measure (\<lambda>pad. 128 - length pad)") auto
declare pad_zero.simps [simp del]

fun pad_size :: "nat \<Rightarrow> u64 \<Rightarrow> u8 list \<Rightarrow> u8 list option" where
  "pad_size 0 sz pad = Some pad"
| "pad_size (Suc n) sz pad =
     (case pad_put pad (ucast (drop_bit (8 * n) (push_bit 3 sz))) of
        None \<Rightarrow> None
      | Some pad \<Rightarrow> pad_size n sz pad)"

definition zio_checksum_SHA256 :: "u8 list \<Rightarrow> zio_cksum option" where
  "zio_checksum_SHA256 buf =
     (let sz = length buf in
      case sha256_blocks (sz - sz mod 64) buf 0 SHA256_H0 of None \<Rightarrow> None | Some (H, i) \<Rightarrow>
      case pad_copy (drop i buf) [] of None \<Rightarrow> None | Some pad \<Rightarrow>
      case pad_put pad 0x80 of None \<Rightarrow> None | Some pad \<Rightarrow>
      case pad_zero pad of None \<Rightarrow> None | Some pad \<Rightarrow>
      case pad_size 8 (of_nat sz) pad of None \<Rightarrow> None | Some pad \<Rightarrow>
      case sha256_blocks (length pad) pad 0 H of None \<Rightarrow> None | Some ((H0, H1, H2, H3, H4, H5, H6, H7), _) \<Rightarrow>
        Some (ZIO_SET_CHECKSUM
          (push_bit 32 (ucast H0) OR ucast H1)
          (push_bit 32 (ucast H2) OR ucast H3)
          (push_bit 32 (ucast H4) OR ucast H5)
          (push_bit 32 (ucast H6) OR ucast H7)))"

subsection \<open>SHA-256 as FIPS 180-3 defines it\<close>

text \<open>
  The reference: the literal \<open>Ch\<close> and \<open>Maj\<close>, the right rotation of a word, the
  message schedule as a recursive function, the padded message as one byte string, and
  the hash value as a fold of the compression function over its 64-byte blocks.
\<close>

definition fips_Ch :: "u32 \<Rightarrow> u32 \<Rightarrow> u32 \<Rightarrow> u32" where
  "fips_Ch x y z = (x AND y) XOR (NOT x AND z)"
definition fips_Maj :: "u32 \<Rightarrow> u32 \<Rightarrow> u32 \<Rightarrow> u32" where
  "fips_Maj x y z = (x AND y) XOR (x AND z) XOR (y AND z)"

definition fips_Sigma0 :: "u32 \<Rightarrow> u32" where
  "fips_Sigma0 x = word_rotr 2 x XOR word_rotr 13 x XOR word_rotr 22 x"
definition fips_Sigma1 :: "u32 \<Rightarrow> u32" where
  "fips_Sigma1 x = word_rotr 6 x XOR word_rotr 11 x XOR word_rotr 25 x"
definition fips_sigma0 :: "u32 \<Rightarrow> u32" where
  "fips_sigma0 x = word_rotr 7 x XOR word_rotr 18 x XOR drop_bit 3 x"
definition fips_sigma1 :: "u32 \<Rightarrow> u32" where
  "fips_sigma1 x = word_rotr 17 x XOR word_rotr 19 x XOR drop_bit 10 x"

fun fips_W :: "u8 list \<Rightarrow> nat \<Rightarrow> u32" where
  "fips_W M t =
     (if t < 16 then push_bit 24 (ucast (M ! (4 * t))) OR push_bit 16 (ucast (M ! (4 * t + 1)))
                       OR push_bit 8 (ucast (M ! (4 * t + 2))) OR ucast (M ! (4 * t + 3))
      else fips_sigma1 (fips_W M (t - 2)) + fips_W M (t - 7) + fips_sigma0 (fips_W M (t - 15)) + fips_W M (t - 16))"
declare fips_W.simps [simp del]

fun fips_round :: "u8 list \<Rightarrow> sha_state \<Rightarrow> nat \<Rightarrow> sha_state" where
  "fips_round M (a, b, c, d, e, f, g, h) t =
     (let T1 = h + fips_Sigma1 e + fips_Ch e f g + SHA256_K ! t + fips_W M t;
          T2 = fips_Sigma0 a + fips_Maj a b c
      in (T1 + T2, a, b, c, d + T1, e, f, g))"

fun sha_add :: "sha_state \<Rightarrow> sha_state \<Rightarrow> sha_state" where
  "sha_add (a, b, c, d, e, f, g, h) (a', b', c', d', e', f', g', h') =
     (a + a', b + b', c + c', d + d', e + e', f + f', g + g', h + h')"

definition fips_compress :: "sha_state \<Rightarrow> u8 list \<Rightarrow> sha_state" where
  "fips_compress H M = sha_add H (foldl (fips_round M) H [0..<64])"

fun sha_chunks :: "nat \<Rightarrow> u8 list \<Rightarrow> u8 list list" where
  "sha_chunks 0 M = []"
| "sha_chunks (Suc n) M = take 64 M # sha_chunks n (drop 64 M)"

definition fips_pad :: "u8 list \<Rightarrow> u8 list" where
  "fips_pad M = M @ [0x80] @ replicate ((119 - length M mod 64) mod 64) 0
     @ map (\<lambda>i. ucast (drop_bit (8 * i) (of_nat (8 * length M) :: u64))) (rev [0..<8])"

definition fips_SHA256 :: "u8 list \<Rightarrow> sha_state" where
  "fips_SHA256 M = (let P = fips_pad M in foldl fips_compress SHA256_H0 (sha_chunks (length P div 64) P))"

section \<open>Correctness of the checksums\<close>

subsection \<open>Fletcher checksums of swapped buffers\<close>

lemma fletcher_2_swap_loop:
  "fletcher_2_byteswap_loop ws a0 b0 a1 b1 = fletcher_2_native_loop (map BSWAP_64 ws) a0 b0 a1 b1"
  by (induction ws a0 b0 a1 b1 rule: fletcher_2_byteswap_loop.induct) (simp_all add: Let_def)

lemma fletcher_2_total:
  "(\<exists>zc. fletcher_2_native_loop ws a0 b0 a1 b1 = Some zc) \<longleftrightarrow> even (length ws)"
  by (induction ws a0 b0 a1 b1 rule: fletcher_2_native_loop.induct) (simp_all add: Let_def)

lemma fletcher_4_swap_loop:
  "fletcher_4_byteswap_loop ws a b c d = fletcher_4_native_loop (map BSWAP_32 ws) a b c d"
  by (induction ws arbitrary: a b c d) (simp_all add: Let_def)

lemma fletcher_4_append:
  "fletcher_4_native_loop (us @ vs) a b c d = fletcher_4_incremental_native vs (fletcher_4_native_loop us a b c d)"
  by (induction us arbitrary: a b c d) (simp_all add: Let_def fletcher_4_incremental_native_def ZIO_SET_CHECKSUM_def)

subsection \<open>SHA-256 is the function of FIPS 180-3\<close>

lemma Ch_eq: "Ch x y z = fips_Ch x y z"
  by (rule bit_eqI) (auto simp: Ch_def fips_Ch_def bit_simps)

lemma Maj_eq: "Maj x y z = fips_Maj x y z"
  by (rule bit_eqI) (auto simp: Maj_def fips_Maj_def bit_simps)

lemma Rot32_eq: assumes "0 < s" "s < 32" shows "Rot32 x s = word_rotr s x"
proof (rule bit_eqI)
  fix i assume "possible_bit TYPE(u32) i"
  then have i: "i < 32" by simp
  show "bit (Rot32 x s) i = bit (word_rotr s x) i"
  proof (cases "i + s < 32")
    case True
    then have "\<not> 32 - s \<le> i" by simp
    then show ?thesis using True assms i by (simp add: Rot32_def bit_word_rotr_iff bit_or_iff bit_drop_bit_eq bit_push_bit_iff add.commute)
  next
    case False
    then have "(i + s) mod 32 = i - (32 - s)" using assms i by (simp add: mod_if)
    moreover have "32 - s \<le> i" using False by simp
    moreover have "\<not> bit x (s + i)" using False by (auto dest: bit_imp_le_length)
    ultimately show ?thesis using assms i False
      by (simp add: Rot32_def bit_word_rotr_iff bit_or_iff bit_drop_bit_eq bit_push_bit_iff)
  qed
qed

lemma fips_sigma_eq:
  "SIGMA0 x = fips_Sigma0 x" "SIGMA1 x = fips_Sigma1 x" "sigma0 x = fips_sigma0 x" "sigma1 x = fips_sigma1 x"
  by (simp_all add: SIGMA0_def fips_Sigma0_def SIGMA1_def fips_Sigma1_def sigma0_def fips_sigma0_def
      sigma1_def fips_sigma1_def Rot32_eq)

lemma length_sha256_load [simp]: "length (sha256_load n cp) = n"
  by (induction n arbitrary: cp) simp_all

lemma sha256_load_nth:
  "t < n \<Longrightarrow> 4 * n \<le> length cp \<Longrightarrow> sha256_load n cp ! t =
     push_bit 24 (ucast (cp ! (4 * t))) OR push_bit 16 (ucast (cp ! (4 * t + 1)))
       OR push_bit 8 (ucast (cp ! (4 * t + 2))) OR ucast (cp ! (4 * t + 3))"
proof (induction n arbitrary: cp t)
  case (Suc n)
  show ?case
  proof (cases t)
    case (Suc t')
    then show ?thesis using Suc.IH [of t' "drop 4 cp"] Suc.prems by (simp add: algebra_simps)
  qed (simp add: numeral_2_eq_2)
qed simp

lemma sha256_expand_W:
  assumes "\<forall>i < length W. W ! i = fips_W M i" "16 \<le> length W"
  shows "length (sha256_expand n W) = length W + n \<and> (\<forall>i < length W + n. sha256_expand n W ! i = fips_W M i)"
  using assms
proof (induction n arbitrary: W)
  case (Suc n)
  let ?t = "length W"
  let ?w = "sigma1 (W ! (?t - 2)) + W ! (?t - 7) + sigma0 (W ! (?t - 15)) + W ! (?t - 16)"
  have "?w = fips_W M ?t"
    using Suc.prems by (subst fips_W.simps) (simp add: fips_sigma_eq)
  then have "\<forall>i < length (W @ [?w]). (W @ [?w]) ! i = fips_W M i"
    using Suc.prems(1) by (auto simp: nth_append less_Suc_eq)
  from Suc.IH [OF this] Suc.prems(2) show ?case by (simp add: Let_def)
qed simp

lemma sha256_schedule:
  assumes "64 \<le> length cp" "t < 64"
  shows "sha256_expand 48 (sha256_load 16 cp) ! t = fips_W (take 64 cp) t"
proof -
  have "\<forall>i < 16. sha256_load 16 cp ! i = fips_W (take 64 cp) i"
    using assms(1) by (subst fips_W.simps) (simp add: sha256_load_nth)
  then show ?thesis using sha256_expand_W [of "sha256_load 16 cp" "take 64 cp" 48] assms(2) by simp
qed

lemma sha256_rounds_fips:
  assumes "\<And>i. i < t + n \<Longrightarrow> W ! i = fips_W M i"
  shows "sha256_rounds n t W s = foldl (fips_round M) s [t ..< t + n]"
  using assms
proof (induction n arbitrary: t s)
  case (Suc n)
  obtain a b c d e f g h where s: "s = (a, b, c, d, e, f, g, h)" by (cases s) auto
  have u: "[t ..< t + Suc n] = t # [Suc t ..< Suc t + n]" by (simp add: upt_rec)
  show ?case unfolding u s using Suc.IH [of "Suc t"] Suc.prems
    by (simp add: Let_def Ch_eq Maj_eq fips_sigma_eq)
qed simp

lemma SHA256Transform_fips:
  assumes "64 \<le> length cp" shows "SHA256Transform H cp = Some (fips_compress H (take 64 cp))"
proof -
  obtain a b c d e f g h where H: "H = (a, b, c, d, e, f, g, h)" by (cases H) auto
  have "sha256_rounds 64 0 (sha256_expand 48 (sha256_load 16 cp)) H = foldl (fips_round (take 64 cp)) H [0..<64]"
    using sha256_rounds_fips [of 0 64 "sha256_expand 48 (sha256_load 16 cp)" "take 64 cp" H] sha256_schedule [OF assms] by simp
  moreover obtain a' b' c' d' e' f' g' h' where "foldl (fips_round (take 64 cp)) H [0..<64] = (a', b', c', d', e', f', g', h')"
    by (cases "foldl (fips_round (take 64 cp)) H [0..<64]") auto
  ultimately show ?thesis using assms by (simp add: SHA256Transform_def fips_compress_def H Let_def)
qed

lemma sha256_blocks_fips:
  "i + 64 * n \<le> length buf \<Longrightarrow>
   sha256_blocks (i + 64 * n) buf i H = Some (foldl fips_compress H (sha_chunks n (drop i buf)), i + 64 * n)"
proof (induction n arbitrary: i H)
  case 0
  then show ?case by (subst sha256_blocks.simps) simp
next
  case (Suc n)
  have e: "i + 64 * Suc n = (i + 64) + 64 * n" by simp
  show ?case unfolding e using Suc.IH [of "i + 64" "fips_compress H (take 64 (drop i buf))"] Suc.prems
    by (subst sha256_blocks.simps) (simp add: SHA256Transform_fips add.commute)
qed

lemma pad_copy_ok: "length pad + length bs \<le> 128 \<Longrightarrow> pad_copy bs pad = Some (pad @ bs)"
  by (induction bs arbitrary: pad) (simp_all add: pad_put_def)

lemma pad_mod_64:
  fixes L :: nat assumes "L \<le> 120"
  shows "L mod 64 = 56 \<Longrightarrow> (120 - L) mod 64 = 0"
    and "L mod 64 \<noteq> 56 \<Longrightarrow> L < 120 \<and> (120 - L) mod 64 = Suc ((119 - L) mod 64)"
proof -
  have L: "L = 64 * (L div 64) + L mod 64" by simp
  have d: "L div 64 = 0 \<or> L div 64 = 1" using assms by linarith
  show "(120 - L) mod 64 = 0" if "L mod 64 = 56" using L d that by fastforce
  assume n: "L mod 64 \<noteq> 56"
  then have "L \<noteq> 56" "L \<noteq> 120" by auto
  moreover have "Suc (119 - L) = 120 - L" using assms calculation by simp
  moreover have "(119 - L) mod 64 \<noteq> 63"
  proof
    assume "(119 - L) mod 64 = 63"
    then have "119 - L = 64 * ((119 - L) div 64) + 63" by (metis mult_div_mod_eq)
    moreover have "(119 - L) div 64 = 0 \<or> (119 - L) div 64 = 1" by (simp add: div_if)
    ultimately have "119 - L = 63 \<or> 119 - L = 127" by linarith
    then show False using \<open>L \<noteq> 56\<close> by linarith
  qed
  ultimately show "L < 120 \<and> (120 - L) mod 64 = Suc ((119 - L) mod 64)"
    using assms mod_Suc [of "119 - L" 64] by simp
qed

lemma pad_zero_ok: "length pad \<le> 120 \<Longrightarrow> pad_zero pad = Some (pad @ replicate ((120 - length pad) mod 64) 0)"
proof (induction pad rule: pad_zero.induct)
  case (1 pad)
  show ?case
  proof (cases "length pad mod 64 = 56")
    case True
    then have "(120 - length pad) mod 64 = 0" using pad_mod_64 [OF 1(2)] by simp
    then show ?thesis using True by (subst pad_zero.simps) simp
  next
    case False
    then have "length pad < 120" "(120 - length pad) mod 64 = Suc ((119 - length pad) mod 64)"
      using pad_mod_64 [OF 1(2)] by simp_all
    then show ?thesis using False 1(1) by (subst pad_zero.simps) simp
  qed
qed

lemma pad_size_ok:
  "length pad + n \<le> 128 \<Longrightarrow>
   pad_size n sz pad = Some (pad @ map (\<lambda>i. ucast (drop_bit (8 * i) (push_bit 3 sz))) (rev [0..<n]))"
  by (induction n arbitrary: pad) (simp_all add: pad_put_def)

lemma sha_chunks_append:
  "length M = 64 * m \<Longrightarrow> sha_chunks (m + n) (M @ P) = sha_chunks m M @ sha_chunks n P"
  by (induction m arbitrary: M) simp_all

lemma fips_pad_split:
  assumes "length M = 64 * m + r" "r < 64"
  shows "fips_pad M = take (64 * m) M @ drop (64 * m) M @ [0x80] @ replicate ((119 - r) mod 64) 0
     @ map (\<lambda>i. ucast (drop_bit (8 * i) (push_bit 3 (of_nat (length M)) :: u64))) (rev [0..<8])"
proof -
  have "push_bit 3 (of_nat (length M)) = (of_nat (8 * length M) :: u64)" by (simp add: push_bit_eq_mult)
  moreover have "length M mod 64 = r" using assms by simp
  ultimately show ?thesis by (simp only: fips_pad_def append_take_drop_id append_assoc [symmetric])
qed

lemma sha256_padded:
  assumes "length M = 64 * m + r" "r < 64"
    and P: "P = drop (64 * m) M @ [0x80] @ replicate ((119 - r) mod 64) 0
     @ map (\<lambda>i. ucast (drop_bit (8 * i) (push_bit 3 (of_nat (length M)) :: u64))) (rev [0..<8])"
  shows "pad_copy (drop (64 * m) M) [] = Some (drop (64 * m) M)"
    and "pad_put (drop (64 * m) M) 0x80 = Some (drop (64 * m) M @ [0x80])"
    and "pad_zero (drop (64 * m) M @ [0x80]) = Some (drop (64 * m) M @ [0x80] @ replicate ((119 - r) mod 64) 0)"
    and "pad_size 8 (of_nat (length M)) (drop (64 * m) M @ [0x80] @ replicate ((119 - r) mod 64) 0) = Some P"
    and "length P = 64 \<or> length P = 128"
proof -
  have z: "r + Suc ((119 - r) mod 64) = 56 \<or> r + Suc ((119 - r) mod 64) = 120"
  proof (cases "r < 56")
    case True
    then have "(119 - r) mod 64 = 119 - r - 64" by (simp add: mod_if)
    then show ?thesis using True by simp
  next
    case False
    then have "(119 - r) mod 64 = 119 - r" by (simp add: mod_if)
    then show ?thesis using assms(2) by simp
  qed
  show "pad_copy (drop (64 * m) M) [] = Some (drop (64 * m) M)" using assms by (simp add: pad_copy_ok)
  show "pad_put (drop (64 * m) M) 0x80 = Some (drop (64 * m) M @ [0x80])" using assms by (simp add: pad_put_def)
  show "pad_zero (drop (64 * m) M @ [0x80]) = Some (drop (64 * m) M @ [0x80] @ replicate ((119 - r) mod 64) 0)"
    using pad_zero_ok [of "drop (64 * m) M @ [0x80]"] assms by simp
  have "length (drop (64 * m) M @ [0x80] @ replicate ((119 - r) mod 64) 0) + 8 \<le> 128" using z assms(1) by auto
  from pad_size_ok [OF this]
  show "pad_size 8 (of_nat (length M)) (drop (64 * m) M @ [0x80] @ replicate ((119 - r) mod 64) 0) = Some P"
    by (simp add: P)
  show "length P = 64 \<or> length P = 128" using z assms(1) by (auto simp: P)
qed


subsection \<open>Checksum vectors\<close>

text \<open>A checksum function takes the byte order of the host and the buffer.\<close>

type_synonym zio_checksum_t = "bool \<Rightarrow> u64 list \<Rightarrow> zio_cksum option"

definition zio_checksum_off :: zio_checksum_t where
  "zio_checksum_off be buf = Some (ZIO_SET_CHECKSUM 0 0 0 0)"

definition checksum_fletcher_2 :: "bool \<Rightarrow> zio_checksum_t" where
  "checksum_fletcher_2 swap be buf = (if swap then fletcher_2_byteswap buf else fletcher_2_native buf)"
definition checksum_fletcher_4 :: "bool \<Rightarrow> zio_checksum_t" where
  "checksum_fletcher_4 swap be buf =
     Some (if swap then fletcher_4_byteswap (words32 be buf) else fletcher_4_native (words32 be buf))"
definition checksum_SHA256 :: zio_checksum_t where
  "checksum_SHA256 be buf = zio_checksum_SHA256 (bytes_of be buf)"

record zio_checksum_info =
  ci_func :: "(zio_checksum_t \<times> zio_checksum_t) option"
  ci_correctable :: bool
  ci_zbt :: bool
  ci_name :: string

definition ZIO_CHECKSUM_INHERIT :: nat where "ZIO_CHECKSUM_INHERIT = 0"
definition ZIO_CHECKSUM_ON :: nat where "ZIO_CHECKSUM_ON = 1"
definition ZIO_CHECKSUM_OFF :: nat where "ZIO_CHECKSUM_OFF = 2"
definition ZIO_CHECKSUM_LABEL :: nat where "ZIO_CHECKSUM_LABEL = 3"
definition ZIO_CHECKSUM_GANG_HEADER :: nat where "ZIO_CHECKSUM_GANG_HEADER = 4"
definition ZIO_CHECKSUM_ZILOG :: nat where "ZIO_CHECKSUM_ZILOG = 5"
definition ZIO_CHECKSUM_FLETCHER_2 :: nat where "ZIO_CHECKSUM_FLETCHER_2 = 6"
definition ZIO_CHECKSUM_FLETCHER_4 :: nat where "ZIO_CHECKSUM_FLETCHER_4 = 7"
definition ZIO_CHECKSUM_SHA256 :: nat where "ZIO_CHECKSUM_SHA256 = 8"
definition ZIO_CHECKSUM_FUNCTIONS :: nat where "ZIO_CHECKSUM_FUNCTIONS = 9"
definition ZIO_CHECKSUM_ON_VALUE :: nat where "ZIO_CHECKSUM_ON_VALUE = ZIO_CHECKSUM_FLETCHER_2"

definition ck_info :: "(zio_checksum_t \<times> zio_checksum_t) option \<Rightarrow> bool \<Rightarrow> bool \<Rightarrow> string \<Rightarrow> zio_checksum_info" where
  "ck_info f c z n = \<lparr>ci_func = f, ci_correctable = c, ci_zbt = z, ci_name = n\<rparr>"

definition zio_checksum_table :: "zio_checksum_info list" where
  "zio_checksum_table = [
     ck_info None False False ''inherit'',
     ck_info None False False ''on'',
     ck_info (Some (zio_checksum_off, zio_checksum_off)) False False ''off'',
     ck_info (Some (checksum_SHA256, checksum_SHA256)) True True ''label'',
     ck_info (Some (checksum_SHA256, checksum_SHA256)) True True ''gang_header'',
     ck_info (Some (checksum_fletcher_2 False, checksum_fletcher_2 True)) False True ''zilog'',
     ck_info (Some (checksum_fletcher_2 False, checksum_fletcher_2 True)) False False ''fletcher2'',
     ck_info (Some (checksum_fletcher_4 False, checksum_fletcher_4 True)) True False ''fletcher4'',
     ck_info (Some (checksum_SHA256, checksum_SHA256)) True False ''SHA256'']"

definition zio_checksum_select :: "nat \<Rightarrow> nat \<Rightarrow> nat" where
  "zio_checksum_select child parent =
     (if child = ZIO_CHECKSUM_INHERIT then parent
      else if child = ZIO_CHECKSUM_ON then ZIO_CHECKSUM_ON_VALUE
      else child)"

definition ZBT_MAGIC :: u64 where "ZBT_MAGIC = 0x210da7ab10c7a11"

text \<open>The block tail is the last five words of a buffer: the magic number and a checksum.\<close>

record zio_block_tail =
  zbt_magic :: u64
  zbt_cksum :: zio_cksum

definition cksum_words :: "zio_cksum \<Rightarrow> u64 list" where
  "cksum_words zc = [zc_word0 zc, zc_word1 zc, zc_word2 zc, zc_word3 zc]"
definition words_cksum :: "u64 list \<Rightarrow> zio_cksum" where
  "words_cksum ws = ZIO_SET_CHECKSUM (ws ! 0) (ws ! 1) (ws ! 2) (ws ! 3)"

definition get_zbt :: "u64 list \<Rightarrow> zio_block_tail" where
  "get_zbt buf = (let t = drop (length buf - 5) buf in \<lparr>zbt_magic = t ! 0, zbt_cksum = words_cksum (drop 1 t)\<rparr>)"
definition set_zbt :: "zio_block_tail \<Rightarrow> u64 list \<Rightarrow> u64 list" where
  "set_zbt zbt buf = take (length buf - 5) buf @ zbt_magic zbt # cksum_words (zbt_cksum zbt)"

definition set_zbt_cksum :: "zio_cksum \<Rightarrow> u64 list \<Rightarrow> u64 list" where
  "set_zbt_cksum zc buf = set_zbt ((get_zbt buf)\<lparr>zbt_cksum := zc\<rparr>) buf"

definition byteswap_cksum :: "zio_cksum \<Rightarrow> zio_cksum" where
  "byteswap_cksum zc = words_cksum (byteswap_uint64_array (cksum_words zc))"

text \<open>The result is the checksum for the block pointer and the buffer.\<close>

definition zio_checksum :: "bool \<Rightarrow> nat \<Rightarrow> u64 list \<Rightarrow> (zio_cksum \<times> u64 list) option" where
  "zio_checksum be checksum buf =
     (if ZIO_CHECKSUM_FUNCTIONS \<le> checksum then None else
      let ci = zio_checksum_table ! checksum in
      case ci_func ci of None \<Rightarrow> None | Some (func, _) \<Rightarrow>
      if ci_zbt ci
      then if length buf < 5 then None else
           let zc = zbt_cksum (get_zbt buf);
               buf = set_zbt ((get_zbt buf)\<lparr>zbt_magic := ZBT_MAGIC\<rparr>) buf
           in case func be buf of None \<Rightarrow> None | Some zbt_ck \<Rightarrow> Some (zc, set_zbt_cksum zbt_ck buf)
      else case func be buf of None \<Rightarrow> None | Some zc \<Rightarrow> Some (zc, buf))"

definition zio_set_gang_verifier :: "blkptr \<Rightarrow> zio_cksum" where
  "zio_set_gang_verifier bp =
     ZIO_SET_CHECKSUM (DVA_GET_VDEV (BP_IDENTITY bp)) (DVA_GET_OFFSET (BP_IDENTITY bp)) (blk_birth bp) 0"

definition SPA_GANGBLOCKSIZE :: u64 where "SPA_GANGBLOCKSIZE = 512"
definition ZIO_GET_IOSIZE :: "blkptr \<Rightarrow> u64" where
  "ZIO_GET_IOSIZE bp = (if BP_IS_GANG bp then SPA_GANGBLOCKSIZE else BP_GET_PSIZE bp)"

text \<open>
  The verification of the buffer of an I/O.  On a block with a tail it puts the verifier into
  the tail, computes the checksum, and puts back the checksum the tail had; the result is
  the actual and the expected checksum, and the buffer.
\<close>

definition checksum_zbt_verify ::
    "zio_checksum_t \<Rightarrow> zio_checksum_t \<Rightarrow> bool \<Rightarrow> zio_cksum \<Rightarrow> u64 list \<Rightarrow> (zio_cksum \<times> zio_cksum \<times> u64 list) option" where
  "checksum_zbt_verify func0 func1 be zc buf =
     (if length buf < 5 then None
      else if zbt_magic (get_zbt buf) = BSWAP_64 ZBT_MAGIC
      then let expected = byteswap_cksum (zbt_cksum (get_zbt buf)); buf = set_zbt_cksum (byteswap_cksum zc) buf
           in case func1 be buf of None \<Rightarrow> None
              | Some actual \<Rightarrow> Some (actual, expected, set_zbt_cksum (byteswap_cksum expected) buf)
      else let expected = zbt_cksum (get_zbt buf); buf = set_zbt_cksum zc buf
           in case func0 be buf of None \<Rightarrow> None
              | Some actual \<Rightarrow> Some (actual, expected, set_zbt_cksum expected buf))"

text \<open>Only the first \<^const>\<open>ZIO_GET_IOSIZE\<close> bytes of the data take part.  The result is the
  error and the data.\<close>

definition zio_checksum_error ::
    "bool \<Rightarrow> (int \<Rightarrow> u64) \<Rightarrow> inject_state \<Rightarrow> zio \<Rightarrow> (int \<times> u64 list) option" where
  "zio_checksum_error be rand st io =
     (case io_bp io of None \<Rightarrow> None | Some bp \<Rightarrow>
      let zc = blk_cksum bp;
          checksum = (if BP_IS_GANG bp then ZIO_CHECKSUM_GANG_HEADER else unat (BP_GET_CHECKSUM bp));
          n = unat (ZIO_GET_IOSIZE bp) div 8;
          buf = take n (io_data io)
      in if ZIO_CHECKSUM_FUNCTIONS \<le> checksum then Some (EINVAL, io_data io)
         else case ci_func (zio_checksum_table ! checksum) of
           None \<Rightarrow> Some (EINVAL, io_data io)
         | Some (func0, func1) \<Rightarrow>
             if length (io_data io) < n then None
             else case (if ci_zbt (zio_checksum_table ! checksum)
                        then checksum_zbt_verify func0 func1 be
                               (if checksum = ZIO_CHECKSUM_GANG_HEADER then zio_set_gang_verifier bp else zc) buf
                        else map_option (\<lambda>actual. (actual, zc, buf))
                               ((if BP_SHOULD_BYTESWAP be bp then func1 else func0) be buf)) of
               None \<Rightarrow> None
             | Some (actual, zc, buf) \<Rightarrow>
                 let dat = buf @ drop n (io_data io)
                 in if \<not> ZIO_CHECKSUM_EQUAL actual zc then Some (ECKSUM, dat)
                    else if zio_injection_enabled st \<noteq> 0 \<and> io_error io = 0
                    then Some (zio_handle_fault_injection rand st io ECKSUM, dat)
                    else Some (0, dat))"

subsection \<open>Block tails\<close>

lemma words_cksum_words [simp]: "words_cksum (cksum_words zc) = zc"
  by (simp add: words_cksum_def cksum_words_def ZIO_SET_CHECKSUM_def)

lemma byteswap_cksum_eq:
  "byteswap_cksum zc = ZIO_SET_CHECKSUM (BSWAP_64 (zc_word0 zc)) (BSWAP_64 (zc_word1 zc)) (BSWAP_64 (zc_word2 zc)) (BSWAP_64 (zc_word3 zc))"
  by (simp add: byteswap_cksum_def byteswap_uint64_array_def words_cksum_def cksum_words_def)

lemma byteswap_cksum_twice [simp]: "byteswap_cksum (byteswap_cksum zc) = zc"
  by (simp add: byteswap_cksum_eq ZIO_SET_CHECKSUM_def)

lemma cksum_words_byteswap: "cksum_words (byteswap_cksum zc) = map BSWAP_64 (cksum_words zc)"
  by (simp add: byteswap_cksum_eq ZIO_SET_CHECKSUM_def cksum_words_def)

lemma length_set_zbt [simp]: "5 \<le> length buf \<Longrightarrow> length (set_zbt z buf) = length buf"
  by (simp add: set_zbt_def cksum_words_def)

lemma get_set_zbt [simp]: "5 \<le> length buf \<Longrightarrow> get_zbt (set_zbt z buf) = z"
  by (simp add: get_zbt_def set_zbt_def cksum_words_def words_cksum_def ZIO_SET_CHECKSUM_def Let_def)

lemma set_set_zbt [simp]: "5 \<le> length buf \<Longrightarrow> set_zbt z (set_zbt z' buf) = set_zbt z buf"
  by (simp add: set_zbt_def cksum_words_def)

lemma set_get_zbt [simp]: assumes "5 \<le> length buf" shows "set_zbt (get_zbt buf) buf = buf"
proof -
  have five: "length xs = 5 \<Longrightarrow> \<exists>a b c d e. xs = [a, b, c, d, e]" for xs :: "u64 list"
    by (auto simp: length_Suc_conv numeral_eq_Suc)
  obtain a b c d e where t: "drop (length buf - 5) buf = [a, b, c, d, e]"
    using five [of "drop (length buf - 5) buf"] assms by auto
  then have "set_zbt (get_zbt buf) buf = take (length buf - 5) buf @ drop (length buf - 5) buf"
    by (simp add: set_zbt_def get_zbt_def cksum_words_def words_cksum_def ZIO_SET_CHECKSUM_def Let_def)
  then show ?thesis by simp
qed

lemma set_zbt_cksum_set_zbt [simp]:
  "5 \<le> length buf \<Longrightarrow> set_zbt_cksum zc (set_zbt z buf) = set_zbt (z\<lparr>zbt_cksum := zc\<rparr>) buf"
  by (simp add: set_zbt_cksum_def)

definition byteswap_zbt :: "zio_block_tail \<Rightarrow> zio_block_tail" where
  "byteswap_zbt z = \<lparr>zbt_magic = BSWAP_64 (zbt_magic z), zbt_cksum = byteswap_cksum (zbt_cksum z)\<rparr>"

lemma map_BSWAP_set_zbt: "map BSWAP_64 (set_zbt z buf) = set_zbt (byteswap_zbt z) (map BSWAP_64 buf)"
  by (simp add: set_zbt_def byteswap_zbt_def cksum_words_byteswap take_map)

lemma ZBT_MAGIC_swapped: "BSWAP_64 ZBT_MAGIC \<noteq> ZBT_MAGIC"
  by (simp add: ZBT_MAGIC_def BSWAP_64_def BSWAP_32_def BSWAP_16_def BSWAP_8_def)

subsection \<open>Generation and verification\<close>

text \<open>
  The contract of an entry of the checksum table: its second function computes, on a host
  of the other byte order, what the first computes on the host that wrote the buffer.
\<close>

locale checksum_pair =
  fixes func0 func1 :: zio_checksum_t
  assumes swapped: "func1 (\<not> be) (map BSWAP_64 buf) = func0 be buf"
begin

lemma tail_verified:
  assumes "5 \<le> length buf" "func0 be (set_zbt ((get_zbt buf)\<lparr>zbt_magic := ZBT_MAGIC\<rparr>) buf) = Some ck"
    and "buf' = set_zbt \<lparr>zbt_magic = ZBT_MAGIC, zbt_cksum = ck\<rparr> buf"
  shows "checksum_zbt_verify func0 func1 be (zbt_cksum (get_zbt buf)) buf' = Some (ck, ck, buf')"
proof -
  have m: "(get_zbt buf)\<lparr>zbt_magic := ZBT_MAGIC\<rparr> = \<lparr>zbt_magic = ZBT_MAGIC, zbt_cksum = zbt_cksum (get_zbt buf)\<rparr>"
    by simp
  show ?thesis using assms(1,3) assms(2) [unfolded m] ZBT_MAGIC_swapped by (simp add: checksum_zbt_verify_def Let_def not_less)
qed

lemma tail_verified_swapped:
  assumes "5 \<le> length buf" "func0 be (set_zbt ((get_zbt buf)\<lparr>zbt_magic := ZBT_MAGIC\<rparr>) buf) = Some ck"
    and "buf' = set_zbt \<lparr>zbt_magic = ZBT_MAGIC, zbt_cksum = ck\<rparr> buf"
  shows "checksum_zbt_verify func0 func1 (\<not> be) (zbt_cksum (get_zbt buf)) (map BSWAP_64 buf') = Some (ck, ck, map BSWAP_64 buf')"
proof -
  have m: "(get_zbt buf)\<lparr>zbt_magic := ZBT_MAGIC\<rparr> = \<lparr>zbt_magic = ZBT_MAGIC, zbt_cksum = zbt_cksum (get_zbt buf)\<rparr>"
    by simp
  have b: "map BSWAP_64 buf' = set_zbt \<lparr>zbt_magic = BSWAP_64 ZBT_MAGIC, zbt_cksum = byteswap_cksum ck\<rparr> (map BSWAP_64 buf)"
    by (simp add: assms(3) map_BSWAP_set_zbt byteswap_zbt_def)
  have "func1 (\<not> be) (set_zbt \<lparr>zbt_magic = BSWAP_64 ZBT_MAGIC, zbt_cksum = byteswap_cksum (zbt_cksum (get_zbt buf))\<rparr> (map BSWAP_64 buf)) = Some ck"
    using assms(2) swapped [of be "set_zbt \<lparr>zbt_magic = ZBT_MAGIC, zbt_cksum = zbt_cksum (get_zbt buf)\<rparr> buf"]
    unfolding m by (simp add: map_BSWAP_set_zbt byteswap_zbt_def)
  then show ?thesis unfolding b using assms(1) by (simp add: checksum_zbt_verify_def Let_def not_less)
qed

end

interpretation ck_off: checksum_pair zio_checksum_off zio_checksum_off
  by unfold_locales (simp add: zio_checksum_off_def)

interpretation ck_fletcher_2: checksum_pair "checksum_fletcher_2 False" "checksum_fletcher_2 True"
  by unfold_locales (simp add: checksum_fletcher_2_def fletcher_2_byteswap_def fletcher_2_native_def fletcher_2_swap_loop comp_def)

interpretation ck_fletcher_4: checksum_pair "checksum_fletcher_4 False" "checksum_fletcher_4 True"
  by unfold_locales (simp add: checksum_fletcher_4_def fletcher_4_byteswap_def fletcher_4_native_def fletcher_4_swap_loop
      words32_BSWAP comp_def)

interpretation ck_SHA256: checksum_pair checksum_SHA256 checksum_SHA256
  by unfold_locales (simp add: checksum_SHA256_def bytes_of_BSWAP)

lemma zio_checksum_table_pair:
  assumes "c < 9" "ci_func (zio_checksum_table ! c) = Some (func0, func1)"
  shows "checksum_pair func0 func1"
proof -
  consider "c = 0" | "c = 1" | "c = 2" | "c = 3" | "c = 4" | "c = 5" | "c = 6" | "c = 7" | "c = 8" using assms(1) by linarith
  then show ?thesis using assms(2) ck_off.checksum_pair_axioms ck_fletcher_2.checksum_pair_axioms
      ck_fletcher_4.checksum_pair_axioms ck_SHA256.checksum_pair_axioms
    by cases (auto simp: zio_checksum_table_def ck_info_def)
qed

lemma zio_checksum_SomeD:
  assumes "zio_checksum be c buf = Some (zc, buf')"
  obtains func0 func1 where "c < 9" "ci_func (zio_checksum_table ! c) = Some (func0, func1)" "checksum_pair func0 func1"
    "if ci_zbt (zio_checksum_table ! c)
     then 5 \<le> length buf \<and> zc = zbt_cksum (get_zbt buf) \<and>
       (\<exists>ck. func0 be (set_zbt ((get_zbt buf)\<lparr>zbt_magic := ZBT_MAGIC\<rparr>) buf) = Some ck \<and>
             buf' = set_zbt \<lparr>zbt_magic = ZBT_MAGIC, zbt_cksum = ck\<rparr> buf)
     else func0 be buf = Some zc \<and> buf' = buf"
proof -
  have zbt_eq: "(get_zbt buf)\<lparr>zbt_magic := ZBT_MAGIC, zbt_cksum := ck\<rparr> = \<lparr>zbt_magic = ZBT_MAGIC, zbt_cksum = ck\<rparr>" for ck
    by simp
  have c: "c < 9" using assms by (simp add: zio_checksum_def ZIO_CHECKSUM_FUNCTIONS_def split: if_splits)
  moreover obtain func0 func1 where f: "ci_func (zio_checksum_table ! c) = Some (func0, func1)"
    using assms by (auto simp: zio_checksum_def Let_def split: if_splits option.splits)
  moreover note zio_checksum_table_pair [OF calculation]
  moreover have "if ci_zbt (zio_checksum_table ! c)
     then 5 \<le> length buf \<and> zc = zbt_cksum (get_zbt buf) \<and>
       (\<exists>ck. func0 be (set_zbt ((get_zbt buf)\<lparr>zbt_magic := ZBT_MAGIC\<rparr>) buf) = Some ck \<and>
             buf' = set_zbt \<lparr>zbt_magic = ZBT_MAGIC, zbt_cksum = ck\<rparr> buf)
     else func0 be buf = Some zc \<and> buf' = buf"
    using assms c f
    by (auto simp: zio_checksum_def Let_def zbt_eq ZIO_CHECKSUM_FUNCTIONS_def not_less split: if_splits option.splits)
  ultimately show ?thesis using that by blast
qed

text \<open>The block pointer that describes a written block: its checksum function, its checksum, and the
  byte order of the host that wrote it.  A gang header is verified by its address.\<close>

definition written_as :: "bool \<Rightarrow> nat \<Rightarrow> zio_cksum \<Rightarrow> u64 list \<Rightarrow> blkptr \<Rightarrow> bool" where
  "written_as be c zc buf bp \<longleftrightarrow>
     unat (ZIO_GET_IOSIZE bp) = 8 * length buf \<and> BP_GET_BYTEORDER bp = ZFS_HOST_BYTEORDER be \<and>
     (if BP_IS_GANG bp then c = ZIO_CHECKSUM_GANG_HEADER \<and> zc = zio_set_gang_verifier bp
      else BP_GET_CHECKSUM bp = of_nat c \<and> c \<noteq> ZIO_CHECKSUM_GANG_HEADER \<and> zc = blk_cksum bp)"

lemma written_as_checksum:
  assumes "written_as be c zc buf bp" "c < 9"
  shows "(if BP_IS_GANG bp then ZIO_CHECKSUM_GANG_HEADER else unat (BP_GET_CHECKSUM bp)) = c"
    and "(if c = ZIO_CHECKSUM_GANG_HEADER then zio_set_gang_verifier bp else blk_cksum bp) = zc"
    and "unat (ZIO_GET_IOSIZE bp) div 8 = length buf"
  using assms by (auto simp: written_as_def unat_of_nat split: if_splits)

lemma byteorder_swap: "BP_GET_BYTEORDER bp = ZFS_HOST_BYTEORDER be \<Longrightarrow> BP_SHOULD_BYTESWAP host bp \<longleftrightarrow> host \<noteq> be"
  by (cases host; cases be) (simp_all add: BP_SHOULD_BYTESWAP_def ZFS_HOST_BYTEORDER_def)

lemma zio_checksum_verified_aux:
  assumes w: "zio_checksum be c buf = Some (zc, buf')" and bp: "written_as be c zc buf' bp"
    and io: "io_bp io = Some bp" "io_data io = (if host = be then buf' else map BSWAP_64 buf') @ rest"
    and inj: "zio_injection_enabled st = 0"
  shows "zio_checksum_error host rand st io = Some (0, io_data io)"
proof -
  obtain func0 func1 where f: "c < 9" "ci_func (zio_checksum_table ! c) = Some (func0, func1)" "checksum_pair func0 func1"
    and body: "if ci_zbt (zio_checksum_table ! c)
     then 5 \<le> length buf \<and> zc = zbt_cksum (get_zbt buf) \<and>
       (\<exists>ck. func0 be (set_zbt ((get_zbt buf)\<lparr>zbt_magic := ZBT_MAGIC\<rparr>) buf) = Some ck \<and>
             buf' = set_zbt \<lparr>zbt_magic = ZBT_MAGIC, zbt_cksum = ck\<rparr> buf)
     else func0 be buf = Some zc \<and> buf' = buf"
    using zio_checksum_SomeD [OF w] .
  note wc = written_as_checksum [OF bp f(1)]
  let ?buf = "if host = be then buf' else map BSWAP_64 buf'"
  have "\<exists>a. (if ci_zbt (zio_checksum_table ! c)
        then checksum_zbt_verify func0 func1 host zc ?buf
        else map_option (\<lambda>actual. (actual, blk_cksum bp, ?buf))
               ((if BP_SHOULD_BYTESWAP host bp then func1 else func0) host ?buf)) = Some (a, a, ?buf)"
  proof (cases "ci_zbt (zio_checksum_table ! c)")
    case True
    then obtain ck where ck: "5 \<le> length buf" "zc = zbt_cksum (get_zbt buf)"
      "func0 be (set_zbt ((get_zbt buf)\<lparr>zbt_magic := ZBT_MAGIC\<rparr>) buf) = Some ck"
      "buf' = set_zbt \<lparr>zbt_magic = ZBT_MAGIC, zbt_cksum = ck\<rparr> buf" using body by auto
    show ?thesis
      using True ck(2) checksum_pair.tail_verified [OF f(3) ck(1,3,4)] checksum_pair.tail_verified_swapped [OF f(3) ck(1,3,4)]
      by (cases "host = be") auto
  next
    case False
    then have "func0 be buf' = Some zc" using body by simp
    moreover have "c \<noteq> ZIO_CHECKSUM_GANG_HEADER" using False
      by (auto simp: zio_checksum_table_def ck_info_def ZIO_CHECKSUM_GANG_HEADER_def)
    then have "zc = blk_cksum bp" using wc(2) by simp
    moreover have "BP_SHOULD_BYTESWAP host bp \<longleftrightarrow> host \<noteq> be" using bp by (intro byteorder_swap) (simp add: written_as_def)
    moreover have "func1 (\<not> be) (map BSWAP_64 buf') = func0 be buf'" using checksum_pair.swapped [OF f(3)] .
    moreover have "host \<noteq> be \<Longrightarrow> host = (\<not> be)" by auto
    ultimately show ?thesis using False by (cases "host = be") auto
  qed
  then obtain a where a: "(if ci_zbt (zio_checksum_table ! c)
        then checksum_zbt_verify func0 func1 host zc ?buf
        else map_option (\<lambda>actual. (actual, blk_cksum bp, ?buf))
               ((if BP_SHOULD_BYTESWAP host bp then func1 else func0) host ?buf)) = Some (a, a, ?buf)" by blast
  have t: "take (length buf') (io_data io) = ?buf" "drop (length buf') (io_data io) = rest" "\<not> length (io_data io) < length buf'"
    "\<not> ZIO_CHECKSUM_FUNCTIONS \<le> c"
    using io(2) f(1) by (auto simp: ZIO_CHECKSUM_FUNCTIONS_def)
  show ?thesis
    by (simp only: zio_checksum_error_def io(1) option.case Let_def wc t f(2) a inj checksum_equal_iff prod.case
        if_False not_True_eq_False simp_thms) (simp add: io(2))
qed

subsection \<open>Detection of a changed word\<close>

lemma fletcher_2_diff:
  "fletcher_2_native_loop ws a0 b0 a1 b1 = Some zc \<Longrightarrow> fletcher_2_native_loop ws a0' b0' a1' b1' = Some zc' \<Longrightarrow>
   zc_word0 zc - zc_word0 zc' = a0 - a0' \<and> zc_word1 zc - zc_word1 zc' = a1 - a1'"
proof (induction ws a0 b0 a1 b1 arbitrary: a0' b0' a1' b1' rule: fletcher_2_native_loop.induct)
  case (3 w0 w1 ip a0 b0 a1 b1)
  have "zc_word0 zc - zc_word0 zc' = (a0 + w0) - (a0' + w0) \<and> zc_word1 zc - zc_word1 zc' = (a1 + w1) - (a1' + w1)"
    using "3.IH" [OF refl refl refl refl] "3.prems" by (simp add: Let_def)
  then show ?case by simp
qed (auto simp: ZIO_SET_CHECKSUM_def)

lemma fletcher_2_detects:
  "fletcher_2_native_loop ws a0 b0 a1 b1 = Some zc \<Longrightarrow> fletcher_2_native_loop (ws[i := v]) a0 b0 a1 b1 = Some zc' \<Longrightarrow>
   i < length ws \<Longrightarrow> v \<noteq> ws ! i \<Longrightarrow> zc \<noteq> zc'"
proof (induction ws a0 b0 a1 b1 arbitrary: i rule: fletcher_2_native_loop.induct)
  case (3 w0 w1 ip a0 b0 a1 b1)
  consider "i = 0" | "i = 1" | j where "i = Suc (Suc j)" by (metis One_nat_def nat.exhaust)
  then show ?case
  proof cases
    case 1
    then have "zc_word0 zc - zc_word0 zc' = (a0 + w0) - (a0 + v)"
      using fletcher_2_diff [where ws = ip] "3.prems"(1,2) by (simp add: Let_def)
    then show ?thesis using 1 "3.prems"(4) by auto
  next
    case 2
    then have "zc_word1 zc - zc_word1 zc' = (a1 + w1) - (a1 + v)"
      using fletcher_2_diff [where ws = ip] "3.prems"(1,2) by (simp add: Let_def)
    then show ?thesis using 2 "3.prems"(4) by auto
  next
    case 3
    then show ?thesis using "3.IH" [OF refl refl refl refl, of j] "3.prems" by (simp add: Let_def)
  qed
qed auto

lemma fletcher_4_diff:
  "zc_word0 (fletcher_4_native_loop ws a b c d) - zc_word0 (fletcher_4_native_loop ws a' b' c' d') = a - a'"
  "a = a' \<Longrightarrow> zc_word1 (fletcher_4_native_loop ws a b c d) - zc_word1 (fletcher_4_native_loop ws a' b' c' d') = b - b'"
proof -
  show "zc_word0 (fletcher_4_native_loop ws a b c d) - zc_word0 (fletcher_4_native_loop ws a' b' c' d') = a - a'"
    by (induction ws arbitrary: a b c d a' b' c' d') (simp_all add: Let_def ZIO_SET_CHECKSUM_def)
  show "a = a' \<Longrightarrow> zc_word1 (fletcher_4_native_loop ws a b c d) - zc_word1 (fletcher_4_native_loop ws a' b' c' d') = b - b'"
    by (induction ws arbitrary: a b c d a' b' c' d') (simp_all add: Let_def ZIO_SET_CHECKSUM_def)
qed

lemma ucast_u32_inj: "(ucast (x :: u32) :: u64) = ucast y \<longleftrightarrow> x = y"
proof
  assume e: "(ucast x :: u64) = ucast y"
  show "x = y"
  proof (rule bit_eqI)
    fix i
    have "bit (ucast x :: u64) i = bit (ucast y :: u64) i" using e by simp
    then show "possible_bit TYPE(u32) i \<Longrightarrow> bit x i = bit y i" by (simp add: bit_ucast_iff)
  qed
qed simp

lemma fletcher_4_pair:
  assumes "fletcher_4_native_loop (us @ x # y # vs) a b c d = fletcher_4_native_loop (us @ x' # y' # vs) a b c d"
  shows "x = x' \<and> y = y'"
proof -
  define s where "s = fletcher_4_native_loop us a b c d"
  let ?a = "zc_word0 s" and ?b = "zc_word1 s"
  have e: "fletcher_4_incremental_native (x # y # vs) s = fletcher_4_incremental_native (x' # y' # vs) s"
    using assms by (simp add: fletcher_4_append s_def)
  let ?A = "?a + ucast x + ucast y" and ?A' = "?a + ucast x' + ucast y'"
  let ?B = "?b + (?a + ucast x) + ?A" and ?B' = "?b + (?a + ucast x') + ?A'"
  obtain c1 d1 c2 d2 where l: "fletcher_4_native_loop vs ?A ?B c1 d1 = fletcher_4_native_loop vs ?A' ?B' c2 d2"
    using e unfolding fletcher_4_incremental_native_def fletcher_4_native_loop.simps Let_def by blast
  have a: "?A = ?A'" using fletcher_4_diff(1) [of vs ?A ?B c1 d1 ?A' ?B' c2 d2] unfolding l by (simp only: diff_self eq_commute [of 0] right_minus_eq)
  have "?B = ?B'" using fletcher_4_diff(2) [OF a, of vs ?B c1 d1 ?B' c2 d2] unfolding l by (simp only: diff_self eq_commute [of 0] right_minus_eq)
  then have x: "(ucast x :: u64) = ucast x'" unfolding a by (simp only: add_right_cancel add_left_cancel)
  then have "(ucast y :: u64) = ucast y'" using a by (simp only: add_left_cancel)
  with x show ?thesis by (simp add: ucast_u32_inj)
qed

lemma words32_append: "words32 be (us @ ws) = words32 be us @ words32 be ws"
  by (simp add: words32_def)

lemma word_halves:
  assumes "(ucast (v :: u64) :: u32) = ucast w" "(ucast (drop_bit 32 v) :: u32) = ucast (drop_bit 32 w)"
  shows "v = w"
proof (rule bit_eqI)
  fix i assume "possible_bit TYPE(u64) i"
  then have i: "i < 64" by simp
  have lo: "bit (ucast v :: u32) i = bit (ucast w :: u32) i" using assms(1) by simp
  have hi: "bit (ucast (drop_bit 32 v) :: u32) (i - 32) = bit (ucast (drop_bit 32 w) :: u32) (i - 32)" using assms(2) by simp
  show "bit v i = bit w i"
  proof (cases "i < 32")
    case True
    then show ?thesis using lo by (simp add: bit_ucast_iff)
  next
    case False
    then have "i - 32 < 32" using i by simp
    then show ?thesis using hi False by (simp add: bit_ucast_iff bit_drop_bit_eq)
  qed
qed

lemma fletcher_4_detects:
  assumes "i < length ws" "v \<noteq> ws ! i"
  shows "fletcher_4_native (words32 be ws) \<noteq> fletcher_4_native (words32 be (ws[i := v]))"
proof
  assume e: "fletcher_4_native (words32 be ws) = fletcher_4_native (words32 be (ws[i := v]))"
  let ?us = "take i ws" and ?vs = "drop (Suc i) ws"
  have ws: "words32 be ws = words32 be (?us @ [ws ! i]) @ words32 be ?vs"
    using assms(1) by (simp add: id_take_nth_drop [symmetric] flip: words32_append)
  have ws': "words32 be (ws[i := v]) = words32 be (?us @ [v]) @ words32 be ?vs"
    using assms(1) by (simp add: upd_conv_take_nth_drop words32_append [symmetric])
  let ?x = "\<lambda>w. ucast (if be then drop_bit 32 w else w) :: u32" and ?y = "\<lambda>w. ucast (if be then w else drop_bit 32 w) :: u32"
  have one: "words32 be [w] = [?x w, ?y w]" for w by (simp add: words32_def)
  have "fletcher_4_native_loop (words32 be ?us @ ?x (ws ! i) # ?y (ws ! i) # words32 be ?vs) 0 0 0 0 =
      fletcher_4_native_loop (words32 be ?us @ ?x v # ?y v # words32 be ?vs) 0 0 0 0"
    using e by (simp only: fletcher_4_native_def ws ws' words32_append one append_assoc append_Cons append_Nil)
  then have "?x (ws ! i) = ?x v \<and> ?y (ws ! i) = ?y v" by (rule fletcher_4_pair)
  then have "(ucast (ws ! i) :: u32) = ucast v \<and> (ucast (drop_bit 32 (ws ! i)) :: u32) = ucast (drop_bit 32 v)"
    by (cases be) (simp_all only: if_True if_False simp_thms)
  then have "ws ! i = v" by (intro word_halves) simp_all
  then show False using assms(2) by simp
qed

text \<open>C16: A block that is written and read back is verified: with the checksum and the buffer
  that \<^verbatim>\<open>zio_checksum\<close> produced, \<^verbatim>\<open>zio_checksum_error\<close> returns 0 and leaves the data as it
  was, for every checksum function, with and without a block tail, gang headers included,
  on a host of the byte order of the writer and on a host of the other one.\<close>

theorem zio_checksum_write_verify:
  assumes "zio_checksum be c buf = Some (zc, buf')" and "written_as be c zc buf' bp"
    and "io_bp io = Some bp" and "io_data io = (if host = be then buf' else map BSWAP_64 buf') @ rest"
    and "zio_injection_enabled st = 0"
  shows "zio_checksum_error host rand st io = Some (0, io_data io)"
  using assms by (rule zio_checksum_verified_aux)

definition example_buf :: "u64 list" where
  "example_buf = replicate 64 42"

definition example_bp :: "u64 \<Rightarrow> zio_cksum \<Rightarrow> blkptr" where
  "example_bp c zc = BP_ZERO\<lparr>blk_prop := 2 ^ 63 + c * 2 ^ 40, blk_cksum := zc\<rparr>"

definition example_io :: "blkptr \<Rightarrow> u64 list \<Rightarrow> zio" where
  "example_io bp buf = \<lparr>io_spa = ''tank'', io_logical = None, io_type = ZIO_TYPE_READ, io_bp = Some bp,
     io_data = buf, io_error = 0\<rparr>"

lemma example_written:
  "written_as False ZIO_CHECKSUM_FLETCHER_4 zc example_buf (example_bp 7 zc)" "\<not> BP_IS_GANG (example_bp 7 zc)"
  by (simp_all add: written_as_def example_bp_def example_buf_def ZIO_GET_IOSIZE_def BP_IS_GANG_def BP_IDENTITY_def
      DVA_GET_GANG_def BP_ZERO_def BP_GET_PSIZE_def BP_GET_BYTEORDER_def BP_GET_CHECKSUM_def ZFS_HOST_BYTEORDER_def
      BF64_GET_SB_def BF64_DECODE_def P2PHASE_def SPA_MINBLOCKSHIFT_def ZIO_CHECKSUM_FLETCHER_4_def ZIO_CHECKSUM_GANG_HEADER_def)

lemma example_checksum:
  "zio_checksum False ZIO_CHECKSUM_FLETCHER_4 buf = Some (fletcher_4_native (words32 False buf), buf)"
  by (simp add: zio_checksum_def zio_checksum_table_def ck_info_def ZIO_CHECKSUM_FLETCHER_4_def
      ZIO_CHECKSUM_FUNCTIONS_def checksum_fletcher_4_def)

theorem zio_checksum_write_verify_witness:
  "zio_checksum_error True (\<lambda>_. 0) (zio_inject_init Map.empty)
     (example_io (example_bp 7 (fletcher_4_native (words32 False example_buf))) (map BSWAP_64 example_buf))
   = Some (0, map BSWAP_64 example_buf)"
  using zio_checksum_write_verify [OF example_checksum example_written(1), of
      "example_io (example_bp 7 (fletcher_4_native (words32 False example_buf))) (map BSWAP_64 example_buf)" True "[]"]
  by (simp add: example_io_def zio_inject_init_def)

text \<open>C12: Silent corruption is detected: if a block with a Fletcher checksum is read back with
  one of its 64-bit words changed in any way, on a host of either byte order, the
  verification returns \<^verbatim>\<open>ECKSUM\<close>.\<close>

theorem zio_checksum_detects_change:
  assumes c: "c = ZIO_CHECKSUM_FLETCHER_2 \<or> c = ZIO_CHECKSUM_FLETCHER_4"
    and w: "zio_checksum be c buf = Some (zc, buf)" and bp: "written_as be c zc buf bp" "\<not> BP_IS_GANG bp"
    and i: "i < length buf" "v \<noteq> buf ! i"
    and io: "io_bp io = Some bp" "io_data io = (if host = be then buf[i := v] else map BSWAP_64 (buf[i := v])) @ rest"
  shows "zio_checksum_error host rand st io = Some (ECKSUM, io_data io)"
proof -
  let ?buf = "if host = be then buf[i := v] else map BSWAP_64 (buf[i := v])"
  obtain func0 func1 where f: "c < 9" "ci_func (zio_checksum_table ! c) = Some (func0, func1)" "checksum_pair func0 func1"
    using zio_checksum_SomeD [OF w] .
  have zbt: "\<not> ci_zbt (zio_checksum_table ! c)" using c
    by (auto simp: zio_checksum_table_def ck_info_def ZIO_CHECKSUM_FLETCHER_2_def ZIO_CHECKSUM_FLETCHER_4_def)
  then have zc: "func0 be buf = Some zc"
    using w f(1,2) by (auto simp: zio_checksum_def Let_def ZIO_CHECKSUM_FUNCTIONS_def split: option.splits)
  obtain zc' where zc': "func0 be (buf[i := v]) = Some zc'" "zc' \<noteq> zc"
    using c f(2) zc fletcher_2_total [of "buf[i := v]" 0 0 0 0] fletcher_2_total [of buf 0 0 0 0]
      fletcher_2_detects [of buf 0 0 0 0 zc i v, OF _ _ i] fletcher_4_detects [OF i, of be] i
    by (auto simp: zio_checksum_table_def ck_info_def ZIO_CHECKSUM_FLETCHER_2_def ZIO_CHECKSUM_FLETCHER_4_def
        checksum_fletcher_2_def checksum_fletcher_4_def fletcher_2_native_def)
  have sw: "BP_SHOULD_BYTESWAP host bp \<longleftrightarrow> host \<noteq> be" using bp(1) by (intro byteorder_swap) (simp add: written_as_def)
  have "(if BP_SHOULD_BYTESWAP host bp then func1 else func0) host ?buf = Some zc'"
  proof (cases "host = be")
    case False
    then have "host = (\<not> be)" by auto
    then show ?thesis using checksum_pair.swapped [OF f(3), of be "buf[i := v]"] zc' sw by simp
  qed (use zc' sw in simp)
  moreover have "zc = blk_cksum bp" using bp by (simp add: written_as_def)
  ultimately have a: "map_option (\<lambda>actual. (actual, blk_cksum bp, ?buf))
      ((if BP_SHOULD_BYTESWAP host bp then func1 else func0) host ?buf) = Some (zc', zc, ?buf)"
    by (simp only: option.map)
  have t: "take (length buf) (io_data io) = ?buf" "drop (length buf) (io_data io) = rest" "\<not> length (io_data io) < length buf"
    "\<not> ZIO_CHECKSUM_FUNCTIONS \<le> c" "\<not> zc' = zc"
    using io(2) f(1) zc' by (auto simp: ZIO_CHECKSUM_FUNCTIONS_def)
  show ?thesis
    by (simp only: zio_checksum_error_def io(1) option.case Let_def written_as_checksum [OF bp(1) f(1)] t f(2) zbt a
        checksum_equal_iff prod.case if_False if_True not_False_eq_True) (simp add: io(2))
qed

theorem zio_checksum_detects_change_witness:
  "zio_checksum_error True (\<lambda>_. 0) (zio_inject_init Map.empty)
     (example_io (example_bp 7 (fletcher_4_native (words32 False example_buf))) (map BSWAP_64 (example_buf[5 := 43])))
   = Some (ECKSUM, map BSWAP_64 (example_buf[5 := 43]))"
  using zio_checksum_detects_change [OF _ example_checksum example_written, of 5 43
      "example_io (example_bp 7 (fletcher_4_native (words32 False example_buf))) (map BSWAP_64 (example_buf[5 := 43]))" True "[]"
      "\<lambda>_. 0" "zio_inject_init Map.empty"]
  by (simp add: example_io_def example_buf_def)

end
