(* ===== verification/Raidz.thy ===== *)
theory Raidz
  imports Checksum
begin

section \<open>RAID-Z\<close>

text \<open>
  The RAID-Z virtual devices of \<^verbatim>\<open>fs/zfs/vdev_raidz.c\<close>: the arithmetic of the field
  GF(2^8), the layout of an I/O over the children, the generation of the parity and
  the reconstruction of missing columns.  The data of a column are its 64-bit words; the
  data columns lie in the buffer of the I/O one behind the other, so that the buffer is their
  concatenation.  \<open>alloc\<close> stands for \<^verbatim>\<open>zio_buf_alloc\<close>: a buffer of the given size in bytes,
  with unknown contents.
\<close>

unbundle bit_operations_syntax

record raidz_col =
  rc_devidx :: u64
  rc_offset :: u64
  rc_size :: u64
  rc_data :: "u64 list"
  rc_error :: int
  rc_tried :: bool
  rc_skipped :: bool

record raidz_map =
  rm_bigcols :: u64
  rm_asize :: u64
  rm_missingdata :: nat
  rm_missingparity :: nat
  rm_firstdatacol :: nat
  rm_col :: "raidz_col list"

definition rm_cols :: "raidz_map \<Rightarrow> nat" where
  "rm_cols rm = length (rm_col rm)"

definition VDEV_RAIDZ_P :: nat where "VDEV_RAIDZ_P = 0"
definition VDEV_RAIDZ_Q :: nat where "VDEV_RAIDZ_Q = 1"
definition VDEV_RAIDZ_MAXPARITY :: nat where "VDEV_RAIDZ_MAXPARITY = 2"

definition VDEV_RAIDZ_MUL_2 :: "u8 \<Rightarrow> u8" where
  "VDEV_RAIDZ_MUL_2 a = push_bit 1 a XOR (if a AND 0x80 \<noteq> 0 then 0x1d else 0)"

definition vdev_raidz_pow2 :: "u8 list" where
  "vdev_raidz_pow2 = [
     0x01, 0x02, 0x04, 0x08, 0x10, 0x20, 0x40, 0x80, 0x1d, 0x3a, 0x74, 0xe8, 0xcd, 0x87, 0x13, 0x26,
     0x4c, 0x98, 0x2d, 0x5a, 0xb4, 0x75, 0xea, 0xc9, 0x8f, 0x03, 0x06, 0x0c, 0x18, 0x30, 0x60, 0xc0,
     0x9d, 0x27, 0x4e, 0x9c, 0x25, 0x4a, 0x94, 0x35, 0x6a, 0xd4, 0xb5, 0x77, 0xee, 0xc1, 0x9f, 0x23,
     0x46, 0x8c, 0x05, 0x0a, 0x14, 0x28, 0x50, 0xa0, 0x5d, 0xba, 0x69, 0xd2, 0xb9, 0x6f, 0xde, 0xa1,
     0x5f, 0xbe, 0x61, 0xc2, 0x99, 0x2f, 0x5e, 0xbc, 0x65, 0xca, 0x89, 0x0f, 0x1e, 0x3c, 0x78, 0xf0,
     0xfd, 0xe7, 0xd3, 0xbb, 0x6b, 0xd6, 0xb1, 0x7f, 0xfe, 0xe1, 0xdf, 0xa3, 0x5b, 0xb6, 0x71, 0xe2,
     0xd9, 0xaf, 0x43, 0x86, 0x11, 0x22, 0x44, 0x88, 0x0d, 0x1a, 0x34, 0x68, 0xd0, 0xbd, 0x67, 0xce,
     0x81, 0x1f, 0x3e, 0x7c, 0xf8, 0xed, 0xc7, 0x93, 0x3b, 0x76, 0xec, 0xc5, 0x97, 0x33, 0x66, 0xcc,
     0x85, 0x17, 0x2e, 0x5c, 0xb8, 0x6d, 0xda, 0xa9, 0x4f, 0x9e, 0x21, 0x42, 0x84, 0x15, 0x2a, 0x54,
     0xa8, 0x4d, 0x9a, 0x29, 0x52, 0xa4, 0x55, 0xaa, 0x49, 0x92, 0x39, 0x72, 0xe4, 0xd5, 0xb7, 0x73,
     0xe6, 0xd1, 0xbf, 0x63, 0xc6, 0x91, 0x3f, 0x7e, 0xfc, 0xe5, 0xd7, 0xb3, 0x7b, 0xf6, 0xf1, 0xff,
     0xe3, 0xdb, 0xab, 0x4b, 0x96, 0x31, 0x62, 0xc4, 0x95, 0x37, 0x6e, 0xdc, 0xa5, 0x57, 0xae, 0x41,
     0x82, 0x19, 0x32, 0x64, 0xc8, 0x8d, 0x07, 0x0e, 0x1c, 0x38, 0x70, 0xe0, 0xdd, 0xa7, 0x53, 0xa6,
     0x51, 0xa2, 0x59, 0xb2, 0x79, 0xf2, 0xf9, 0xef, 0xc3, 0x9b, 0x2b, 0x56, 0xac, 0x45, 0x8a, 0x09,
     0x12, 0x24, 0x48, 0x90, 0x3d, 0x7a, 0xf4, 0xf5, 0xf7, 0xf3, 0xfb, 0xeb, 0xcb, 0x8b, 0x0b, 0x16,
     0x2c, 0x58, 0xb0, 0x7d, 0xfa, 0xe9, 0xcf, 0x83, 0x1b, 0x36, 0x6c, 0xd8, 0xad, 0x47, 0x8e, 0x01]"

definition vdev_raidz_log2 :: "u8 list" where
  "vdev_raidz_log2 = [
     0x00, 0x00, 0x01, 0x19, 0x02, 0x32, 0x1a, 0xc6, 0x03, 0xdf, 0x33, 0xee, 0x1b, 0x68, 0xc7, 0x4b,
     0x04, 0x64, 0xe0, 0x0e, 0x34, 0x8d, 0xef, 0x81, 0x1c, 0xc1, 0x69, 0xf8, 0xc8, 0x08, 0x4c, 0x71,
     0x05, 0x8a, 0x65, 0x2f, 0xe1, 0x24, 0x0f, 0x21, 0x35, 0x93, 0x8e, 0xda, 0xf0, 0x12, 0x82, 0x45,
     0x1d, 0xb5, 0xc2, 0x7d, 0x6a, 0x27, 0xf9, 0xb9, 0xc9, 0x9a, 0x09, 0x78, 0x4d, 0xe4, 0x72, 0xa6,
     0x06, 0xbf, 0x8b, 0x62, 0x66, 0xdd, 0x30, 0xfd, 0xe2, 0x98, 0x25, 0xb3, 0x10, 0x91, 0x22, 0x88,
     0x36, 0xd0, 0x94, 0xce, 0x8f, 0x96, 0xdb, 0xbd, 0xf1, 0xd2, 0x13, 0x5c, 0x83, 0x38, 0x46, 0x40,
     0x1e, 0x42, 0xb6, 0xa3, 0xc3, 0x48, 0x7e, 0x6e, 0x6b, 0x3a, 0x28, 0x54, 0xfa, 0x85, 0xba, 0x3d,
     0xca, 0x5e, 0x9b, 0x9f, 0x0a, 0x15, 0x79, 0x2b, 0x4e, 0xd4, 0xe5, 0xac, 0x73, 0xf3, 0xa7, 0x57,
     0x07, 0x70, 0xc0, 0xf7, 0x8c, 0x80, 0x63, 0x0d, 0x67, 0x4a, 0xde, 0xed, 0x31, 0xc5, 0xfe, 0x18,
     0xe3, 0xa5, 0x99, 0x77, 0x26, 0xb8, 0xb4, 0x7c, 0x11, 0x44, 0x92, 0xd9, 0x23, 0x20, 0x89, 0x2e,
     0x37, 0x3f, 0xd1, 0x5b, 0x95, 0xbc, 0xcf, 0xcd, 0x90, 0x87, 0x97, 0xb2, 0xdc, 0xfc, 0xbe, 0x61,
     0xf2, 0x56, 0xd3, 0xab, 0x14, 0x2a, 0x5d, 0x9e, 0x84, 0x3c, 0x39, 0x53, 0x47, 0x6d, 0x41, 0xa2,
     0x1f, 0x2d, 0x43, 0xd8, 0xb7, 0x7b, 0xa4, 0x76, 0xc4, 0x17, 0x49, 0xec, 0x7f, 0x0c, 0x6f, 0xf6,
     0x6c, 0xa1, 0x3b, 0x52, 0x29, 0x9d, 0x55, 0xaa, 0xfb, 0x60, 0x86, 0xb1, 0xbb, 0xcc, 0x3e, 0x5a,
     0xcb, 0x59, 0x5f, 0xb0, 0x9c, 0xa9, 0xa0, 0x51, 0x0b, 0xf5, 0x16, 0xeb, 0x7a, 0x75, 0x2c, 0xd7,
     0x4f, 0xae, 0xd5, 0xe9, 0xe6, 0xe7, 0xad, 0xe8, 0x74, 0xd6, 0xf4, 0xea, 0xa8, 0x50, 0x58, 0xaf]"

definition vdev_raidz_exp2 :: "u8 \<Rightarrow> nat \<Rightarrow> u8" where
  "vdev_raidz_exp2 a exp =
     (if a = 0 then 0
      else let exp = exp + unat (vdev_raidz_log2 ! unat a);
               exp = (if exp > 255 then exp - 255 else exp)
           in vdev_raidz_pow2 ! exp)"

subsection \<open>Layout\<close>

definition roundup :: "u64 \<Rightarrow> u64 \<Rightarrow> u64" where
  "roundup x y = (x + (y - 1)) div y * y"

definition raidz_new_col :: "nat \<Rightarrow> u64 \<Rightarrow> u64 \<Rightarrow> u64 \<Rightarrow> u64 \<Rightarrow> u64 \<Rightarrow> u64 \<Rightarrow> raidz_col" where
  "raidz_new_col unit_shift dcols f o' q bc c =
     (let col = f + c; coff = o';
          (col, coff) = (if dcols \<le> col then (col - dcols, coff + push_bit unit_shift 1) else (col, coff))
      in \<lparr>rc_devidx = col, rc_offset = coff, rc_size = push_bit unit_shift (q + (if c < bc then 1 else 0)),
          rc_data = [], rc_error = 0, rc_tried = False, rc_skipped = False\<rparr>)"

definition rc_count :: "raidz_col \<Rightarrow> nat" where
  "rc_count rc = unat (rc_size rc) div 8"

fun raidz_assign_data :: "u64 list \<Rightarrow> raidz_col list \<Rightarrow> raidz_col list" where
  "raidz_assign_data dat [] = []"
| "raidz_assign_data dat (rc # rcs) =
     rc\<lparr>rc_data := take (rc_count rc) dat\<rparr> # raidz_assign_data (drop (rc_count rc) dat) rcs"

definition raidz_swap_parity :: "raidz_col list \<Rightarrow> raidz_col list" where
  "raidz_swap_parity cs =
     (let devidx = rc_devidx (cs ! 0); o' = rc_offset (cs ! 0)
      in cs[0 := (cs ! 0)\<lparr>rc_devidx := rc_devidx (cs ! 1), rc_offset := rc_offset (cs ! 1)\<rparr>,
            1 := (cs ! 1)\<lparr>rc_devidx := devidx, rc_offset := o'\<rparr>])"

definition vdev_raidz_map_alloc ::
    "(u64 \<Rightarrow> u64 list) \<Rightarrow> u64 \<Rightarrow> u64 \<Rightarrow> u64 list \<Rightarrow> nat \<Rightarrow> u64 \<Rightarrow> u64 \<Rightarrow> raidz_map" where
  "vdev_raidz_map_alloc alloc offset sz dat unit_shift dcols nparity =
     (let b = drop_bit unit_shift offset;
          s = drop_bit unit_shift sz;
          f = b mod dcols;
          o' = push_bit unit_shift (b div dcols);
          q = s div (dcols - nparity);
          r = s - q * (dcols - nparity);
          bc = (if r = 0 then 0 else r + nparity);
          acols = (if q = 0 then bc else dcols);
          cs = map (\<lambda>c. raidz_new_col unit_shift dcols f o' q bc (of_nat c)) [0..<unat acols];
          asize = sum_list (map rc_size cs);
          asize = roundup asize (push_bit unit_shift (nparity + 1));
          cs = map (\<lambda>rc. rc\<lparr>rc_data := alloc (rc_size rc)\<rparr>) (take (unat nparity) cs)
                 @ raidz_assign_data dat (drop (unat nparity) cs);
          cs = (if nparity = 1 \<and> offset AND push_bit 20 1 \<noteq> 0 then raidz_swap_parity cs else cs)
      in \<lparr>rm_bigcols = bc, rm_asize = asize, rm_missingdata = 0, rm_missingparity = 0,
          rm_firstdatacol = unat nparity, rm_col = cs\<rparr>)"

definition vdev_raidz_asize :: "nat \<Rightarrow> u64 \<Rightarrow> u64 \<Rightarrow> u64 \<Rightarrow> u64" where
  "vdev_raidz_asize ashift cols nparity psize =
     (let asize = drop_bit ashift (psize - 1) + 1;
          asize = asize + nparity * ((asize + cols - nparity - 1) div (cols - nparity))
      in push_bit ashift (roundup asize (nparity + 1)))"

subsection \<open>Parity and reconstruction\<close>

text \<open>\<^verbatim>\<open>for (i = 0; i < n; i++) *dst++ = *src++\<close>, and the same with \<^verbatim>\<open>^=\<close>.\<close>

definition copy_words :: "nat \<Rightarrow> u64 list \<Rightarrow> u64 list \<Rightarrow> u64 list" where
  "copy_words n src dst = take n src @ drop n dst"
definition xor_words :: "nat \<Rightarrow> u64 list \<Rightarrow> u64 list \<Rightarrow> u64 list" where
  "xor_words n src dst = map2 (XOR) (take n src) (take n dst) @ drop n dst"

definition rm_data :: "raidz_map \<Rightarrow> nat \<Rightarrow> u64 list" where
  "rm_data rm c = rc_data (rm_col rm ! c)"
definition rm_count :: "raidz_map \<Rightarrow> nat \<Rightarrow> nat" where
  "rm_count rm c = rc_count (rm_col rm ! c)"
definition rm_set_data :: "nat \<Rightarrow> u64 list \<Rightarrow> raidz_map \<Rightarrow> raidz_map" where
  "rm_set_data c dat rm = rm\<lparr>rm_col := (rm_col rm)[c := (rm_col rm ! c)\<lparr>rc_data := dat\<rparr>]\<rparr>"
definition rm_set_size :: "nat \<Rightarrow> u64 \<Rightarrow> raidz_map \<Rightarrow> raidz_map" where
  "rm_set_size c sz rm = rm\<lparr>rm_col := (rm_col rm)[c := (rm_col rm ! c)\<lparr>rc_size := sz\<rparr>]\<rparr>"

definition vdev_raidz_generate_parity_p :: "raidz_map \<Rightarrow> raidz_map" where
  "vdev_raidz_generate_parity_p rm =
     rm_set_data VDEV_RAIDZ_P
       (foldl (\<lambda>p c. if c = rm_firstdatacol rm then copy_words (rm_count rm c) (rm_data rm c) p
                     else xor_words (rm_count rm c) (rm_data rm c) p)
          (rm_data rm VDEV_RAIDZ_P) [rm_firstdatacol rm..<rm_cols rm]) rm"

text \<open>The multiplication by 2 of the eight bytes of a word at once.\<close>

definition raidz_mul2_word :: "u64 \<Rightarrow> u64" where
  "raidz_mul2_word q =
     (let mask = q AND 0x8080808080808080;
          mask = push_bit 1 mask - drop_bit 7 mask
      in (push_bit 1 q AND 0xfefefefefefefefe) XOR (mask AND 0x1d1d1d1d1d1d1d1d))"

definition mul2_xor_words :: "nat \<Rightarrow> nat \<Rightarrow> u64 list \<Rightarrow> u64 list \<Rightarrow> u64 list" where
  "mul2_xor_words ccount pcount src q =
     map2 (\<lambda>s q. raidz_mul2_word q XOR s) (take ccount src) (take ccount q)
     @ map raidz_mul2_word (take (pcount - ccount) (drop ccount q)) @ drop (max ccount pcount) q"

definition copy_zero_words :: "nat \<Rightarrow> nat \<Rightarrow> u64 list \<Rightarrow> u64 list \<Rightarrow> u64 list" where
  "copy_zero_words ccount pcount src q =
     take ccount src @ replicate (pcount - ccount) 0 @ drop (max ccount pcount) q"

definition vdev_raidz_generate_parity_pq :: "raidz_map \<Rightarrow> raidz_map" where
  "vdev_raidz_generate_parity_pq rm =
     (let pcount = rm_count rm VDEV_RAIDZ_P;
          (p, q) = foldl (\<lambda>(p, q) c.
              let src = rm_data rm c; ccount = rm_count rm c
              in if c = rm_firstdatacol rm
                 then (copy_zero_words ccount pcount src p, copy_zero_words ccount pcount src q)
                 else (xor_words ccount src p, mul2_xor_words ccount pcount src q))
            (rm_data rm VDEV_RAIDZ_P, rm_data rm VDEV_RAIDZ_Q) [rm_firstdatacol rm..<rm_cols rm]
      in rm_set_data VDEV_RAIDZ_Q q (rm_set_data VDEV_RAIDZ_P p rm))"

definition vdev_raidz_reconstruct_p :: "raidz_map \<Rightarrow> nat \<Rightarrow> raidz_map" where
  "vdev_raidz_reconstruct_p rm x =
     (let xcount = rm_count rm x;
          dst = copy_words xcount (rm_data rm VDEV_RAIDZ_P) (rm_data rm x);
          dst = foldl (\<lambda>dst c. if c = x then dst else xor_words (min (rm_count rm c) xcount) (rm_data rm c) dst)
                  dst [rm_firstdatacol rm..<rm_cols rm]
      in rm_set_data x dst rm)"

definition byte_of :: "u64 \<Rightarrow> nat \<Rightarrow> u8" where
  "byte_of w j = ucast (drop_bit (8 * j) w)"
definition word_of_bytes :: "(nat \<Rightarrow> u8) \<Rightarrow> u64" where
  "word_of_bytes f = foldr (\<lambda>j w. push_bit (8 * j) (ucast (f j)) OR w) [0..<8] 0"

definition vdev_raidz_reconstruct_q :: "raidz_map \<Rightarrow> nat \<Rightarrow> raidz_map" where
  "vdev_raidz_reconstruct_q rm x =
     (let xcount = rm_count rm x;
          dst = foldl (\<lambda>dst c.
              let ccount = (if c = x then 0 else rm_count rm c); count = min ccount xcount
              in if c = rm_firstdatacol rm then copy_zero_words count xcount (rm_data rm c) dst
                 else mul2_xor_words count xcount (rm_data rm c) dst)
            (rm_data rm x) [rm_firstdatacol rm..<rm_cols rm];
          exp = 255 - (rm_cols rm - 1 - x);
          dst = map2 (\<lambda>s d. let d = d XOR s in word_of_bytes (\<lambda>j. vdev_raidz_exp2 (byte_of d j) exp))
                  (take xcount (rm_data rm VDEV_RAIDZ_Q)) (take xcount dst) @ drop xcount dst
      in rm_set_data x dst rm)"

text \<open>The last loop of the reconstruction of two columns runs over bytes; the sizes are multiples
  of 8, so it is a loop over words and over the bytes of each.\<close>

definition vdev_raidz_reconstruct_pq :: "(u64 \<Rightarrow> u64 list) \<Rightarrow> raidz_map \<Rightarrow> nat \<Rightarrow> nat \<Rightarrow> raidz_map" where
  "vdev_raidz_reconstruct_pq alloc rm x y =
     (let pdata = rm_data rm VDEV_RAIDZ_P; qdata = rm_data rm VDEV_RAIDZ_Q;
          xsize = rc_size (rm_col rm ! x); ysize = rc_size (rm_col rm ! y);
          rm = rm_set_data VDEV_RAIDZ_P (alloc (rc_size (rm_col rm ! VDEV_RAIDZ_P))) rm;
          rm = rm_set_data VDEV_RAIDZ_Q (alloc (rc_size (rm_col rm ! VDEV_RAIDZ_Q))) rm;
          rm = rm_set_size y 0 (rm_set_size x 0 rm);
          rm = vdev_raidz_generate_parity_pq rm;
          rm = rm_set_size y ysize (rm_set_size x xsize rm);
          pxy = rm_data rm VDEV_RAIDZ_P; qxy = rm_data rm VDEV_RAIDZ_Q;
          a = vdev_raidz_pow2 ! (255 + x - y);
          b = vdev_raidz_pow2 ! (255 - (rm_cols rm - 1 - x));
          tmp = 255 - unat (vdev_raidz_log2 ! unat (a XOR 1));
          aexp = unat (vdev_raidz_log2 ! unat (vdev_raidz_exp2 a tmp));
          bexp = unat (vdev_raidz_log2 ! unat (vdev_raidz_exp2 b tmp));
          xd = map (\<lambda>i. word_of_bytes (\<lambda>j.
                 vdev_raidz_exp2 (byte_of (pdata ! i) j XOR byte_of (pxy ! i) j) aexp
                 XOR vdev_raidz_exp2 (byte_of (qdata ! i) j XOR byte_of (qxy ! i) j) bexp)) [0..<rm_count rm x]
               @ drop (rm_count rm x) (rm_data rm x);
          yd = map (\<lambda>i. pdata ! i XOR pxy ! i XOR xd ! i) [0..<min (rm_count rm x) (rm_count rm y)]
               @ drop (min (rm_count rm x) (rm_count rm y)) (rm_data rm y);
          rm = rm_set_data y yd (rm_set_data x xd rm)
      in rm_set_data VDEV_RAIDZ_Q qdata (rm_set_data VDEV_RAIDZ_P pdata rm))"

section \<open>Correctness of RAID-Z\<close>

subsection \<open>The field\<close>

abbreviation dbl :: "u8 \<Rightarrow> u8" where "dbl \<equiv> VDEV_RAIDZ_MUL_2"

lemma raidz_log2_pow2_all: "\<forall>k \<in> set [0..<255]. vdev_raidz_log2 ! unat (vdev_raidz_pow2 ! k) = of_nat k"
  by code_simp

lemma raidz_pow2_log2_all: "\<forall>a \<in> set [1..<256]. vdev_raidz_pow2 ! unat (vdev_raidz_log2 ! a) = of_nat a \<and> unat (vdev_raidz_log2 ! a) < 255"
  by code_simp

lemma raidz_pow2_step: "map VDEV_RAIDZ_MUL_2 (butlast vdev_raidz_pow2) = tl vdev_raidz_pow2"
  by (simp add: vdev_raidz_pow2_def VDEV_RAIDZ_MUL_2_def)

lemma raidz_pow2_ends: "vdev_raidz_pow2 ! 0 = 1" "vdev_raidz_pow2 ! 255 = 1" "length vdev_raidz_pow2 = 256"
  by (simp_all add: vdev_raidz_pow2_def)

lemma raidz_pow2_nth: "k \<le> 255 \<Longrightarrow> vdev_raidz_pow2 ! k = (dbl ^^ k) 1"
proof (induction k)
  case (Suc k)
  have "tl vdev_raidz_pow2 ! k = dbl (vdev_raidz_pow2 ! k)"
    using Suc.prems arg_cong [OF raidz_pow2_step, of "\<lambda>xs. xs ! k"] by (simp add: raidz_pow2_ends nth_butlast)
  then show ?case using Suc by (simp add: nth_tl raidz_pow2_ends)
qed (simp add: raidz_pow2_ends)

lemma raidz_log2:
  assumes "a \<noteq> 0" shows "(dbl ^^ unat (vdev_raidz_log2 ! unat a)) 1 = a" "unat (vdev_raidz_log2 ! unat a) < 255"
proof -
  have "unat a \<in> set [1..<256]" using assms unsigned_less [of a] by (auto simp: unat_gt_0 Suc_le_eq)
  then have l: "vdev_raidz_pow2 ! unat (vdev_raidz_log2 ! unat a) = of_nat (unat a)" "unat (vdev_raidz_log2 ! unat a) < 255"
    using raidz_pow2_log2_all by blast+
  show "unat (vdev_raidz_log2 ! unat a) < 255" by (rule l(2))
  then show "(dbl ^^ unat (vdev_raidz_log2 ! unat a)) 1 = a" using l(1) raidz_pow2_nth by simp
qed

lemma MUL_2_xor: "dbl (a XOR b) = dbl a XOR dbl b"
proof -
  have h: "x AND 0x80 \<noteq> 0 \<longleftrightarrow> bit x 7" for x :: u8
    using bit_iff_and_push_bit_not_eq_0 [of x 7] by simp
  have c: "y XOR (z XOR y) = z" for y z :: u8 by (rule bit_eqI) (auto simp: bit_xor_iff)
  show ?thesis unfolding VDEV_RAIDZ_MUL_2_def h by (simp add: bit_xor_iff push_bit_xor xor.assoc xor.left_commute c)
qed

lemma MUL_2_0 [simp]: "dbl 0 = 0" by (simp add: VDEV_RAIDZ_MUL_2_def)

lemma MUL_2_pow_xor: "(dbl ^^ n) (a XOR b) = (dbl ^^ n) a XOR (dbl ^^ n) b"
  by (induction n) (simp_all add: MUL_2_xor)

lemma MUL_2_pow_0 [simp]: "(dbl ^^ n) 0 = 0"
  by (induction n) simp_all

lemma MUL_2_pow_add: "(dbl ^^ m) ((dbl ^^ n) a) = (dbl ^^ (m + n)) a"
  by (simp add: funpow_add)

lemma MUL_2_255: "(dbl ^^ 255) a = a"
proof (cases "a = 0")
  case False
  have one: "(dbl ^^ 255) 1 = 1" using raidz_pow2_nth [of 255] raidz_pow2_ends(2) by simp
  obtain l where l: "a = (dbl ^^ l) 1" using raidz_log2(1) [OF False] by metis
  have "(dbl ^^ 255) a = (dbl ^^ l) ((dbl ^^ 255) 1)" unfolding l by (simp only: MUL_2_pow_add add.commute)
  then show ?thesis by (simp only: one l)
qed simp

lemma raidz_exp2_eq: "e \<le> 255 \<Longrightarrow> vdev_raidz_exp2 a e = (dbl ^^ e) a"
proof (cases "a = 0")
  case True
  then show ?thesis by (simp add: vdev_raidz_exp2_def)
next
  case False
  assume e: "e \<le> 255"
  let ?l = "unat (vdev_raidz_log2 ! unat a)"
  have a: "(dbl ^^ (e + ?l)) 1 = (dbl ^^ e) a" using raidz_log2(1) [OF False] by (simp add: MUL_2_pow_add [symmetric])
  show ?thesis
  proof (cases "e + ?l > 255")
    case True
    have d: "e + ?l - 255 + 255 = e + ?l" using True by simp
    have "vdev_raidz_exp2 a e = (dbl ^^ (e + ?l - 255)) 1"
      using False True e raidz_log2(2) [OF False] by (simp add: vdev_raidz_exp2_def Let_def raidz_pow2_nth)
    also have "\<dots> = (dbl ^^ (e + ?l - 255)) ((dbl ^^ 255) 1)" by (simp only: MUL_2_255)
    also have "\<dots> = (dbl ^^ (e + ?l)) 1" by (simp only: MUL_2_pow_add d)
    finally show ?thesis using a by simp
  next
    case no: False
    then show ?thesis using False a by (simp add: vdev_raidz_exp2_def Let_def raidz_pow2_nth)
  qed
qed

text \<open>Multiplication by an element is a power of the doubling.\<close>

lemma MUL_2_pow_log: assumes "(dbl ^^ n) 1 = a" "a \<noteq> 0" shows "(dbl ^^ unat (vdev_raidz_log2 ! unat a)) v = (dbl ^^ n) v"
proof (cases "v = 0")
  case False
  obtain l where l: "v = (dbl ^^ l) 1" using raidz_log2(1) [OF False] by metis
  have "(dbl ^^ k) v = (dbl ^^ l) ((dbl ^^ k) 1)" for k unfolding l by (simp only: MUL_2_pow_add add.commute)
  then show ?thesis using assms(1) raidz_log2(1) [OF assms(2)] by simp
qed simp

lemma MUL_2_pow_1_neq:
  assumes "0 < k" "k < 255" shows "(dbl ^^ k) 1 \<noteq> 1"
proof
  assume "(dbl ^^ k) 1 = 1"
  then have "vdev_raidz_pow2 ! k = vdev_raidz_pow2 ! 0" using assms raidz_pow2_nth [of k] raidz_pow2_ends(1) by simp
  then have "(of_nat k :: u8) = of_nat 0" using raidz_log2_pow2_all assms
    by (metis atLeastLessThan_iff le0 set_upt less_trans)
  then show False using assms by (simp add: word_of_nat_eq_0_iff nat_dvd_not_less)
qed

lemma MUL_2_pow_neq0: "a \<noteq> 0 \<Longrightarrow> (dbl ^^ k) a \<noteq> 0"
proof
  assume "a \<noteq> 0" "(dbl ^^ k) a = 0"
  have "(dbl ^^ (255 * k)) a = a" for k by (induction k) (simp_all add: funpow_add MUL_2_255)
  moreover have "255 * k = 254 * k + k" by simp
  ultimately have "a = (dbl ^^ (254 * k)) ((dbl ^^ k) a)" by (metis MUL_2_pow_add)
  then show False using \<open>a \<noteq> 0\<close> \<open>(dbl ^^ k) a = 0\<close> by simp
qed

text \<open>The equation that recovers one of two missing bytes from the two parities.\<close>

lemma raidz_solve_pq:
  assumes "0 < D" "D \<le> k" "k < 255"
    and a: "a = vdev_raidz_pow2 ! (255 - D)" and b: "b = vdev_raidz_pow2 ! (255 - k)"
    and tmp: "tmp = 255 - unat (vdev_raidz_log2 ! unat (a XOR 1))"
    and aexp: "aexp = unat (vdev_raidz_log2 ! unat (vdev_raidz_exp2 a tmp))"
    and bexp: "bexp = unat (vdev_raidz_log2 ! unat (vdev_raidz_exp2 b tmp))"
  shows "vdev_raidz_exp2 (dx XOR dy) aexp XOR vdev_raidz_exp2 ((dbl ^^ k) dx XOR (dbl ^^ (k - D)) dy) bexp = dx"
proof -
  have a': "a = (dbl ^^ (255 - D)) 1" and b': "b = (dbl ^^ (255 - k)) 1"
    using assms(1-3) a b raidz_pow2_nth by auto
  have ne: "a \<noteq> 0" "b \<noteq> 0" using a' b' MUL_2_pow_neq0 by auto
  have "a \<noteq> 1" using a' MUL_2_pow_1_neq [of "255 - D"] assms(1-3) by auto
  then have t: "a XOR 1 \<noteq> 0" by (metis xor.assoc xor_self_eq xor.right_neutral xor.left_neutral)
  let ?l = "unat (vdev_raidz_log2 ! unat (a XOR 1))"
  have l: "?l < 255" "(dbl ^^ ?l) 1 = a XOR 1" using raidz_log2 [OF t] by auto
  have tmp255: "tmp \<le> 255" using tmp by simp
  have ea: "vdev_raidz_exp2 a tmp = (dbl ^^ (tmp + (255 - D))) 1" "vdev_raidz_exp2 a tmp \<noteq> 0"
    and eb: "vdev_raidz_exp2 b tmp = (dbl ^^ (tmp + (255 - k))) 1" "vdev_raidz_exp2 b tmp \<noteq> 0"
    using ne MUL_2_pow_neq0 raidz_exp2_eq [OF tmp255] by (simp_all only: a' b' MUL_2_pow_add [symmetric] not_False_eq_True)
  have A: "vdev_raidz_exp2 v aexp = (dbl ^^ (tmp + (255 - D))) v" for v
    using raidz_exp2_eq [of aexp v] raidz_log2(2) [OF ea(2)] MUL_2_pow_log [OF ea(1) [symmetric] ea(2)] aexp by simp
  have B: "vdev_raidz_exp2 v bexp = (dbl ^^ (tmp + (255 - k))) v" for v
    using raidz_exp2_eq [of bexp v] raidz_log2(2) [OF eb(2)] MUL_2_pow_log [OF eb(1) [symmetric] eb(2)] bexp by simp
  have k: "tmp + (255 - k) + k = tmp + 255" "tmp + (255 - k) + (k - D) = tmp + (255 - D)" using assms(1-3) by auto
  have m: "(dbl ^^ (255 - D)) v XOR v = (dbl ^^ ?l) v" for v
  proof (cases "v = 0")
    case False
    obtain n where n: "v = (dbl ^^ n) 1" using raidz_log2(1) [OF False] by metis
    have "(dbl ^^ (255 - D)) v XOR v = (dbl ^^ n) ((dbl ^^ (255 - D)) 1 XOR 1)"
      unfolding n by (simp only: MUL_2_pow_xor MUL_2_pow_add add.commute)
    also have "\<dots> = (dbl ^^ n) ((dbl ^^ ?l) 1)" by (simp only: l(2) a' [symmetric])
    also have "\<dots> = (dbl ^^ ?l) v" unfolding n by (simp only: MUL_2_pow_add add.commute)
    finally show ?thesis .
  qed simp
  have c: "(u XOR v) XOR (w XOR v) = u XOR w" for u v w :: u8 by (rule bit_eqI) (auto simp: bit_xor_iff)
  have "vdev_raidz_exp2 (dx XOR dy) aexp XOR vdev_raidz_exp2 ((dbl ^^ k) dx XOR (dbl ^^ (k - D)) dy) bexp =
      (dbl ^^ (tmp + (255 - D))) dx XOR (dbl ^^ (tmp + 255)) dx"
    by (simp only: A B MUL_2_pow_xor MUL_2_pow_add k c)
  also have "\<dots> = (dbl ^^ tmp) ((dbl ^^ (255 - D)) dx XOR dx)"
    by (simp only: MUL_2_pow_xor MUL_2_pow_add [symmetric] MUL_2_255)
  also have "\<dots> = (dbl ^^ (tmp + ?l)) dx" by (simp only: m MUL_2_pow_add)
  also have "tmp + ?l = 255" using tmp l(1) by simp
  finally show ?thesis by (simp only: MUL_2_255)
qed

subsection \<open>Bytes of words\<close>

lemma bit_byte_of: "bit (byte_of w j) i \<longleftrightarrow> i < 8 \<and> bit w (8 * j + i)"
  by (auto simp: byte_of_def bit_ucast_iff bit_drop_bit_eq dest: bit_imp_le_length)

lemma byte_of_xor [simp]: "byte_of (a XOR b) j = byte_of a j XOR byte_of b j"
  by (rule bit_eqI) (auto simp: bit_byte_of bit_xor_iff)

lemma byte_of_0 [simp]: "byte_of 0 j = 0"
  by (simp add: byte_of_def)

lemma word_eq_bytes: "(\<And>j. j < 8 \<Longrightarrow> byte_of a j = byte_of b j) \<Longrightarrow> a = b"
proof (rule bit_eqI)
  fix i assume e: "\<And>j. j < 8 \<Longrightarrow> byte_of a j = byte_of b j" and "possible_bit TYPE(u64) i"
  then have "i div 8 < 8" by auto
  from e [OF this] have "bit (byte_of a (i div 8)) (i mod 8) = bit (byte_of b (i div 8)) (i mod 8)" by simp
  then show "bit a i = bit b i" by (simp add: bit_byte_of)
qed

lemma byte_of_word_of_bytes: assumes "j < 8" shows "byte_of (word_of_bytes f) j = f j"
proof (rule bit_eqI)
  fix i assume "possible_bit TYPE(u8) i"
  then have i: "i < 8" by simp
  have g: "bit (foldr (\<lambda>j w. push_bit (8 * j) (ucast (f j)) OR w) js (0 :: u64)) n \<longleftrightarrow>
      n < 64 \<and> (\<exists>k \<in> set js. 8 * k \<le> n \<and> bit (f k) (n - 8 * k))" for js n
    by (induction js) (auto simp: bit_or_iff bit_push_bit_iff bit_ucast_iff)
  have "bit (word_of_bytes f) (8 * j + i) \<longleftrightarrow> (\<exists>k \<in> {0..<8}. 8 * k \<le> 8 * j + i \<and> bit (f k) (8 * j + i - 8 * k))"
    unfolding word_of_bytes_def g using assms i by auto
  also have "\<dots> \<longleftrightarrow> bit (f j) i"
  proof
    assume "\<exists>k \<in> {0..<8}. 8 * k \<le> 8 * j + i \<and> bit (f k) (8 * j + i - 8 * k)"
    then obtain k where k: "8 * k \<le> 8 * j + i" "bit (f k) (8 * j + i - 8 * k)" by auto
    then have "8 * j + i - 8 * k < 8" by (auto dest: bit_imp_le_length)
    then have "k = j" using k(1) i by linarith
    then show "bit (f j) i" using k by simp
  next
    assume "bit (f j) i"
    then show "\<exists>k \<in> {0..<8}. 8 * k \<le> 8 * j + i \<and> bit (f k) (8 * j + i - 8 * k)" using assms by (intro bexI [of _ j]) auto
  qed
  finally show "bit (byte_of (word_of_bytes f) j) i = bit (f j) i" using i by (simp add: bit_byte_of)
qed

lemma spread_bits:
  fixes s :: u64 assumes "\<And>i. bit s i \<Longrightarrow> 8 dvd i"
  shows "bit (push_bit 8 s - s) i \<longleftrightarrow> i < 64 \<and> bit s (8 * (i div 8))"
proof -
  have or: "bit (foldr (\<lambda>k w. push_bit k s OR w) ks 0) n \<longleftrightarrow> n < 64 \<and> (\<exists>k \<in> set ks. k \<le> n \<and> bit s (n - k))" for ks n
    by (induction ks) (auto simp: bit_or_iff bit_push_bit_iff)
  have sum: "foldr (\<lambda>k w. push_bit k s OR w) [m..<8] 0 = foldr (\<lambda>k w. push_bit k s + w) [m..<8] 0" for m
  proof (induction "8 - m" arbitrary: m)
    case (Suc n)
    then have m: "m < 8" by simp
    have "\<not> bit (push_bit m s) n \<or> \<not> bit (foldr (\<lambda>k w. push_bit k s OR w) [Suc m..<8] 0) n" for n
    proof -
      have "False" if n: "m \<le> n" "bit s (n - m)" "Suc m \<le> k" "k < 8" "k \<le> n" "bit s (n - k)" for k
      proof -
        have "8 dvd n - m" "8 dvd n - k" using n(2,6) assms by auto
        then have "8 dvd (n - m) - (n - k)" by (rule dvd_diff_nat)
        moreover have "(n - m) - (n - k) = k - m" using n by simp
        ultimately show False using n(3,4) by (auto dest: dvd_imp_le)
      qed
      then show ?thesis by (auto simp: bit_push_bit_iff or)
    qed
    then have "push_bit m s OR foldr (\<lambda>k w. push_bit k s OR w) [Suc m..<8] 0 = push_bit m s + foldr (\<lambda>k w. push_bit k s OR w) [Suc m..<8] 0"
      by (rule disjunctive_add [symmetric])
    moreover have "[m..<8] = m # [Suc m..<8]" using m by (simp add: upt_conv_Cons)
    ultimately show ?case using Suc.hyps(1) [of "Suc m"] Suc.hyps(2) by simp
  qed simp
  have u: "[0..<8] = [0, 1, 2, 3, 4, 5, 6, 7 :: nat]" by (simp add: upt_rec)
  have "push_bit 8 s - s = foldr (\<lambda>k w. push_bit k s + w) [0..<8] 0"
    unfolding u by (simp add: push_bit_eq_mult)
  then have "bit (push_bit 8 s - s) i \<longleftrightarrow> i < 64 \<and> (\<exists>k \<in> set [0..<8]. k \<le> i \<and> bit s (i - k))"
    by (simp only: sum [symmetric] or)
  also have "(\<exists>k \<in> set [0..<8]. k \<le> i \<and> bit s (i - k)) \<longleftrightarrow> bit s (8 * (i div 8))"
  proof
    assume "\<exists>k \<in> set [0..<8]. k \<le> i \<and> bit s (i - k)"
    then obtain k where k: "k < 8" "k \<le> i" "bit s (i - k)" by auto
    then obtain q where "i - k = 8 * q" using assms by (auto elim: dvdE)
    then have "i = 8 * q + k" using k(2) by simp
    then have "i div 8 = q" using k(1) by simp
    then show "bit s (8 * (i div 8))" using k \<open>i - k = 8 * q\<close> by simp
  next
    assume "bit s (8 * (i div 8))"
    moreover have "8 * (i div 8) = i - i mod 8" by (simp add: minus_mod_eq_mult_div)
    ultimately show "\<exists>k \<in> set [0..<8]. k \<le> i \<and> bit s (i - k)" by (intro bexI [of _ "i mod 8"]) auto
  qed
  finally show ?thesis .
qed

lemma bytes_const:
  "bit (0x8080808080808080 :: u64) i \<longleftrightarrow> i < 64 \<and> i mod 8 = 7"
  "bit (0xfefefefefefefefe :: u64) i \<longleftrightarrow> i < 64 \<and> i mod 8 \<noteq> 0"
  "bit (0x1d1d1d1d1d1d1d1d :: u64) i \<longleftrightarrow> i < 64 \<and> bit (0x1d :: u8) (i mod 8)"
proof -
  have r: "(\<forall>i \<in> set [0..<64]. P i) \<Longrightarrow> i < 64 \<Longrightarrow> P i" for P and i :: nat by simp
  have a: "\<forall>i \<in> set [0..<64]. bit (0x8080808080808080 :: u64) i \<longleftrightarrow> i mod 8 = 7" by code_simp
  have b: "\<forall>i \<in> set [0..<64]. bit (0xfefefefefefefefe :: u64) i \<longleftrightarrow> i mod 8 \<noteq> 0" by code_simp
  have c: "\<forall>i \<in> set [0..<64]. bit (0x1d1d1d1d1d1d1d1d :: u64) i \<longleftrightarrow> bit (0x1d :: u8) (i mod 8)" by code_simp
  show "bit (0x8080808080808080 :: u64) i \<longleftrightarrow> i < 64 \<and> i mod 8 = 7" using r [OF a] by (cases "i < 64") (auto dest: bit_imp_le_length)
  show "bit (0xfefefefefefefefe :: u64) i \<longleftrightarrow> i < 64 \<and> i mod 8 \<noteq> 0" using r [OF b] by (cases "i < 64") (auto dest: bit_imp_le_length)
  show "bit (0x1d1d1d1d1d1d1d1d :: u64) i \<longleftrightarrow> i < 64 \<and> bit (0x1d :: u8) (i mod 8)" using r [OF c] by (cases "i < 64") (auto dest: bit_imp_le_length)
qed

lemma bit_push_bit_1: "bit (push_bit 1 (x :: 'a::len word)) n \<longleftrightarrow> 1 \<le> n \<and> n < LENGTH('a) \<and> bit x (n - 1)"
  by (auto simp only: bit_push_bit_iff possible_bit_word)

lemma byte_of_mul2_word: assumes "j < 8" shows "byte_of (raidz_mul2_word w) j = dbl (byte_of w j)"
proof (rule bit_eqI)
  fix i assume "possible_bit TYPE(u8) i"
  then have i: "i < 8" by simp
  define H F T :: u64 where "H = 0x8080808080808080" and "F = 0xfefefefefefefefe" and "T = 0x1d1d1d1d1d1d1d1d"
  note const = bytes_const [folded H_def F_def T_def]
  have w: "raidz_mul2_word w = (push_bit 1 w AND F) XOR ((push_bit 1 (w AND H) - drop_bit 7 (w AND H)) AND T)"
    by (simp only: raidz_mul2_word_def Let_def H_def F_def T_def)
  define s where "s = drop_bit 7 (w AND H)"
  have s: "bit s n \<longleftrightarrow> n + 7 < 64 \<and> n mod 8 = 0 \<and> bit w (n + 7)" for n
  proof -
    have "(7 + n) mod 8 = 7 \<longleftrightarrow> n mod 8 = 0" by presburger
    then show ?thesis by (auto simp: s_def bit_drop_bit_eq simp del: drop_bit_and simp: bit_and_iff const add.commute)
  qed
  have m: "push_bit 1 (w AND H) = push_bit 8 s"
  proof (rule bit_eqI)
    fix n assume "possible_bit TYPE(u64) n"
    then have n: "n < 64" by simp
    have "(n - 1) mod 8 = 7 \<longleftrightarrow> n mod 8 = 0" if "1 \<le> n" using that by (cases n) (auto simp: mod_Suc)
    moreover have "8 \<le> n \<Longrightarrow> n - 8 + 7 = n - 1" "8 \<le> n \<Longrightarrow> (n - 8) mod 8 = n mod 8" by (auto simp: le_mod_geq)
    moreover have "n mod 8 = 0 \<Longrightarrow> 1 \<le> n \<Longrightarrow> 8 \<le> n" by (auto dest: dvd_imp_le)
    ultimately show "bit (push_bit 1 (w AND H)) n = bit (push_bit 8 s) n"
      unfolding bit_push_bit_1 bit_push_bit_iff [of 8] bit_and_iff const s using n by auto
  qed
  have mask: "bit (push_bit 1 (w AND H) - s) n \<longleftrightarrow> n < 64 \<and> bit w (8 * (n div 8) + 7)" for n
  proof -
    have "n < 64 \<Longrightarrow> n div 8 < 8" by auto
    then have "n < 64 \<Longrightarrow> 8 * (n div 8) + 7 < 64" by linarith
    then show ?thesis unfolding m by (subst spread_bits) (auto simp: s dvd_eq_mod_eq_0)
  qed
  let ?n = "8 * j + i"
  have n: "?n < 64" "?n div 8 = j" "?n mod 8 = i" using assms i by auto
  have "bit (raidz_mul2_word w) ?n \<longleftrightarrow>
      (i \<noteq> 0 \<and> bit w (?n - 1)) \<noteq> (bit w (8 * j + 7) \<and> bit (0x1d :: u8) i)"
    unfolding w s_def [symmetric] bit_xor_iff bit_and_iff mask const bit_push_bit_1 using n by auto
  moreover have "bit (dbl (byte_of w j)) i \<longleftrightarrow> (i \<noteq> 0 \<and> bit w (?n - 1)) \<noteq> (bit w (8 * j + 7) \<and> bit (0x1d :: u8) i)"
  proof -
    have "byte_of w j AND 0x80 \<noteq> 0 \<longleftrightarrow> bit w (8 * j + 7)"
      using bit_iff_and_push_bit_not_eq_0 [of "byte_of w j" 7] by (simp add: bit_byte_of)
    moreover have "i \<noteq> 0 \<Longrightarrow> 8 * j + (i - 1) = ?n - 1" by simp
    ultimately show ?thesis using i
      unfolding VDEV_RAIDZ_MUL_2_def bit_xor_iff bit_push_bit_1 bit_byte_of by auto
  qed
  ultimately show "bit (byte_of (raidz_mul2_word w) j) i = bit (dbl (byte_of w j)) i" using i by (simp add: bit_byte_of)
qed

lemma byte_of_mul2_word_pow: "j < 8 \<Longrightarrow> byte_of ((raidz_mul2_word ^^ n) w) j = (dbl ^^ n) (byte_of w j)"
  by (induction n) (simp_all add: byte_of_mul2_word)

lemma mul2_word_xor: "raidz_mul2_word (a XOR b) = raidz_mul2_word a XOR raidz_mul2_word b"
  by (rule word_eq_bytes) (simp add: byte_of_mul2_word MUL_2_xor)

lemma mul2_word_0 [simp]: "raidz_mul2_word 0 = 0"
  by (simp add: raidz_mul2_word_def)

subsection \<open>Columns\<close>

lemma rm_set_data_simps [simp]:
  "rm_cols (rm_set_data c d rm) = rm_cols rm"
  "rm_firstdatacol (rm_set_data c d rm) = rm_firstdatacol rm"
  "rm_count (rm_set_data c d rm) c' = rm_count rm c'"
  "c < rm_cols rm \<Longrightarrow> rm_data (rm_set_data c d rm) c = d"
  "c' \<noteq> c \<Longrightarrow> rm_data (rm_set_data c d rm) c' = rm_data rm c'"
  "rm_set_data c (rm_data rm c) rm = rm"
  "rm_set_data c d (rm_set_data c d' rm) = rm_set_data c d rm"
  by (cases "c < length (rm_col rm)"; auto simp: rm_cols_def rm_set_data_def rm_count_def rm_data_def rc_count_def
      nth_list_update list_update_beyond)+

lemma rm_set_data_commute: "c \<noteq> c' \<Longrightarrow> rm_set_data c d (rm_set_data c' d' rm) = rm_set_data c' d' (rm_set_data c d rm)"
  by (simp add: rm_set_data_def list_update_swap)

lemma rm_set_size_simps [simp]:
  "rm_cols (rm_set_size c s rm) = rm_cols rm"
  "rm_firstdatacol (rm_set_size c s rm) = rm_firstdatacol rm"
  "rm_data (rm_set_size c s rm) c' = rm_data rm c'"
  "c < rm_cols rm \<Longrightarrow> rm_count (rm_set_size c 0 rm) c = 0"
  "c' \<noteq> c \<Longrightarrow> rm_count (rm_set_size c s rm) c' = rm_count rm c'"
  by (cases "c < length (rm_col rm)"; auto simp: rm_cols_def rm_set_size_def rm_count_def rm_data_def rc_count_def
      nth_list_update list_update_beyond)+

text \<open>The word of a column at a position; short columns are full of zeros.\<close>

definition rm_word :: "raidz_map \<Rightarrow> nat \<Rightarrow> nat \<Rightarrow> u64" where
  "rm_word rm i c = (if i < rm_count rm c then rm_data rm c ! i else 0)"

definition parity_P :: "u64 list \<Rightarrow> u64" where
  "parity_P ws = foldl (XOR) 0 ws"
definition parity_Q :: "u64 list \<Rightarrow> u64" where
  "parity_Q ws = foldl (\<lambda>a w. raidz_mul2_word a XOR w) 0 ws"

abbreviation data_words :: "raidz_map \<Rightarrow> nat \<Rightarrow> u64 list" where
  "data_words rm i \<equiv> map (rm_word rm i) [rm_firstdatacol rm..<rm_cols rm]"

definition raidz_wf :: "raidz_map \<Rightarrow> bool" where
  "raidz_wf rm \<longleftrightarrow> 0 < rm_firstdatacol rm \<and> rm_firstdatacol rm < rm_cols rm \<and>
     (\<forall>c < rm_cols rm. length (rm_data rm c) = rm_count rm c \<and> rm_count rm c \<le> rm_count rm 0) \<and>
     (\<forall>c \<le> rm_firstdatacol rm. rm_count rm 0 = rm_count rm c) \<and>
     (\<forall>c c'. c \<le> c' \<and> c' < rm_cols rm \<longrightarrow> rm_count rm c' \<le> rm_count rm c)"

lemma raidz_wfD:
  assumes "raidz_wf rm"
  shows "0 < rm_firstdatacol rm" "rm_firstdatacol rm < rm_cols rm" "c < rm_cols rm \<Longrightarrow> length (rm_data rm c) = rm_count rm c"
    "c < rm_cols rm \<Longrightarrow> rm_count rm c \<le> rm_count rm 0" "c \<le> rm_firstdatacol rm \<Longrightarrow> rm_count rm 0 = rm_count rm c"
    "c \<le> c' \<Longrightarrow> c' < rm_cols rm \<Longrightarrow> rm_count rm c' \<le> rm_count rm c"
  using assms unfolding raidz_wf_def by blast+

lemma raidz_wf_set_data:
  assumes "raidz_wf rm" "length d = rm_count rm c" shows "raidz_wf (rm_set_data c d rm)"
proof -
  have "length (rm_data (rm_set_data c d rm) c') = rm_count rm c'" if "c' < rm_cols rm" for c'
    using that assms(2) raidz_wfD(3) [OF assms(1), of c'] by (cases "c' = c") simp_all
  then show ?thesis using assms(1) by (simp add: raidz_wf_def)
qed

lemma foldl_words:
  assumes "length d = n" "\<And>c d. c \<in> set cs \<Longrightarrow> length d = n \<Longrightarrow> length (F d c) = n \<and> (\<forall>i<n. F d c ! i = g (d ! i) (w i c))"
  shows "length (foldl F d cs) = n \<and> (\<forall>i<n. foldl F d cs ! i = foldl g (d ! i) (map (w i) cs))"
  using assms
proof (induction cs arbitrary: d)
  case (Cons c cs)
  have F: "length (F d c) = n" "\<forall>i<n. F d c ! i = g (d ! i) (w i c)" using Cons.prems(2) [of c d] Cons.prems(1) by auto
  have "length (foldl F (F d c) cs) = n \<and> (\<forall>i<n. foldl F (F d c) cs ! i = foldl g (F d c ! i) (map (w i) cs))"
    using Cons.IH [OF F(1)] Cons.prems(2) by simp
  then show ?case using F(2) by simp
qed simp

lemma foldl_words_first:
  assumes "length d = n" "first < cols"
    and "\<And>d. length d = n \<Longrightarrow> length (F d first) = n \<and> (\<forall>i<n. F d first ! i = g 0 (w i first))"
    and "\<And>c d. first < c \<Longrightarrow> c < cols \<Longrightarrow> length d = n \<Longrightarrow> length (F d c) = n \<and> (\<forall>i<n. F d c ! i = g (d ! i) (w i c))"
  shows "foldl F d [first..<cols] = map (\<lambda>i. foldl g 0 (map (w i) [first..<cols])) [0..<n]"
proof -
  have u: "[first..<cols] = first # [Suc first..<cols]" using assms(2) by (simp add: upt_conv_Cons)
  have 1: "length (F d first) = n" "\<forall>i<n. F d first ! i = g 0 (w i first)" using assms(3) [OF assms(1)] by auto
  have "length (foldl F (F d first) [Suc first..<cols]) = n \<and>
    (\<forall>i<n. foldl F (F d first) [Suc first..<cols] ! i = foldl g (F d first ! i) (map (w i) [Suc first..<cols]))"
    by (rule foldl_words [OF 1(1)]) (use assms(4) in auto)
  then show ?thesis unfolding u using 1(2) by (intro nth_equalityI) simp_all
qed

lemma copy_words_nth:
  "n \<le> length src \<Longrightarrow> n \<le> length dst \<Longrightarrow> length (copy_words n src dst) = length dst \<and>
   (\<forall>i < length dst. copy_words n src dst ! i = (if i < n then src ! i else dst ! i))"
  by (auto simp: copy_words_def nth_append)

lemma xor_words_nth:
  "n \<le> length src \<Longrightarrow> n \<le> length dst \<Longrightarrow> length (xor_words n src dst) = length dst \<and>
   (\<forall>i < length dst. xor_words n src dst ! i = dst ! i XOR (if i < n then src ! i else 0))"
  by (auto simp: xor_words_def nth_append xor.commute)

lemma copy_zero_words_nth:
  "n \<le> length src \<Longrightarrow> n \<le> m \<Longrightarrow> length dst = m \<Longrightarrow> length (copy_zero_words n m src dst) = m \<and>
   (\<forall>i < m. copy_zero_words n m src dst ! i = (if i < n then src ! i else 0))"
  by (auto simp: copy_zero_words_def nth_append)

lemma mul2_xor_words_nth:
  "n \<le> length src \<Longrightarrow> n \<le> m \<Longrightarrow> length dst = m \<Longrightarrow> length (mul2_xor_words n m src dst) = m \<and>
   (\<forall>i < m. mul2_xor_words n m src dst ! i = raidz_mul2_word (dst ! i) XOR (if i < n then src ! i else 0))"
  by (auto simp: mul2_xor_words_def nth_append)

lemma foldl_xor: "foldl (XOR) a ws = a XOR parity_P ws" for a :: u64
proof (induction ws arbitrary: a)
  case (Cons w ws)
  show ?case using Cons [of "a XOR w"] Cons [of "0 XOR w"] by (simp add: parity_P_def xor.assoc)
qed (simp add: parity_P_def)

lemma mul2_word_pow_xor: "(raidz_mul2_word ^^ n) (a XOR b) = (raidz_mul2_word ^^ n) a XOR (raidz_mul2_word ^^ n) b"
  by (induction n) (simp_all add: mul2_word_xor)

lemma foldl_horner: "foldl (\<lambda>a w. raidz_mul2_word a XOR w) a ws = (raidz_mul2_word ^^ length ws) a XOR parity_Q ws"
proof (induction ws arbitrary: a)
  case (Cons w ws)
  show ?case using Cons [of "raidz_mul2_word a XOR w"] Cons [of w]
    by (simp add: parity_Q_def mul2_word_pow_xor xor.assoc funpow_swap1)
qed (simp add: parity_Q_def)

text \<open>What changes in the parities when one word changes.\<close>

lemma parity_split:
  "parity_P (us @ w # vs) = parity_P us XOR w XOR parity_P vs"
  "parity_Q (us @ w # vs) = (raidz_mul2_word ^^ length vs) (raidz_mul2_word (parity_Q us) XOR w) XOR parity_Q vs"
proof -
  show "parity_P (us @ w # vs) = parity_P us XOR w XOR parity_P vs"
    unfolding parity_P_def [of "us @ w # vs"] by (simp add: foldl_xor xor.assoc)
  show "parity_Q (us @ w # vs) = (raidz_mul2_word ^^ length vs) (raidz_mul2_word (parity_Q us) XOR w) XOR parity_Q vs"
    unfolding parity_Q_def [of "us @ w # vs"] foldl_append foldl_Cons foldl_horner [of _ vs] parity_Q_def [of us, symmetric] ..
qed

lemma parity_P_upd:
  assumes "k < length ws" shows "parity_P (ws[k := v]) = parity_P ws XOR (ws ! k XOR v)"
proof -
  have c: "a XOR v XOR b = (a XOR w XOR b) XOR (w XOR v)" for a b w v :: u64
    by (rule bit_eqI) (auto simp: bit_xor_iff)
  have "parity_P ws = parity_P (take k ws @ ws ! k # drop (Suc k) ws)"
    using assms by (simp add: id_take_nth_drop [symmetric])
  moreover have "parity_P (ws[k := v]) = parity_P (take k ws @ v # drop (Suc k) ws)"
    using assms by (simp add: upd_conv_take_nth_drop)
  ultimately show ?thesis unfolding parity_split by (simp only:) (rule c)
qed

lemma parity_Q_upd:
  assumes "k < length ws"
  shows "parity_Q (ws[k := v]) = parity_Q ws XOR (raidz_mul2_word ^^ (length ws - 1 - k)) (ws ! k XOR v)"
proof -
  have c: "(x XOR v') XOR r = ((x XOR w') XOR r) XOR (w' XOR v')" for x v' w' r :: u64
    by (rule bit_eqI) (auto simp: bit_xor_iff)
  have "parity_Q ws = parity_Q (take k ws @ ws ! k # drop (Suc k) ws)"
    using assms by (simp add: id_take_nth_drop [symmetric])
  moreover have "parity_Q (ws[k := v]) = parity_Q (take k ws @ v # drop (Suc k) ws)"
    using assms by (simp add: upd_conv_take_nth_drop)
  moreover have "length (drop (Suc k) ws) = length ws - 1 - k" using assms by simp
  ultimately show ?thesis unfolding parity_split by (simp only: mul2_word_pow_xor) (rule c)
qed

subsection \<open>Generation of the parity\<close>

lemma generate_parity_p_eq:
  assumes "raidz_wf rm"
  shows "vdev_raidz_generate_parity_p rm = rm_set_data VDEV_RAIDZ_P (map (\<lambda>i. parity_P (data_words rm i)) [0..<rm_count rm 0]) rm"
proof -
  note wf = raidz_wfD [OF assms]
  let ?F = "\<lambda>p c. if c = rm_firstdatacol rm then copy_words (rm_count rm c) (rm_data rm c) p
      else xor_words (rm_count rm c) (rm_data rm c) p"
  have "foldl ?F (rm_data rm VDEV_RAIDZ_P) [rm_firstdatacol rm..<rm_cols rm] =
      map (\<lambda>i. foldl (XOR) 0 (data_words rm i)) [0..<rm_count rm 0]"
  proof (rule foldl_words_first)
    show "length (rm_data rm VDEV_RAIDZ_P) = rm_count rm 0" using wf(3) [of 0] wf(1,2) by (simp add: VDEV_RAIDZ_P_def)
    show "rm_firstdatacol rm < rm_cols rm" by (rule wf(2))
    show "length (?F d (rm_firstdatacol rm)) = rm_count rm 0 \<and>
        (\<forall>i<rm_count rm 0. ?F d (rm_firstdatacol rm) ! i = 0 XOR rm_word rm i (rm_firstdatacol rm))"
      if d: "length d = rm_count rm 0" for d
      using copy_words_nth [of "rm_count rm (rm_firstdatacol rm)" "rm_data rm (rm_firstdatacol rm)" d]
        wf(3) [OF wf(2)] wf(5) [OF order_refl] d by (simp add: rm_word_def)
    show "length (?F d c) = rm_count rm 0 \<and> (\<forall>i<rm_count rm 0. ?F d c ! i = d ! i XOR rm_word rm i c)"
      if "rm_firstdatacol rm < c" "c < rm_cols rm" "length d = rm_count rm 0" for c d
      using xor_words_nth [of "rm_count rm c" "rm_data rm c" d] wf(3) [of c] wf(4) [of c] that by (simp add: rm_word_def)
  qed
  then show ?thesis by (simp only: vdev_raidz_generate_parity_p_def parity_P_def)
qed

lemma foldl_prod: "foldl (\<lambda>(p, q) c. (F p c, G q c)) (p, q) cs = (foldl F p cs, foldl G q cs)"
  by (induction cs arbitrary: p q) simp_all

lemma generate_parity_pq_eq:
  assumes first: "rm_firstdatacol rm < rm_cols rm" and n: "rm_count rm 0 = n"
    and P: "length (rm_data rm 0) = n" and Q: "length (rm_data rm 1) = n"
    and cols: "\<And>c. rm_firstdatacol rm \<le> c \<Longrightarrow> c < rm_cols rm \<Longrightarrow> rm_count rm c \<le> length (rm_data rm c) \<and> rm_count rm c \<le> n"
  shows "vdev_raidz_generate_parity_pq rm =
    rm_set_data VDEV_RAIDZ_Q (map (\<lambda>i. parity_Q (data_words rm i)) [0..<n])
      (rm_set_data VDEV_RAIDZ_P (map (\<lambda>i. parity_P (data_words rm i)) [0..<n]) rm)"
proof -
  let ?F = "\<lambda>p c. if c = rm_firstdatacol rm then copy_zero_words (rm_count rm c) n (rm_data rm c) p
      else xor_words (rm_count rm c) (rm_data rm c) p"
  let ?G = "\<lambda>q c. if c = rm_firstdatacol rm then copy_zero_words (rm_count rm c) n (rm_data rm c) q
      else mul2_xor_words (rm_count rm c) n (rm_data rm c) q"
  have FG: "(\<lambda>(p, q) c. let src = rm_data rm c; ccount = rm_count rm c in
      if c = rm_firstdatacol rm then (copy_zero_words ccount n src p, copy_zero_words ccount n src q)
      else (xor_words ccount src p, mul2_xor_words ccount n src q)) = (\<lambda>(p, q) c. (?F p c, ?G q c))"
    by (intro ext) (simp add: Let_def split: prod.split)
  have z: "length (copy_zero_words (rm_count rm (rm_firstdatacol rm)) n (rm_data rm (rm_firstdatacol rm)) d) = n \<and>
     (\<forall>i<n. copy_zero_words (rm_count rm (rm_firstdatacol rm)) n (rm_data rm (rm_firstdatacol rm)) d ! i
        = rm_word rm i (rm_firstdatacol rm))" if "length d = n" for d
    using copy_zero_words_nth [of "rm_count rm (rm_firstdatacol rm)" "rm_data rm (rm_firstdatacol rm)" n d]
      cols [OF order_refl first] that by (simp add: rm_word_def)
  have "foldl ?F (rm_data rm 0) [rm_firstdatacol rm..<rm_cols rm] = map (\<lambda>i. foldl (XOR) 0 (data_words rm i)) [0..<n]"
  proof (rule foldl_words_first [OF P first])
    show "length (?F d (rm_firstdatacol rm)) = n \<and> (\<forall>i<n. ?F d (rm_firstdatacol rm) ! i = 0 XOR rm_word rm i (rm_firstdatacol rm))"
      if "length d = n" for d using z [OF that] by simp
    show "length (?F d c) = n \<and> (\<forall>i<n. ?F d c ! i = d ! i XOR rm_word rm i c)"
      if "rm_firstdatacol rm < c" "c < rm_cols rm" "length d = n" for c d
      using xor_words_nth [of "rm_count rm c" "rm_data rm c" d] cols [of c] that by (simp add: rm_word_def)
  qed
  moreover have "foldl ?G (rm_data rm 1) [rm_firstdatacol rm..<rm_cols rm] =
      map (\<lambda>i. foldl (\<lambda>a w. raidz_mul2_word a XOR w) 0 (data_words rm i)) [0..<n]"
  proof (rule foldl_words_first [OF Q first])
    show "length (?G d (rm_firstdatacol rm)) = n \<and>
        (\<forall>i<n. ?G d (rm_firstdatacol rm) ! i = raidz_mul2_word 0 XOR rm_word rm i (rm_firstdatacol rm))"
      if "length d = n" for d using z [OF that] by simp
    show "length (?G d c) = n \<and> (\<forall>i<n. ?G d c ! i = raidz_mul2_word (d ! i) XOR rm_word rm i c)"
      if "rm_firstdatacol rm < c" "c < rm_cols rm" "length d = n" for c d
      using mul2_xor_words_nth [of "rm_count rm c" "rm_data rm c" n d] cols [of c] that by (simp add: rm_word_def)
  qed
  ultimately show ?thesis
    by (simp only: vdev_raidz_generate_parity_pq_def VDEV_RAIDZ_P_def VDEV_RAIDZ_Q_def n Let_def [of n] FG foldl_prod prod.case
        parity_P_def parity_Q_def) (simp only: Let_def prod.case)
qed

subsection \<open>Reconstruction\<close>

text \<open>A map whose parity columns hold the parity of its data columns.\<close>

definition parity_P_ok :: "raidz_map \<Rightarrow> bool" where
  "parity_P_ok rm \<longleftrightarrow> (\<forall>i < rm_count rm 0. rm_data rm 0 ! i = parity_P (data_words rm i))"
definition parity_Q_ok :: "raidz_map \<Rightarrow> bool" where
  "parity_Q_ok rm \<longleftrightarrow> (\<forall>i < rm_count rm 0. rm_data rm 1 ! i = parity_Q (data_words rm i))"

lemma data_words_set_data:
  assumes "rm_firstdatacol rm \<le> x" "x < rm_cols rm"
  shows "data_words (rm_set_data x d rm) i =
    (data_words rm i)[x - rm_firstdatacol rm := (if i < rm_count rm x then d ! i else 0)]"
  using assms by (intro nth_equalityI) (auto simp: rm_word_def nth_list_update)

lemma data_words_set_parity: "x < rm_firstdatacol rm \<Longrightarrow> data_words (rm_set_data x d rm) i = data_words rm i"
  by (auto simp: rm_word_def)

lemma xor_cancel: "(p XOR (w XOR 0)) XOR p = w" "p XOR (p XOR (w XOR 0)) = w" for p w :: u64
  by (rule bit_eqI; auto simp: bit_xor_iff)+

lemma reconstruct_p_correct:
  assumes wf: "raidz_wf rm" and P: "parity_P_ok rm" and x: "rm_firstdatacol rm \<le> x" "x < rm_cols rm"
    and bad: "length bad = rm_count rm x"
  shows "vdev_raidz_reconstruct_p (rm_set_data x bad rm) x = rm"
proof -
  note w = raidz_wfD [OF wf]
  let ?rm = "rm_set_data x bad rm" and ?n = "rm_count rm x"
  have x0: "x \<noteq> 0" using w(1) x by simp
  let ?F = "\<lambda>dst c. if c = x then dst else xor_words (min (rm_count ?rm c) ?n) (rm_data ?rm c) dst"
  let ?w = "\<lambda>i c. if c = x then 0 else rm_word rm i c"
  let ?d = "copy_words ?n (rm_data rm 0) bad"
  have d: "length ?d = ?n \<and> (\<forall>i<?n. ?d ! i = rm_data rm 0 ! i)"
    using copy_words_nth [of ?n "rm_data rm 0" bad] bad w(3) [of 0] w(4) [OF x(2)] x by simp
  have F: "length (foldl ?F ?d [rm_firstdatacol rm..<rm_cols rm]) = ?n \<and>
      (\<forall>i<?n. foldl ?F ?d [rm_firstdatacol rm..<rm_cols rm] ! i = foldl (XOR) (?d ! i) (map (?w i) [rm_firstdatacol rm..<rm_cols rm]))"
  proof (rule foldl_words)
    show "length ?d = ?n" using d by simp
    show "length (?F d c) = ?n \<and> (\<forall>i<?n. ?F d c ! i = d ! i XOR ?w i c)"
      if "c \<in> set [rm_firstdatacol rm..<rm_cols rm]" "length d = ?n" for c d
      using xor_words_nth [of "min (rm_count rm c) ?n" "rm_data rm c" d] w(3) [of c] that by (auto simp: rm_word_def)
  qed
  have "foldl ?F ?d [rm_firstdatacol rm..<rm_cols rm] = rm_data rm x"
  proof (rule nth_equalityI)
    show "length (foldl ?F ?d [rm_firstdatacol rm..<rm_cols rm]) = length (rm_data rm x)" using F w(3) [OF x(2)] by simp
    fix i assume "i < length (foldl ?F ?d [rm_firstdatacol rm..<rm_cols rm])"
    then have i: "i < ?n" "i < rm_count rm 0" using F w(4) [OF x(2)] by auto
    have l: "map (?w i) [rm_firstdatacol rm..<rm_cols rm] = (data_words rm i)[x - rm_firstdatacol rm := 0]"
      using x by (intro nth_equalityI) (auto simp: nth_list_update)
    have k: "x - rm_firstdatacol rm < length (data_words rm i)" "data_words rm i ! (x - rm_firstdatacol rm) = rm_data rm x ! i"
      using x i by (auto simp: rm_word_def)
    have "foldl ?F ?d [rm_firstdatacol rm..<rm_cols rm] ! i =
        parity_P (data_words rm i) XOR parity_P ((data_words rm i)[x - rm_firstdatacol rm := 0])"
      using F d i P unfolding parity_P_ok_def l [symmetric] by (simp add: foldl_xor)
    also have "\<dots> = rm_data rm x ! i" unfolding parity_P_upd [OF k(1)] k(2) by (rule xor_cancel)
    finally show "foldl ?F ?d [rm_firstdatacol rm..<rm_cols rm] ! i = rm_data rm x ! i" .
  qed
  then show ?thesis using x x0 by (simp add: vdev_raidz_reconstruct_p_def Let_def VDEV_RAIDZ_P_def)
qed

lemma reconstruct_q_correct:
  assumes wf: "raidz_wf rm" and Q: "parity_Q_ok rm" and two: "rm_firstdatacol rm = 2"
    and x: "rm_firstdatacol rm \<le> x" "x < rm_cols rm" "rm_cols rm - 1 - x \<le> 255"
    and bad: "length bad = rm_count rm x"
  shows "vdev_raidz_reconstruct_q (rm_set_data x bad rm) x = rm"
proof -
  note w = raidz_wfD [OF wf]
  let ?rm = "rm_set_data x bad rm" and ?n = "rm_count rm x" and ?f = "rm_firstdatacol rm"
  let ?F = "\<lambda>dst c. let ccount = (if c = x then 0 else rm_count ?rm c); count = min ccount ?n
      in if c = ?f then copy_zero_words count ?n (rm_data ?rm c) dst else mul2_xor_words count ?n (rm_data ?rm c) dst"
  let ?w = "\<lambda>i c. if c = x then 0 else rm_word rm i c"
  let ?d = "foldl ?F bad [?f..<rm_cols rm]"
  have cnt: "min (if c = x then 0 else rm_count ?rm c) ?n \<le> length (rm_data ?rm c)" if "c < rm_cols rm" for c
    using w(3) [OF that] by simp
  have F: "?d = map (\<lambda>i. foldl (\<lambda>a w. raidz_mul2_word a XOR w) 0 (map (?w i) [?f..<rm_cols rm])) [0..<?n]"
  proof (rule foldl_words_first [OF bad w(2)])
    show "length (?F d ?f) = ?n \<and> (\<forall>i<?n. ?F d ?f ! i = raidz_mul2_word 0 XOR ?w i ?f)" if "length d = ?n" for d
      using copy_zero_words_nth [OF cnt [OF w(2)] _ that] by (auto simp: Let_def rm_word_def)
    show "length (?F d c) = ?n \<and> (\<forall>i<?n. ?F d c ! i = raidz_mul2_word (d ! i) XOR ?w i c)"
      if "?f < c" "c < rm_cols rm" "length d = ?n" for c d
      using mul2_xor_words_nth [OF cnt [OF that(2)] _ that(3)] that(1) by (auto simp: Let_def rm_word_def)
  qed
  let ?k = "rm_cols rm - 1 - x"
  let ?D = "map2 (\<lambda>s d. let d = d XOR s in word_of_bytes (\<lambda>j. vdev_raidz_exp2 (byte_of d j) (255 - ?k)))
      (take ?n (rm_data rm 1)) (take ?n ?d) @ drop ?n ?d"
  have Qlen: "length (rm_data rm 1) = rm_count rm 0" "?n \<le> rm_count rm 0"
    using w(3) [of 1] w(5) [of 1] w(2) w(4) [OF x(2)] two by auto
  have dlen: "length ?d = ?n" unfolding F by simp
  have "?D = rm_data rm x"
  proof (rule nth_equalityI)
    show "length ?D = length (rm_data rm x)" using Qlen dlen w(3) [OF x(2)] by simp
    fix i assume "i < length ?D"
    then have i: "i < ?n" "i < rm_count rm 0" using Qlen dlen by auto
    have l: "map (?w i) [?f..<rm_cols rm] = (data_words rm i)[x - ?f := 0]"
      using x by (intro nth_equalityI) (auto simp: nth_list_update)
    have k: "x - ?f < length (data_words rm i)" "data_words rm i ! (x - ?f) = rm_data rm x ! i" "length (data_words rm i) - 1 - (x - ?f) = ?k"
      using x i by (auto simp: rm_word_def)
    have "?d ! i = parity_Q ((data_words rm i)[x - ?f := 0])" using i by (simp only: F nth_map_upt diff_zero add_0 l parity_Q_def)
    also have "\<dots> = parity_Q (data_words rm i) XOR (raidz_mul2_word ^^ ?k) (rm_data rm x ! i XOR 0)"
      unfolding parity_Q_upd [OF k(1)] k(2,3) ..
    finally have di: "?d ! i = parity_Q (data_words rm i) XOR (raidz_mul2_word ^^ ?k) (rm_data rm x ! i XOR 0)" .
    have c: "(q XOR m) XOR q = m" for q m :: u64 by (rule bit_eqI) (auto simp: bit_xor_iff)
    have "?D ! i = word_of_bytes (\<lambda>j. vdev_raidz_exp2 (byte_of (?d ! i XOR rm_data rm 1 ! i) j) (255 - ?k))"
      using i Qlen dlen by (simp add: nth_append Let_def)
    also have "?d ! i XOR rm_data rm 1 ! i = (raidz_mul2_word ^^ ?k) (rm_data rm x ! i)"
      using Q i(2) unfolding di parity_Q_ok_def by (simp add: c)
    also have "word_of_bytes (\<lambda>j. vdev_raidz_exp2 (byte_of ((raidz_mul2_word ^^ ?k) (rm_data rm x ! i)) j) (255 - ?k)) = rm_data rm x ! i"
    proof (rule word_eq_bytes)
      fix j :: nat assume j: "j < 8"
      have "255 - ?k + ?k = 255" using x(3) by simp
      then show "byte_of (word_of_bytes (\<lambda>j. vdev_raidz_exp2 (byte_of ((raidz_mul2_word ^^ ?k) (rm_data rm x ! i)) j) (255 - ?k))) j
          = byte_of (rm_data rm x ! i) j"
        using j by (simp only: byte_of_word_of_bytes byte_of_mul2_word_pow raidz_exp2_eq diff_le_self MUL_2_pow_add MUL_2_255)
    qed
    finally show "?D ! i = rm_data rm x ! i" .
  qed
  moreover have "x \<noteq> 1" using x(1) two by simp
  ultimately show ?thesis using x by (simp only: vdev_raidz_reconstruct_q_def VDEV_RAIDZ_Q_def rm_set_data_simps Let_def)
qed

lemma rm_set_size_set_data: "rm_set_size c s (rm_set_data c' d rm) = rm_set_data c' d (rm_set_size c s rm)"
proof -
  have rc: "r\<lparr>rc_data := d, rc_size := s\<rparr> = r\<lparr>rc_size := s, rc_data := d\<rparr>" for r :: raidz_col by (cases r) simp
  show ?thesis
    by (cases "c = c'"; cases "c < length (rm_col rm)"; cases "c' < length (rm_col rm)")
      (auto simp: rc rm_set_size_def rm_set_data_def list_update_swap nth_list_update list_update_beyond)
qed

lemma rm_set_size_restore:
  "x \<noteq> y \<Longrightarrow> rm_set_size y (rc_size (rm_col rm ! y)) (rm_set_size x (rc_size (rm_col rm ! x)) (rm_set_size y 0 (rm_set_size x 0 rm))) = rm"
proof -
  assume "x \<noteq> y"
  have a: "rm_set_size x s (rm_set_size x 0 rm) = rm_set_size x s rm" "rm_set_size x (rc_size (rm_col rm ! x)) rm = rm" for x s rm
    by (cases "x < length (rm_col rm)"; simp add: rm_set_size_def list_update_beyond)+
  have b: "rm_set_size x s (rm_set_size y s' rm) = rm_set_size y s' (rm_set_size x s rm)" for s s' rm
    using \<open>x \<noteq> y\<close> by (simp add: rm_set_size_def list_update_swap)
  show ?thesis by (simp only: b a)
qed

lemma rc_size_set_data [simp]: "rc_size (rm_col (rm_set_data c d rm) ! c') = rc_size (rm_col rm ! c')"
  by (cases "c < length (rm_col rm)"; cases "c = c'") (auto simp: rm_set_data_def list_update_beyond)

lemma data_words_zero_two:
  assumes "rm_firstdatacol rm \<le> x" "x < y" "y < rm_cols rm"
  shows "data_words (rm_set_size y 0 (rm_set_size x 0 (rm_set_data y d' (rm_set_data x d rm)))) i =
    (data_words rm i)[x - rm_firstdatacol rm := 0, y - rm_firstdatacol rm := 0]"
proof (rule nth_equalityI)
  let ?rm = "rm_set_size y 0 (rm_set_size x 0 (rm_set_data y d' (rm_set_data x d rm)))"
  fix k assume "k < length (data_words ?rm i)"
  then have k: "rm_firstdatacol rm + k < rm_cols rm" by simp
  let ?c = "rm_firstdatacol rm + k"
  consider "?c = x" | "?c = y" | "?c \<noteq> x" "?c \<noteq> y" by blast
  then show "data_words ?rm i ! k = (data_words rm i)[x - rm_firstdatacol rm := 0, y - rm_firstdatacol rm := 0] ! k"
  proof cases
    case 1
    then have "x - rm_firstdatacol rm = k" "y - rm_firstdatacol rm \<noteq> k" using assms by auto
    then show ?thesis using 1 k assms by (simp add: rm_word_def)
  next
    case 2
    then have "y - rm_firstdatacol rm = k" using assms by auto
    then show ?thesis using 2 k assms by (simp add: rm_word_def)
  next
    case 3
    then have "x - rm_firstdatacol rm \<noteq> k" "y - rm_firstdatacol rm \<noteq> k" using assms by auto
    then show ?thesis using 3 k assms by (simp add: rm_word_def)
  qed
qed simp

lemma parity_two:
  assumes "a < b" "b < length ws"
  shows "parity_P ws XOR parity_P (ws[a := 0, b := 0]) = ws ! a XOR ws ! b"
    and "parity_Q ws XOR parity_Q (ws[a := 0, b := 0]) =
      (raidz_mul2_word ^^ (length ws - 1 - a)) (ws ! a) XOR (raidz_mul2_word ^^ (length ws - 1 - b)) (ws ! b)"
proof -
  have c: "p XOR ((p XOR (u XOR 0)) XOR (v XOR 0)) = u XOR v" "p XOR ((p XOR u) XOR v) = u XOR v" for p u v :: u64
    by (rule bit_eqI; auto simp: bit_xor_iff)+
  have b: "ws[a := 0] ! b = ws ! b" "b < length (ws[a := 0])" "a < length ws" using assms by auto
  show "parity_P ws XOR parity_P (ws[a := 0, b := 0]) = ws ! a XOR ws ! b"
    unfolding parity_P_upd [OF b(2)] parity_P_upd [OF b(3)] b(1) by (rule c)
  show "parity_Q ws XOR parity_Q (ws[a := 0, b := 0]) =
      (raidz_mul2_word ^^ (length ws - 1 - a)) (ws ! a) XOR (raidz_mul2_word ^^ (length ws - 1 - b)) (ws ! b)"
    unfolding parity_Q_upd [OF b(2)] parity_Q_upd [OF b(3)] b(1) length_list_update xor.right_neutral by (rule c)
qed

lemma reconstruct_pq_word:
  assumes "x < y" "k = cols - 1 - x" "y < cols" "k < 255"
    and p: "p XOR pxy = wx XOR wy"
    and q: "q XOR qxy = (raidz_mul2_word ^^ k) wx XOR (raidz_mul2_word ^^ (k - (y - x))) wy"
    and a: "a = vdev_raidz_pow2 ! (255 + x - y)" and b: "b = vdev_raidz_pow2 ! (255 - k)"
    and tmp: "tmp = 255 - unat (vdev_raidz_log2 ! unat (a XOR 1))"
    and aexp: "aexp = unat (vdev_raidz_log2 ! unat (vdev_raidz_exp2 a tmp))"
    and bexp: "bexp = unat (vdev_raidz_log2 ! unat (vdev_raidz_exp2 b tmp))"
  shows "word_of_bytes (\<lambda>j. vdev_raidz_exp2 (byte_of p j XOR byte_of pxy j) aexp
      XOR vdev_raidz_exp2 (byte_of q j XOR byte_of qxy j) bexp) = wx"
proof (rule word_eq_bytes)
  fix j :: nat assume j: "j < 8"
  have D: "0 < y - x" "y - x \<le> k" using assms(1-3) by auto
  have a': "a = vdev_raidz_pow2 ! (255 - (y - x))" using a assms(1) by simp
  have "byte_of p j XOR byte_of pxy j = byte_of wx j XOR byte_of wy j" by (simp only: byte_of_xor [symmetric] p)
  moreover have "byte_of q j XOR byte_of qxy j = (dbl ^^ k) (byte_of wx j) XOR (dbl ^^ (k - (y - x))) (byte_of wy j)"
    using j by (simp only: byte_of_xor [symmetric] q) (simp only: byte_of_xor byte_of_mul2_word_pow)
  ultimately show "byte_of (word_of_bytes (\<lambda>j. vdev_raidz_exp2 (byte_of p j XOR byte_of pxy j) aexp
      XOR vdev_raidz_exp2 (byte_of q j XOR byte_of qxy j) bexp)) j = byte_of wx j"
    using j raidz_solve_pq [OF D assms(4) a' b tmp aexp bexp] by (simp only: byte_of_word_of_bytes)
qed

lemma reconstruct_pq_correct:
  assumes wf: "raidz_wf rm" and P: "parity_P_ok rm" and Q: "parity_Q_ok rm" and two: "rm_firstdatacol rm = 2"
    and xy: "2 \<le> x" "x < y" "y < rm_cols rm" "rm_cols rm - 1 - x < 255"
    and bad: "length xb = rm_count rm x" "length yb = rm_count rm y"
    and alloc: "\<And>c. c < 2 \<Longrightarrow> length (alloc (rc_size (rm_col rm ! c))) = rm_count rm c"
  shows "vdev_raidz_reconstruct_pq alloc (rm_set_data y yb (rm_set_data x xb rm)) x y = rm"
proof -
  note w = raidz_wfD [OF wf]
  define rb where "rb = rm_set_data y yb (rm_set_data x xb rm)"
  have ne: "x \<noteq> y" "x \<noteq> 0" "x \<noteq> 1" "y \<noteq> 0" "y \<noteq> 1" "x < rm_cols rm" "0 < rm_cols rm" "1 < rm_cols rm" using xy by auto
  let ?n = "rm_count rm 0"
  define ap aq where "ap = alloc (rc_size (rm_col rm ! 0))" and "aq = alloc (rc_size (rm_col rm ! 1))"
  have al: "length ap = ?n" "length aq = ?n" using alloc [of 0] alloc [of 1] w(5) [of 1] two by (auto simp: ap_def aq_def)
  define r0 where "r0 = rm_set_size y 0 (rm_set_size x 0 (rm_set_data 1 aq (rm_set_data 0 ap rb)))"
  have r0: "r0 = rm_set_data 1 aq (rm_set_data 0 ap (rm_set_size y 0 (rm_set_size x 0 rb)))"
    by (simp only: r0_def rm_set_size_set_data)
  have dw: "data_words r0 i = (data_words rm i)[x - 2 := 0, y - 2 := 0]" for i
  proof -
    let ?R = "rm_set_size y 0 (rm_set_size x 0 rb)"
    have "data_words r0 i = data_words (rm_set_data 0 ap ?R) i"
      unfolding r0 by (rule data_words_set_parity) (simp add: two rb_def)
    also have "\<dots> = data_words ?R i" by (rule data_words_set_parity) (simp add: two rb_def)
    also have "\<dots> = (data_words rm i)[x - 2 := 0, y - 2 := 0]"
      unfolding rb_def using data_words_zero_two [of rm x y] two xy by simp
    finally show ?thesis .
  qed
  define pxy qxy where "pxy = map (\<lambda>i. parity_P (data_words r0 i)) [0..<?n]" and "qxy = map (\<lambda>i. parity_Q (data_words r0 i)) [0..<?n]"
  have gen: "vdev_raidz_generate_parity_pq r0 = rm_set_data 1 qxy (rm_set_data 0 pxy r0)"
    unfolding pxy_def qxy_def
  proof (rule generate_parity_pq_eq [unfolded VDEV_RAIDZ_P_def VDEV_RAIDZ_Q_def])
    show "rm_firstdatacol r0 < rm_cols r0" using w(2) by (simp add: r0 rb_def)
    show "rm_count r0 0 = rm_count rm 0" using ne by (simp add: r0_def rb_def)
    show "length (rm_data r0 0) = rm_count rm 0" using ne al by (simp add: r0_def rb_def)
    show "length (rm_data r0 1) = rm_count rm 0" using ne al by (simp add: r0_def rb_def)
    show "rm_count r0 c \<le> length (rm_data r0 c) \<and> rm_count r0 c \<le> rm_count rm 0"
      if "rm_firstdatacol r0 \<le> c" "c < rm_cols r0" for c
    proof -
      have c: "2 \<le> c" "c < rm_cols rm" using that two by (auto simp: r0_def rb_def)
      then show ?thesis using w(3) [OF c(2)] w(4) [OF c(2)] ne bad
        by (cases "c = x"; cases "c = y") (simp_all add: r0_def rb_def)
    qed
  qed
  define r1 where "r1 = rm_set_size y (rc_size (rm_col rb ! y)) (rm_set_size x (rc_size (rm_col rb ! x)) (vdev_raidz_generate_parity_pq r0))"
  have r1: "r1 = rm_set_data 1 qxy (rm_set_data 0 pxy rb)"
  proof -
    have "r1 = rm_set_data 1 qxy (rm_set_data 0 pxy (rm_set_data 1 aq (rm_set_data 0 ap
        (rm_set_size y (rc_size (rm_col rb ! y)) (rm_set_size x (rc_size (rm_col rb ! x)) (rm_set_size y 0 (rm_set_size x 0 rb)))))))"
      unfolding r1_def gen unfolding r0 by (simp only: rm_set_size_set_data)
    also have "\<dots> = rm_set_data 1 qxy (rm_set_data 0 pxy (rm_set_data 1 aq (rm_set_data 0 ap rb)))"
      by (simp only: rm_set_size_restore [OF ne(1)])
    finally show ?thesis by (simp only: rm_set_data_commute [of 0 1] rm_set_data_simps zero_neq_one not_False_eq_True)
  qed
  let ?cx = "rm_count rm x" and ?cy = "rm_count rm y"
  have cxy: "?cy \<le> ?cx" "?cx \<le> ?n" using w(6) [of x y] w(4) [of x] xy by auto
  have pw: "rm_data rm 0 ! i XOR pxy ! i = rm_word rm i x XOR rm_word rm i y"
    and qw: "rm_data rm 1 ! i XOR qxy ! i = (raidz_mul2_word ^^ (rm_cols rm - 1 - x)) (rm_word rm i x)
        XOR (raidz_mul2_word ^^ (rm_cols rm - 1 - x - (y - x))) (rm_word rm i y)" if i: "i < ?n" for i
  proof -
    have k: "x - 2 < y - 2" "y - 2 < length (data_words rm i)" using xy two by auto
    have l: "data_words rm i ! (x - 2) = rm_word rm i x" "data_words rm i ! (y - 2) = rm_word rm i y"
      "length (data_words rm i) - 1 - (x - 2) = rm_cols rm - 1 - x" "length (data_words rm i) - 1 - (y - 2) = rm_cols rm - 1 - x - (y - x)"
    proof -
      have "2 + (x - 2) = x" "2 + (y - 2) = y" using xy by auto
      then show "data_words rm i ! (x - 2) = rm_word rm i x" "data_words rm i ! (y - 2) = rm_word rm i y"
        using xy two by (simp_all del: add_2_eq_Suc)
    qed (use xy two in auto)
    have "rm_data rm 0 ! i = parity_P (data_words rm i)" "pxy ! i = parity_P ((data_words rm i)[x - 2 := 0, y - 2 := 0])"
      "rm_data rm 1 ! i = parity_Q (data_words rm i)" "qxy ! i = parity_Q ((data_words rm i)[x - 2 := 0, y - 2 := 0])"
      using P Q i by (simp_all add: parity_P_ok_def parity_Q_ok_def pxy_def qxy_def dw)
    then show "rm_data rm 0 ! i XOR pxy ! i = rm_word rm i x XOR rm_word rm i y"
      "rm_data rm 1 ! i XOR qxy ! i = (raidz_mul2_word ^^ (rm_cols rm - 1 - x)) (rm_word rm i x)
        XOR (raidz_mul2_word ^^ (rm_cols rm - 1 - x - (y - x))) (rm_word rm i y)"
      by (simp_all only: parity_two [OF k] l)
  qed
  define a b where "a = vdev_raidz_pow2 ! (255 + x - y)" and "b = vdev_raidz_pow2 ! (255 - (rm_cols rm - 1 - x))"
  define tmp where "tmp = 255 - unat (vdev_raidz_log2 ! unat (a XOR 1))"
  define ae be where "ae = unat (vdev_raidz_log2 ! unat (vdev_raidz_exp2 a tmp))" and "be = unat (vdev_raidz_log2 ! unat (vdev_raidz_exp2 b tmp))"
  define xd where "xd = map (\<lambda>i. word_of_bytes (\<lambda>j. vdev_raidz_exp2 (byte_of (rm_data rm 0 ! i) j XOR byte_of (pxy ! i) j) ae
      XOR vdev_raidz_exp2 (byte_of (rm_data rm 1 ! i) j XOR byte_of (qxy ! i) j) be)) [0..<?cx] @ drop ?cx xb"
  have xd: "xd = rm_data rm x"
  proof (rule nth_equalityI)
    show "length xd = length (rm_data rm x)" using bad w(3) ne by (simp add: xd_def)
    fix i assume "i < length xd"
    then have i: "i < ?cx" "i < ?n" using bad cxy by (auto simp: xd_def)
    have "xd ! i = rm_word rm i x"
      using reconstruct_pq_word [OF xy(2) refl xy(3,4) pw [OF i(2)] qw [OF i(2)] a_def b_def tmp_def ae_def be_def] i(1)
      by (simp add: xd_def nth_append)
    then show "xd ! i = rm_data rm x ! i" using i by (simp add: rm_word_def)
  qed
  define yd where "yd = map (\<lambda>i. rm_data rm 0 ! i XOR pxy ! i XOR xd ! i) [0..<min ?cx ?cy] @ drop (min ?cx ?cy) yb"
  have c: "p XOR pp XOR u = v" if "p XOR pp = u XOR v" for p pp u v :: u64
  proof -
    have "p XOR pp XOR u = (p XOR pp) XOR u" by (simp only: xor.assoc)
    also have "\<dots> = v" unfolding that by (rule bit_eqI) (auto simp: bit_xor_iff)
    finally show ?thesis .
  qed
  have yd: "yd = rm_data rm y"
  proof (rule nth_equalityI)
    show "length yd = length (rm_data rm y)" using bad w(3) [OF xy(3)] cxy by (simp add: yd_def)
    fix i assume "i < length yd"
    then have i: "i < ?cy" "i < ?cx" "i < ?n" using bad cxy by (auto simp: yd_def)
    have "yd ! i = rm_data rm 0 ! i XOR pxy ! i XOR rm_word rm i x" using i by (simp add: yd_def nth_append xd rm_word_def)
    also have "\<dots> = rm_data rm y ! i" using c [OF pw [OF i(3)]] i by (simp add: rm_word_def)
    finally show "yd ! i = rm_data rm y ! i" .
  qed
  have fin: "rm_set_data 1 (rm_data rm 1) (rm_set_data 0 (rm_data rm 0) (rm_set_data y yd (rm_set_data x xd r1))) = rm"
  proof -
    have "rm_set_data 1 (rm_data rm 1) (rm_set_data 0 (rm_data rm 0) (rm_set_data y yd (rm_set_data x xd r1))) =
        rm_set_data 1 (rm_data rm 1) (rm_set_data 0 (rm_data rm 0) (rm_set_data y yd (rm_set_data x xd rm)))"
      unfolding r1 rb_def using ne
      by (simp only: rm_set_data_commute [of x 0] rm_set_data_commute [of x 1] rm_set_data_commute [of y 0] rm_set_data_commute [of y 1]
          rm_set_data_commute [of 0 1] rm_set_data_commute [of x y] rm_set_data_simps zero_neq_one not_False_eq_True)
    then show ?thesis unfolding xd yd by simp
  qed
  have rb: "rm_data rb 0 = rm_data rm 0" "rm_data rb 1 = rm_data rm 1" "rc_size (rm_col rb ! 0) = rc_size (rm_col rm ! 0)"
    "rc_size (rm_col rb ! 1) = rc_size (rm_col rm ! 1)" "rm_count rb c = rm_count rm c" "rm_cols rb = rm_cols rm"
    "rm_data rb x = xb" "rm_data rb y = yb" for c
    using ne xy(3) by (simp_all add: rb_def)
  have r1d: "rm_data r1 0 = pxy" "rm_data r1 1 = qxy" "rm_data r1 x = xb" "rm_data r1 y = yb" "rm_count r1 c = rm_count rm c" "rm_cols r1 = rm_cols rm" for c
    using ne rb by (simp_all add: r1)
  show ?thesis
    unfolding vdev_raidz_reconstruct_pq_def rb_def [symmetric] VDEV_RAIDZ_P_def VDEV_RAIDZ_Q_def Let_def
    unfolding rc_size_set_data
    unfolding rb ap_def [symmetric] aq_def [symmetric]
    unfolding r0_def [symmetric] r1_def [symmetric]
    unfolding r1d a_def [symmetric] b_def [symmetric]
    unfolding tmp_def [symmetric]
    unfolding ae_def [symmetric] be_def [symmetric]
    unfolding xd_def [symmetric]
    unfolding yd_def [symmetric] by (rule fin)
qed

subsection \<open>Layout\<close>

text \<open>An I/O that a RAID-Z device with \<open>dcols\<close> children accepts: whole sectors, at most
  2^32 bytes, one or two parity columns, and fewer than 256 children.\<close>

definition raidz_io :: "u64 \<Rightarrow> u64 list \<Rightarrow> nat \<Rightarrow> u64 \<Rightarrow> u64 \<Rightarrow> bool" where
  "raidz_io sz dat u dcols nparity \<longleftrightarrow>
     0 < sz \<and> unat sz < 2 ^ 32 \<and> 2 ^ u dvd unat sz \<and> length dat = unat sz div 8 \<and> 3 \<le> u \<and> u \<le> 16 \<and>
     1 \<le> nparity \<and> nparity \<le> 2 \<and> nparity < dcols \<and> dcols < 256"

text \<open>The quantities of the layout as natural numbers: the sectors \<open>S\<close> of data, the full rows
  \<open>lq\<close> and the rest \<open>lr\<close>, the big columns and the columns.\<close>

definition lS :: "u64 \<Rightarrow> nat \<Rightarrow> nat" where "lS sz u = unat sz div 2 ^ u"
definition lm :: "u64 \<Rightarrow> u64 \<Rightarrow> nat" where "lm dcols nparity = unat dcols - unat nparity"
definition lq :: "u64 \<Rightarrow> nat \<Rightarrow> u64 \<Rightarrow> u64 \<Rightarrow> nat" where "lq sz u dcols nparity = lS sz u div lm dcols nparity"
definition lr :: "u64 \<Rightarrow> nat \<Rightarrow> u64 \<Rightarrow> u64 \<Rightarrow> nat" where "lr sz u dcols nparity = lS sz u mod lm dcols nparity"
definition lbc :: "u64 \<Rightarrow> nat \<Rightarrow> u64 \<Rightarrow> u64 \<Rightarrow> nat" where
  "lbc sz u dcols nparity = (if lr sz u dcols nparity = 0 then 0 else lr sz u dcols nparity + unat nparity)"
definition lcols :: "u64 \<Rightarrow> nat \<Rightarrow> u64 \<Rightarrow> u64 \<Rightarrow> nat" where
  "lcols sz u dcols nparity = (if lq sz u dcols nparity = 0 then lbc sz u dcols nparity else unat dcols)"
definition lsize :: "u64 \<Rightarrow> nat \<Rightarrow> u64 \<Rightarrow> u64 \<Rightarrow> nat \<Rightarrow> nat" where
  "lsize sz u dcols nparity c = lq sz u dcols nparity + (if c < lbc sz u dcols nparity then 1 else 0)"

lemma raidz_ioD:
  assumes "raidz_io sz dat u dcols nparity"
  shows "0 < unat sz" "unat sz < 2 ^ 32" "2 ^ u dvd unat sz" "length dat = unat sz div 8" "3 \<le> u" "u \<le> 16"
    "1 \<le> unat nparity" "unat nparity \<le> 2" "unat nparity < unat dcols" "unat dcols < 256"
  using assms by (simp_all add: raidz_io_def word_less_nat_alt word_le_nat_alt)

lemma lS_facts:
  assumes "raidz_io sz dat u dcols nparity"
  shows "0 < lS sz u" "unat sz = lS sz u * 2 ^ u" "lS sz u < 2 ^ 32" "0 < lm dcols nparity"
    "lq sz u dcols nparity * lm dcols nparity + lr sz u dcols nparity = lS sz u" "lr sz u dcols nparity < lm dcols nparity"
    "lq sz u dcols nparity < 2 ^ 32" "lS sz u * 2 ^ u < 2 ^ 32" "2 ^ u \<le> (2 :: nat) ^ 16"
proof -
  note d = raidz_ioD [OF assms]
  show sz: "unat sz = lS sz u * 2 ^ u" using d(3) by (simp add: lS_def)
  then show "0 < lS sz u" using d(1) by (cases "lS sz u") auto
  have "lS sz u * 1 \<le> lS sz u * 2 ^ u" by (rule mult_le_mono2) simp
  then show S: "lS sz u < 2 ^ 32" using sz d(2) by linarith
  show m: "0 < lm dcols nparity" using d(9) by (simp add: lm_def)
  show "lq sz u dcols nparity * lm dcols nparity + lr sz u dcols nparity = lS sz u" unfolding lq_def lr_def by (rule div_mult_mod_eq)
  show "lr sz u dcols nparity < lm dcols nparity" using m by (simp add: lr_def)
  have "lq sz u dcols nparity \<le> lS sz u" by (simp add: lq_def)
  then show "lq sz u dcols nparity < 2 ^ 32" using S by linarith
  show "lS sz u * 2 ^ u < 2 ^ 32" using sz d(2) by simp
  show "2 ^ u \<le> (2 :: nat) ^ 16" using d(6) by (rule power_increasing) simp
qed

lemma unat_layout:
  assumes io: "raidz_io sz dat u dcols nparity"
  defines "s \<equiv> drop_bit u sz"
  defines "q \<equiv> s div (dcols - nparity)"
  defines "r \<equiv> s - q * (dcols - nparity)"
  defines "bc \<equiv> if r = 0 then 0 else r + nparity"
  shows "unat q = lq sz u dcols nparity" "unat r = lr sz u dcols nparity" "unat bc = lbc sz u dcols nparity"
    "unat (if q = 0 then bc else dcols) = lcols sz u dcols nparity"
proof -
  note d = raidz_ioD [OF io] and l = lS_facts [OF io]
  have s: "unat s = lS sz u" unfolding s_def unat_drop_bit_eq by (simp only: lS_def drop_bit_eq_div)
  have m: "unat (dcols - nparity) = lm dcols nparity" using d(9) by (simp add: lm_def unat_sub word_le_nat_alt)
  show q: "unat q = lq sz u dcols nparity" by (simp add: q_def lq_def unat_div s m)
  have "unat (q * (dcols - nparity)) = lq sz u dcols nparity * lm dcols nparity"
  proof -
    have "lq sz u dcols nparity * lm dcols nparity < 2 ^ 64" using l(3,5) by simp
    then show ?thesis by (simp add: unat_word_ariths(2) q m)
  qed
  then have qm: "unat (q * (dcols - nparity)) = lS sz u - lr sz u dcols nparity" using l(5) by simp
  then have "unat r = lS sz u - (lS sz u - lr sz u dcols nparity)"
    by (simp add: r_def unat_sub word_le_nat_alt s)
  then show r: "unat r = lr sz u dcols nparity" using l(5) by linarith
  have r0: "r = 0 \<longleftrightarrow> lr sz u dcols nparity = 0" using r by (simp add: unat_eq_zero flip: r)
  have "unat (r + nparity) = lr sz u dcols nparity + unat nparity"
    using l(3,5) d(8) by (subst unat_add_lem [THEN iffD1]) (auto simp: r)
  then show bc: "unat bc = lbc sz u dcols nparity" using r0 by (simp add: bc_def lbc_def)
  have "q = 0 \<longleftrightarrow> lq sz u dcols nparity = 0" using q by (simp add: unat_eq_zero flip: q)
  then show "unat (if q = 0 then bc else dcols) = lcols sz u dcols nparity" using bc by (simp add: lcols_def)
qed

lemma lcols_facts:
  assumes io: "raidz_io sz dat u dcols nparity"
  shows "unat nparity < lcols sz u dcols nparity" "lcols sz u dcols nparity \<le> unat dcols" "lbc sz u dcols nparity \<le> lcols sz u dcols nparity"
    "lbc sz u dcols nparity = 0 \<or> unat nparity < lbc sz u dcols nparity"
    "sum_list (map (lsize sz u dcols nparity) [unat nparity..<lcols sz u dcols nparity]) = lS sz u"
proof -
  note d = raidz_ioD [OF io] and l = lS_facts [OF io]
  have S: "lq sz u dcols nparity = 0 \<Longrightarrow> 0 < lr sz u dcols nparity" using l(1,5) by (cases "lr sz u dcols nparity") auto
  show "unat nparity < lcols sz u dcols nparity" using S d(9) by (cases "lq sz u dcols nparity = 0") (simp_all add: lcols_def lbc_def)
  show "lcols sz u dcols nparity \<le> unat dcols" using l(6) d(9) by (auto simp: lcols_def lbc_def lm_def)
  show bc: "lbc sz u dcols nparity \<le> lcols sz u dcols nparity" using l(6) d(9) by (auto simp: lcols_def lbc_def lm_def)
  show bp: "lbc sz u dcols nparity = 0 \<or> unat nparity < lbc sz u dcols nparity" by (auto simp: lbc_def)
  have sum: "n \<le> k \<Longrightarrow> sum_list (map (lsize sz u dcols nparity) [n..<k]) = (k - n) * lq sz u dcols nparity + (min k (lbc sz u dcols nparity) - n)" for n k
    by (induction k rule: dec_induct) (auto simp: lsize_def Suc_diff_le min_def)
  show "sum_list (map (lsize sz u dcols nparity) [unat nparity..<lcols sz u dcols nparity]) = lS sz u"
    using sum [of "unat nparity" "lcols sz u dcols nparity"] bc l(5) d(9) S
    by (cases "lq sz u dcols nparity = 0") (auto simp: lcols_def lbc_def lm_def min_def mult.commute)
qed

lemma raidz_assign_data_simps:
  "length (raidz_assign_data dat cs) = length cs"
  "k < length cs \<Longrightarrow> rc_size (raidz_assign_data dat cs ! k) = rc_size (cs ! k)"
  "k < length cs \<Longrightarrow> rc_devidx (raidz_assign_data dat cs ! k) = rc_devidx (cs ! k)"
  "k < length cs \<Longrightarrow> sum_list (map rc_count cs) \<le> length dat \<Longrightarrow> length (rc_data (raidz_assign_data dat cs ! k)) = rc_count (cs ! k)"
  "concat (map rc_data (raidz_assign_data dat cs)) = take (sum_list (map rc_count cs)) dat"
proof -
  show l: "length (raidz_assign_data dat cs) = length cs" by (induction cs arbitrary: dat) simp_all
  show "k < length cs \<Longrightarrow> rc_size (raidz_assign_data dat cs ! k) = rc_size (cs ! k)"
    by (induction cs arbitrary: dat k) (auto simp: nth_Cons split: nat.split)
  show "k < length cs \<Longrightarrow> rc_devidx (raidz_assign_data dat cs ! k) = rc_devidx (cs ! k)"
    by (induction cs arbitrary: dat k) (auto simp: nth_Cons split: nat.split)
  show "k < length cs \<Longrightarrow> sum_list (map rc_count cs) \<le> length dat \<Longrightarrow> length (rc_data (raidz_assign_data dat cs ! k)) = rc_count (cs ! k)"
    by (induction cs arbitrary: dat k) (auto simp: nth_Cons split: nat.split)
  show "concat (map rc_data (raidz_assign_data dat cs)) = take (sum_list (map rc_count cs)) dat"
    by (induction cs arbitrary: dat) (simp_all add: take_add)
qed

lemma raidz_swap_parity_simps:
  assumes "2 \<le> length cs"
  shows "length (raidz_swap_parity cs) = length cs" "rc_size (raidz_swap_parity cs ! k) = rc_size (cs ! k)"
    "rc_data (raidz_swap_parity cs ! k) = rc_data (cs ! k)"
    "map rc_devidx (raidz_swap_parity cs) = (map rc_devidx cs)[0 := rc_devidx (cs ! 1), 1 := rc_devidx (cs ! 0)]"
proof -
  obtain c0 c1 cs' where cs: "cs = c0 # c1 # cs'" using assms by (cases cs; cases "tl cs") auto
  show "length (raidz_swap_parity cs) = length cs" by (simp add: raidz_swap_parity_def Let_def)
  show "rc_size (raidz_swap_parity cs ! k) = rc_size (cs ! k)" "rc_data (raidz_swap_parity cs ! k) = rc_data (cs ! k)"
    by (auto simp: cs raidz_swap_parity_def Let_def nth_Cons split: nat.split)
  show "map rc_devidx (raidz_swap_parity cs) = (map rc_devidx cs)[0 := rc_devidx (cs ! 1), 1 := rc_devidx (cs ! 0)]"
    by (simp add: cs raidz_swap_parity_def Let_def)
qed

text \<open>The columns before and after the data are assigned, and the shape of the map.\<close>

definition lay_cols :: "u64 \<Rightarrow> u64 \<Rightarrow> nat \<Rightarrow> u64 \<Rightarrow> u64 \<Rightarrow> raidz_col list" where
  "lay_cols offset sz u dcols nparity =
     (let b = drop_bit u offset; q = drop_bit u sz div (dcols - nparity); r = drop_bit u sz - q * (dcols - nparity)
      in map (\<lambda>c. raidz_new_col u dcols (b mod dcols) (push_bit u (b div dcols)) q (if r = 0 then 0 else r + nparity) (of_nat c))
           [0..<lcols sz u dcols nparity])"

definition lay_data :: "(u64 \<Rightarrow> u64 list) \<Rightarrow> u64 list \<Rightarrow> u64 \<Rightarrow> raidz_col list \<Rightarrow> raidz_col list" where
  "lay_data alloc dat nparity cs =
     map (\<lambda>rc. rc\<lparr>rc_data := alloc (rc_size rc)\<rparr>) (take (unat nparity) cs) @ raidz_assign_data dat (drop (unat nparity) cs)"

lemma map_alloc_shape:
  assumes io: "raidz_io sz dat u dcols nparity"
  shows "rm_firstdatacol (vdev_raidz_map_alloc alloc offset sz dat u dcols nparity) = unat nparity"
    "rm_asize (vdev_raidz_map_alloc alloc offset sz dat u dcols nparity) =
       roundup (sum_list (map rc_size (lay_cols offset sz u dcols nparity))) (push_bit u (nparity + 1))"
    "rm_col (vdev_raidz_map_alloc alloc offset sz dat u dcols nparity) =
       (let cs = lay_data alloc dat nparity (lay_cols offset sz u dcols nparity)
        in if nparity = 1 \<and> offset AND push_bit 20 1 \<noteq> 0 then raidz_swap_parity cs else cs)"
  by (simp_all only: vdev_raidz_map_alloc_def lay_cols_def lay_data_def Let_def unat_layout(4) [OF io] raidz_map.simps)

lemma unat_2_pow: assumes "u < 64" shows "unat (2 ^ u :: u64) = 2 ^ u"
proof -
  have "(2 :: nat) ^ u < 2 ^ 64" using assms by (rule power_strict_increasing) simp
  moreover have "(2 ^ u :: u64) = of_nat (2 ^ u)" by simp
  ultimately show ?thesis by (simp only: unat_of_nat) (simp add: take_bit_nat_eq_self)
qed

lemma lay_cols_simps:
  assumes io: "raidz_io sz dat u dcols nparity"
  shows "length (lay_cols offset sz u dcols nparity) = lcols sz u dcols nparity"
    "c < lcols sz u dcols nparity \<Longrightarrow> unat (rc_size (lay_cols offset sz u dcols nparity ! c)) = lsize sz u dcols nparity c * 2 ^ u"
    "c < lcols sz u dcols nparity \<Longrightarrow>
       unat (rc_devidx (lay_cols offset sz u dcols nparity ! c)) = (unat (drop_bit u offset mod dcols) + c) mod unat dcols"
proof -
  note d = raidz_ioD [OF io] and l = lS_facts [OF io] and lc = lcols_facts [OF io]
  show "length (lay_cols offset sz u dcols nparity) = lcols sz u dcols nparity" by (simp add: lay_cols_def Let_def)
  assume c: "c < lcols sz u dcols nparity"
  define q r bc where "q = drop_bit u sz div (dcols - nparity)" and "r = drop_bit u sz - q * (dcols - nparity)"
    and "bc = (if r = 0 then 0 else r + nparity)"
  have un: "unat q = lq sz u dcols nparity" "unat bc = lbc sz u dcols nparity"
    using unat_layout [OF io] by (simp_all only: q_def r_def bc_def)
  have c256: "c < 256" using c lc(2) d(10) by simp
  then have cw: "unat (of_nat c :: u64) = c" by (simp add: unat_of_nat)
  define f where "f = drop_bit u offset mod dcols"
  have col: "lay_cols offset sz u dcols nparity ! c = raidz_new_col u dcols f (push_bit u (drop_bit u offset div dcols)) q bc (of_nat c)"
    using c by (simp add: lay_cols_def Let_def q_def r_def bc_def f_def)
  have "unat (q + (if of_nat c < bc then 1 else 0)) = lsize sz u dcols nparity c"
    using l(7) by (auto simp: lsize_def un cw word_less_nat_alt unat_add_lem [THEN iffD1])
  moreover have "lsize sz u dcols nparity c * 2 ^ u < 2 ^ 64"
  proof -
    have "lsize sz u dcols nparity c * 2 ^ u \<le> 2 ^ 32 * 2 ^ 16" using l(7,9) by (intro mult_le_mono) (auto simp: lsize_def)
    then show ?thesis by simp
  qed
  moreover have "unat (2 ^ u :: u64) = 2 ^ u" using d(6) by (intro unat_2_pow) simp
  ultimately show "unat (rc_size (lay_cols offset sz u dcols nparity ! c)) = lsize sz u dcols nparity c * 2 ^ u"
    unfolding col by (simp add: raidz_new_col_def Let_def push_bit_eq_mult unat_word_ariths(2) split: prod.split)
  have f: "unat f < unat dcols" using d(9) by (simp add: f_def unat_mod)
  then have fc: "unat (f + of_nat c) = unat f + c" using c256 d(10) by (subst unat_add_lem [THEN iffD1]) (auto simp: cw)
  show "unat (rc_devidx (lay_cols offset sz u dcols nparity ! c)) = (unat f + c) mod unat dcols"
  proof (cases "dcols \<le> f + of_nat c")
    case True
    then have "unat (f + of_nat c - dcols) = unat f + c - unat dcols" by (simp add: unat_sub fc)
    moreover have "unat dcols \<le> unat f + c" "unat f + c - unat dcols < unat dcols" using True f fc c lc(2) by (auto simp: word_le_nat_alt)
    ultimately show ?thesis using True unfolding col by (simp add: raidz_new_col_def le_mod_geq)
  next
    case False
    then have "unat f + c < unat dcols" using fc by (simp add: word_le_nat_alt)
    then show ?thesis using False unfolding col by (simp add: raidz_new_col_def fc)
  qed
qed

lemma lay_col_nth:
  fixes offset :: u64
  assumes io: "raidz_io sz dat u dcols nparity" and c: "c < lcols sz u dcols nparity"
    and alloc: "\<And>s. length (alloc s) = unat s div 8"
  defines "rm \<equiv> vdev_raidz_map_alloc alloc offset sz dat u dcols nparity"
  shows "rm_count rm c = lsize sz u dcols nparity c * 2 ^ (u - 3)" "length (rm_data rm c) = rm_count rm c"
proof -
  note d = raidz_ioD [OF io] and lc = lcols_facts [OF io] and ls = lay_cols_simps [OF io]
  let ?cs = "lay_cols offset sz u dcols nparity" and ?N = "unat nparity"
  let ?ds = "lay_data alloc dat nparity ?cs"
  have u: "(2 :: nat) ^ u = 8 * 2 ^ (u - 3)" using d(5) power_add [of "2 :: nat" 3 "u - 3"] by simp
  have cnt: "rc_count (?cs ! k) = lsize sz u dcols nparity k * 2 ^ (u - 3)" if "k < lcols sz u dcols nparity" for k
    unfolding rc_count_def ls(2) [OF that] u by simp
  have N: "?N \<le> length ?cs" "2 \<le> length ?cs" using lc(1) d(7) ls(1) by auto
  have "map rc_count (drop ?N ?cs) = map (\<lambda>c. lsize sz u dcols nparity c * 2 ^ (u - 3)) [?N..<lcols sz u dcols nparity]"
    using N ls(1) by (intro nth_equalityI) (simp_all add: cnt)
  then have "sum_list (map rc_count (drop ?N ?cs)) = lS sz u * 2 ^ (u - 3)"
    using lc(5) by (simp add: sum_list_mult_const)
  also have "\<dots> = length dat" using d(4) lS_facts(2) [OF io] unfolding u by simp
  finally have tot: "sum_list (map rc_count (drop ?N ?cs)) = length dat" .
  have len: "length ?ds = length ?cs" using N by (simp add: lay_data_def raidz_assign_data_simps)
  have ds: "rc_size (?ds ! c) = rc_size (?cs ! c) \<and> length (rc_data (?ds ! c)) = rc_count (?cs ! c)"
  proof (cases "c < ?N")
    case True
    then show ?thesis using N by (simp add: lay_data_def nth_append alloc rc_count_def)
  next
    case False
    then have "?ds ! c = raidz_assign_data dat (drop ?N ?cs) ! (c - ?N)" "drop ?N ?cs ! (c - ?N) = ?cs ! c" "c - ?N < length (drop ?N ?cs)"
      using N c ls(1) by (auto simp: lay_data_def nth_append)
    then show ?thesis using raidz_assign_data_simps(2,4) [of "c - ?N" "drop ?N ?cs" dat] tot by simp
  qed
  define swap where "swap \<longleftrightarrow> nparity = 1 \<and> offset AND push_bit 20 1 \<noteq> 0"
  have sw: "rc_size (raidz_swap_parity ?ds ! c) = rc_size (?ds ! c)" "rc_data (raidz_swap_parity ?ds ! c) = rc_data (?ds ! c)"
    using raidz_swap_parity_simps [of ?ds] len N by simp_all
  have col: "rc_size (rm_col rm ! c) = rc_size (?cs ! c) \<and> length (rc_data (rm_col rm ! c)) = rc_count (?cs ! c)"
    unfolding rm_def map_alloc_shape(3) [OF io] Let_def swap_def [symmetric]
    by (cases swap) (simp_all only: if_True if_False sw ds simp_thms)
  show "rm_count rm c = lsize sz u dcols nparity c * 2 ^ (u - 3)"
    using col cnt [OF c] by (simp add: rm_count_def rc_count_def)
  show "length (rm_data rm c) = rm_count rm c" using col by (simp add: rm_count_def rm_data_def rc_count_def)
qed

lemma map_alloc_cols:
  assumes io: "raidz_io sz dat u dcols nparity"
  shows "rm_cols (vdev_raidz_map_alloc alloc offset sz dat u dcols nparity) = lcols sz u dcols nparity"
proof -
  note lc = lcols_facts [OF io]
  have "length (lay_data alloc dat nparity (lay_cols offset sz u dcols nparity)) = lcols sz u dcols nparity"
    using lc(1) lay_cols_simps(1) [OF io] by (simp add: lay_data_def raidz_assign_data_simps)
  moreover have "2 \<le> lcols sz u dcols nparity" using lc(1) raidz_ioD(7) [OF io] by linarith
  moreover define swap where "swap \<longleftrightarrow> nparity = 1 \<and> offset AND push_bit 20 1 \<noteq> 0"
  ultimately show ?thesis unfolding rm_cols_def map_alloc_shape(3) [OF io] Let_def swap_def [symmetric]
    by (cases swap) (simp_all add: raidz_swap_parity_simps(1))
qed

lemma map_alloc_wf:
  assumes io: "raidz_io sz dat u dcols nparity" and alloc: "\<And>s. length (alloc s) = unat s div 8"
  shows "raidz_wf (vdev_raidz_map_alloc alloc offset sz dat u dcols nparity)"
proof -
  note d = raidz_ioD [OF io] and lc = lcols_facts [OF io] and n = lay_col_nth [OF io _ alloc]
  let ?rm = "vdev_raidz_map_alloc alloc offset sz dat u dcols nparity"
  have cols: "rm_cols ?rm = lcols sz u dcols nparity" by (rule map_alloc_cols [OF io])
  have first: "rm_firstdatacol ?rm = unat nparity" by (rule map_alloc_shape(1) [OF io])
  have mono: "lsize sz u dcols nparity c' * k \<le> lsize sz u dcols nparity c * k" if "c \<le> c'" for c c' k
    using that by (intro mult_le_mono1) (auto simp: lsize_def)
  have pos: "0 < lcols sz u dcols nparity" using lc(1) by simp
  have eq: "lsize sz u dcols nparity 0 = lsize sz u dcols nparity c" if "c \<le> unat nparity" for c
    using that lc(4) by (auto simp: lsize_def)
  show ?thesis unfolding raidz_wf_def cols first
  proof (intro conjI allI impI)
    show "0 < unat nparity" using d(7) by simp
    show "unat nparity < lcols sz u dcols nparity" by (rule lc(1))
    show "length (rm_data ?rm c) = rm_count ?rm c" if "c < lcols sz u dcols nparity" for c using n(2) [OF that] .
    show "rm_count ?rm c \<le> rm_count ?rm 0" if "c < lcols sz u dcols nparity" for c
      unfolding n(1) [OF that] n(1) [OF pos] by (rule mono) simp
    show "rm_count ?rm 0 = rm_count ?rm c" if "c \<le> unat nparity" for c
    proof -
      have "c < lcols sz u dcols nparity" using that lc(1) by simp
      then show ?thesis by (simp only: n(1) pos eq [OF that])
    qed
    show "rm_count ?rm c' \<le> rm_count ?rm c" if "c \<le> c' \<and> c' < lcols sz u dcols nparity" for c c'
    proof -
      have "c < lcols sz u dcols nparity" "c' < lcols sz u dcols nparity" "c \<le> c'" using that by auto
      then show ?thesis by (simp only: n(1) mono)
    qed
  qed
qed

lemma unat_sum_list: "sum_list (map unat ws) < 2 ^ 64 \<Longrightarrow> unat (sum_list ws) = sum_list (map unat ws)" for ws :: "u64 list"
proof (induction ws)
  case (Cons w ws)
  then have "unat (sum_list ws) = sum_list (map unat ws)" by simp
  then show ?case using Cons.prems by (simp add: unat_word_ariths(1))
qed simp

lemma div_fill: "0 < U \<Longrightarrow> (a * U + (U - 1)) div U = a" for a U :: nat
  by (rule div_nat_eqI) (simp_all add: mult.commute)

lemma ceil_div: "0 < m \<Longrightarrow> (S + m - 1) div m = S div m + (if S mod m = 0 then 0 else 1)" for S m :: nat
proof -
  assume m: "0 < m"
  have "S + m - 1 = S div m * m + (S mod m + m - 1)" using m by simp
  then have "(S + m - 1) div m = S div m + (S mod m + m - 1) div m" using m by (metis div_mult_self3 less_numeral_extra(3))
  moreover have "(S mod m + m - 1) div m = (if S mod m = 0 then 0 else 1)"
  proof (cases "S mod m")
    case 0
    then show ?thesis using m by simp
  next
    case (Suc k)
    then have "k < m" using m by (metis Suc_lessD mod_less_divisor)
    then have "(k + m) div m = 1" using m by (simp add: div_add_self2)
    then show ?thesis using Suc by simp
  qed
  ultimately show ?thesis by simp
qed

definition lrow :: "u64 \<Rightarrow> nat \<Rightarrow> u64 \<Rightarrow> u64 \<Rightarrow> nat" where
  "lrow sz u dcols nparity = lS sz u + unat nparity * ((lS sz u + lm dcols nparity - 1) div lm dcols nparity)"

lemma lsize_total:
  assumes io: "raidz_io sz dat u dcols nparity"
  shows "sum_list (map (lsize sz u dcols nparity) [0..<lcols sz u dcols nparity]) = lrow sz u dcols nparity"
    "lrow sz u dcols nparity < 2 ^ 42"
proof -
  note d = raidz_ioD [OF io] and l = lS_facts [OF io] and lc = lcols_facts [OF io]
  let ?q = "lq sz u dcols nparity" and ?r = "lr sz u dcols nparity" and ?N = "unat nparity" and ?m = "lm dcols nparity"
  have ceil: "(lS sz u + ?m - 1) div ?m = ?q + (if ?r = 0 then 0 else 1)"
    using ceil_div [OF l(4), of "lS sz u"] by (simp add: lq_def lr_def)
  have sum: "sum_list (map (lsize sz u dcols nparity) [0..<k]) = k * ?q + min k (lbc sz u dcols nparity)" for k
    by (induction k) (auto simp: lsize_def min_def)
  have S: "?q = 0 \<Longrightarrow> ?r = lS sz u \<and> 0 < ?r" using l(1,5) by auto
  have dm: "unat dcols = ?m + ?N" using d(9) by (simp add: lm_def)
  show e: "sum_list (map (lsize sz u dcols nparity) [0..<lcols sz u dcols nparity]) = lrow sz u dcols nparity"
    unfolding lrow_def ceil using sum [of "lcols sz u dcols nparity"] lc(3) S l(5) dm
    by (cases "?q = 0") (auto simp: lcols_def lbc_def min_def algebra_simps)
  have "lcols sz u dcols nparity * ?q + min (lcols sz u dcols nparity) (lbc sz u dcols nparity) \<le> 256 * 2 ^ 32 + 256"
    using lc(2) d(10) l(7) by (intro add_mono mult_le_mono) auto
  then show "lrow sz u dcols nparity < 2 ^ 42" using e sum [of "lcols sz u dcols nparity"] by simp
qed

lemma unat_roundup:
  assumes "unat x = X" "unat y = Y" "0 < Y" "X + Y < 2 ^ 63"
  shows "unat (roundup x y) = (X + (Y - 1)) div Y * Y"
proof -
  have y1: "unat (y - 1) = Y - 1" using assms by (subst unat_sub) (auto simp: word_le_nat_alt)
  have a: "unat (x + (y - 1)) = X + (Y - 1)" using assms y1 by (subst unat_add_lem [THEN iffD1]) auto
  have "(X + (Y - 1)) div Y * Y \<le> X + (Y - 1)" by (rule div_times_less_eq_dividend)
  also have "X + (Y - 1) < 2 ^ 63" using assms(3,4) by linarith
  finally have "(X + (Y - 1)) div Y * Y < 2 ^ 64" by simp
  then show ?thesis unfolding roundup_def by (simp add: unat_word_ariths(2) unat_div a assms(2))
qed

lemma roundup_scale: "0 < U \<Longrightarrow> (T * U + ((N + 1) * U - 1)) div ((N + 1) * U) = (T + N) div (N + 1)" for T U N :: nat
proof -
  assume U: "0 < U"
  have "T * U + ((N + 1) * U - 1) = (T + N) * U + (U - 1)" using U by (simp add: algebra_simps)
  moreover have "((T + N) * U + (U - 1)) div U = T + N" by (rule div_fill [OF U])
  ultimately have "(T * U + ((N + 1) * U - 1)) div U = T + N" by (simp only:)
  then show ?thesis by (metis div_mult2_eq mult.commute)
qed

lemma map_alloc_asize:
  assumes io: "raidz_io sz dat u dcols nparity"
  shows "rm_asize (vdev_raidz_map_alloc alloc offset sz dat u dcols nparity) = vdev_raidz_asize u dcols nparity sz"
proof (rule unsigned_word_eqI [where 'a = nat])
  note d = raidz_ioD [OF io] and l = lS_facts [OF io] and lc = lcols_facts [OF io] and ls = lay_cols_simps [OF io]
  let ?T = "lrow sz u dcols nparity" and ?N = "unat nparity" and ?U = "(2 :: nat) ^ u"
  have T: "?T * ?U \<le> 2 ^ 42 * 2 ^ 16" using lsize_total(2) [OF io] l(9) by (intro mult_le_mono) auto
  have U: "0 < ?U" "?U \<le> 2 ^ 16" using l(9) by auto
  have u2: "unat (2 ^ u :: u64) = ?U" using d(6) by (intro unat_2_pow) simp
  have n1: "unat (nparity + 1) = ?N + 1" using d(8) by (subst unat_add_lem [THEN iffD1]) auto
  have "map unat (map rc_size (lay_cols offset sz u dcols nparity)) = map (\<lambda>c. lsize sz u dcols nparity c * ?U) [0..<lcols sz u dcols nparity]"
    using ls by (intro nth_equalityI) simp_all
  then have sum: "sum_list (map unat (map rc_size (lay_cols offset sz u dcols nparity))) = ?T * ?U"
    using lsize_total(1) [OF io] by (simp add: sum_list_mult_const)
  have x: "unat (sum_list (map rc_size (lay_cols offset sz u dcols nparity))) = ?T * ?U"
    using T by (subst unat_sum_list) (simp_all add: sum del: map_map)
  have nU: "(?N + 1) * ?U \<le> 3 * 2 ^ 16" using d(8) U(2) by (intro mult_le_mono) auto
  then have y: "unat (push_bit u (nparity + 1)) = (?N + 1) * ?U"
    by (simp add: push_bit_eq_mult unat_word_ariths(2) n1 u2)
  have "unat (rm_asize (vdev_raidz_map_alloc alloc offset sz dat u dcols nparity)) = (?T * ?U + ((?N + 1) * ?U - 1)) div ((?N + 1) * ?U) * ((?N + 1) * ?U)"
    unfolding map_alloc_shape(2) [OF io] using T nU U by (intro unat_roundup [OF x y]) auto
  also have "\<dots> = (?T + ?N) div (?N + 1) * (?N + 1) * ?U" unfolding roundup_scale [OF U(1)] by (simp only: mult.assoc)
  finally have lhs: "unat (rm_asize (vdev_raidz_map_alloc alloc offset sz dat u dcols nparity)) = (?T + ?N) div (?N + 1) * (?N + 1) * ?U" .
  have p1: "unat (sz - 1) = lS sz u * ?U - 1" using d(1) l(2) by (subst unat_sub) (auto simp: word_le_nat_alt)
  have "(lS sz u * ?U - 1) div ?U = lS sz u - 1"
  proof -
    have "lS sz u * ?U - 1 = (lS sz u - 1) * ?U + (?U - 1)" using l(1) U by (cases "lS sz u") auto
    then show ?thesis by (simp only: div_fill [OF U(1)])
  qed
  then have s1: "unat (drop_bit u (sz - 1)) = lS sz u - 1" unfolding unat_drop_bit_eq p1 by (simp only: drop_bit_eq_div)
  then have s: "unat (drop_bit u (sz - 1) + 1) = lS sz u" using l(1,3) by (subst unat_add_lem [THEN iffD1]) auto
  have m: "unat (dcols - nparity) = lm dcols nparity" using d(9) by (simp add: lm_def unat_sub word_le_nat_alt)
  have a: "unat (drop_bit u (sz - 1) + 1 + dcols - nparity - 1) = lS sz u + lm dcols nparity - 1"
  proof -
    have 1: "unat (drop_bit u (sz - 1) + 1 + dcols) = lS sz u + unat dcols" using s l(3) d(10) by (subst unat_add_lem [THEN iffD1]) auto
    have 2: "unat (drop_bit u (sz - 1) + 1 + dcols - nparity) = lS sz u + lm dcols nparity"
      using 1 d(9) by (subst unat_sub) (auto simp: word_le_nat_alt lm_def)
    show ?thesis using 2 l(1) by (subst unat_sub) (auto simp: word_le_nat_alt)
  qed
  have "?N * ((lS sz u + lm dcols nparity - 1) div lm dcols nparity) \<le> ?T" by (simp add: lrow_def)
  then have mulw: "unat (nparity * ((drop_bit u (sz - 1) + 1 + dcols - nparity - 1) div (dcols - nparity))) =
      ?N * ((lS sz u + lm dcols nparity - 1) div lm dcols nparity)"
    using lsize_total(2) [OF io] by (simp only: unat_word_ariths(2) unat_div a m) simp
  have row: "unat (drop_bit u (sz - 1) + 1 + nparity * ((drop_bit u (sz - 1) + 1 + dcols - nparity - 1) div (dcols - nparity))) = ?T"
    using lsize_total(2) [OF io] s mulw by (subst unat_add_lem [THEN iffD1]) (auto simp: lrow_def)
  have ru: "unat (roundup (drop_bit u (sz - 1) + 1 + nparity * ((drop_bit u (sz - 1) + 1 + dcols - nparity - 1) div (dcols - nparity))) (nparity + 1))
      = (?T + ?N) div (?N + 1) * (?N + 1)"
    using unat_roundup [OF row n1] lsize_total(2) [OF io] d(8) by simp
  have "(?T + ?N) div (?N + 1) * (?N + 1) \<le> ?T + ?N" by (rule div_times_less_eq_dividend)
  then have "(?T + ?N) div (?N + 1) * (?N + 1) * ?U \<le> (2 ^ 42 + 2) * 2 ^ 16"
    using lsize_total(2) [OF io] d(8) U(2) by (intro mult_le_mono) auto
  then have rhs: "unat (vdev_raidz_asize u dcols nparity sz) = (?T + ?N) div (?N + 1) * (?N + 1) * ?U"
    unfolding vdev_raidz_asize_def Let_def push_bit_eq_mult by (simp only: unat_word_ariths(2) ru u2) simp
  show "unat (rm_asize (vdev_raidz_map_alloc alloc offset sz dat u dcols nparity)) = unat (vdev_raidz_asize u dcols nparity sz)"
    using lhs rhs by simp
qed

lemma lay_data_devidx: "map rc_devidx (lay_data alloc dat nparity cs) = map rc_devidx cs"
proof -
  have "map rc_devidx (raidz_assign_data dat ds) = map rc_devidx ds" for ds
    by (rule nth_equalityI) (simp_all add: raidz_assign_data_simps)
  then have "map rc_devidx (lay_data alloc dat nparity cs) = map rc_devidx (take (unat nparity) cs @ drop (unat nparity) cs)"
    by (simp only: lay_data_def map_append map_map) (simp add: comp_def)
  then show ?thesis by simp
qed

lemma lay_cols_devidx:
  assumes io: "raidz_io sz dat u dcols nparity"
  shows "distinct (map rc_devidx (lay_cols offset sz u dcols nparity)) \<and>
    (\<forall>c \<in> set (lay_cols offset sz u dcols nparity). unat (rc_devidx c) < unat dcols)"
proof -
  note ls = lay_cols_simps [OF io] and lc = lcols_facts [OF io]
  let ?cs = "lay_cols offset sz u dcols nparity" and ?f = "unat (drop_bit u offset mod dcols)" and ?D = "unat dcols"
  have D: "0 < ?D" using raidz_ioD(9) [OF io] by simp
  have inj: "(f + i) mod D = (f + j) mod D \<Longrightarrow> i < D \<Longrightarrow> j < D \<Longrightarrow> i = j" for f i j D :: nat
  proof (induction i j rule: linorder_wlog)
    case (le i j)
    then have "D dvd (f + j) - (f + i)" by (subst mod_eq_dvd_iff_nat [symmetric]) simp_all
    then show ?case using le by (auto dest: dvd_imp_le)
  qed auto
  have "distinct (map rc_devidx ?cs)"
  proof (subst distinct_conv_nth, intro allI impI)
    fix i j assume ij: "i < length (map rc_devidx ?cs)" "j < length (map rc_devidx ?cs)" "i \<noteq> j"
    then have l: "i < lcols sz u dcols nparity" "j < lcols sz u dcols nparity" using ls(1) by auto
    show "map rc_devidx ?cs ! i \<noteq> map rc_devidx ?cs ! j"
    proof
      assume "map rc_devidx ?cs ! i = map rc_devidx ?cs ! j"
      then have "unat (rc_devidx (?cs ! i)) = unat (rc_devidx (?cs ! j))" using ij by simp
      then have "(?f + i) mod ?D = (?f + j) mod ?D" unfolding ls(3) [OF l(1)] ls(3) [OF l(2)] .
      then show False using inj [of ?f i ?D j] l lc(2) ij(3) by simp
    qed
  qed
  moreover have "unat (rc_devidx c) < ?D" if "c \<in> set ?cs" for c
    using that ls D by (auto simp: in_set_conv_nth)
  ultimately show ?thesis by blast
qed

lemma map_alloc_data:
  assumes io: "raidz_io sz dat u dcols nparity"
    and rm: "rm = vdev_raidz_map_alloc alloc offset sz dat u dcols nparity"
  shows "concat (map rc_data (drop (rm_firstdatacol rm) (rm_col rm))) = dat"
proof -
  note d = raidz_ioD [OF io] and lc = lcols_facts [OF io] and ls = lay_cols_simps [OF io]
  let ?cs = "lay_cols offset sz u dcols nparity" and ?N = "unat nparity"
  let ?ds = "lay_data alloc dat nparity ?cs"
  define swap where "swap \<longleftrightarrow> nparity = 1 \<and> offset AND push_bit 20 1 \<noteq> 0"
  have rc: "rm_col rm = (if swap then raidz_swap_parity ?ds else ?ds)"
    unfolding rm map_alloc_shape(3) [OF io] Let_def swap_def ..
  have N: "?N \<le> length ?cs" "2 \<le> length ?cs" using lc(1) d(7) ls(1) by auto
  have len: "length ?ds = length ?cs" using N by (simp add: lay_data_def raidz_assign_data_simps)
  have "map rc_data (raidz_swap_parity ?ds) = map rc_data ?ds"
    using raidz_swap_parity_simps(1,3) [of ?ds] len N by (intro nth_equalityI) simp_all
  then have "map rc_data (rm_col rm) = map rc_data ?ds" by (simp add: rc)
  then have "map rc_data (drop ?N (rm_col rm)) = map rc_data (drop ?N ?ds)" by (metis drop_map)
  also have "drop ?N ?ds = raidz_assign_data dat (drop ?N ?cs)" using N by (simp add: lay_data_def)
  finally have cc: "concat (map rc_data (drop ?N (rm_col rm))) = take (sum_list (map rc_count (drop ?N ?cs))) dat"
    by (simp add: raidz_assign_data_simps)
  have u: "(2 :: nat) ^ u = 8 * 2 ^ (u - 3)" using d(5) power_add [of "2 :: nat" 3 "u - 3"] by simp
  have "map rc_count (drop ?N ?cs) = map (\<lambda>c. lsize sz u dcols nparity c * 2 ^ (u - 3)) [?N..<lcols sz u dcols nparity]"
    using N ls by (intro nth_equalityI) (simp_all add: rc_count_def u)
  then have "sum_list (map rc_count (drop ?N ?cs)) = lS sz u * 2 ^ (u - 3)" using lc(5) by (simp add: sum_list_mult_const)
  also have "\<dots> = length dat" using d(4) lS_facts(2) [OF io] unfolding u by simp
  finally have "concat (map rc_data (drop ?N (rm_col rm))) = dat" using cc by simp
  moreover have "rm_firstdatacol rm = ?N" unfolding rm by (rule map_alloc_shape(1) [OF io])
  ultimately show ?thesis by simp
qed

text \<open>C18: The layout of an I/O over the children of a RAID-Z device: the data columns hold the
  buffer, in order and without gaps; every column goes to another child; every column is as
  long as its size, the columns up to the first data column are the longest, and the sizes
  do not increase; and the allocated size is the one \<^verbatim>\<open>vdev_raidz_asize\<close> promised.\<close>

theorem raidz_layout_correct:
  assumes io: "raidz_io sz dat u dcols nparity" and alloc: "\<And>s. length (alloc s) = unat s div 8"
    and rm: "rm = vdev_raidz_map_alloc alloc offset sz dat u dcols nparity"
  shows "concat (map rc_data (drop (rm_firstdatacol rm) (rm_col rm))) = dat \<and>
    distinct (map rc_devidx (rm_col rm)) \<and> (\<forall>c \<in> set (rm_col rm). unat (rc_devidx c) < unat dcols) \<and>
    raidz_wf rm \<and> rm_asize rm = vdev_raidz_asize u dcols nparity sz"
proof -
  note d = raidz_ioD [OF io] and lc = lcols_facts [OF io] and ls = lay_cols_simps [OF io]
  let ?cs = "lay_cols offset sz u dcols nparity" and ?N = "unat nparity"
  let ?ds = "lay_data alloc dat nparity ?cs"
  define swap where "swap \<longleftrightarrow> nparity = 1 \<and> offset AND push_bit 20 1 \<noteq> 0"
  have rc: "rm_col rm = (if swap then raidz_swap_parity ?ds else ?ds)"
    unfolding rm map_alloc_shape(3) [OF io] Let_def swap_def ..
  have N: "?N \<le> length ?cs" "2 \<le> length ?cs" using lc(1) d(7) ls(1) by auto
  have len: "length ?ds = length ?cs" using N by (simp add: lay_data_def raidz_assign_data_simps)
  have wf: "raidz_wf rm" unfolding rm by (rule map_alloc_wf [OF io alloc])
  have dv: "distinct (map rc_devidx ?ds)" "set (map rc_devidx ?ds) = rc_devidx ` set ?cs"
    using lay_cols_devidx [OF io, of offset] by (simp_all add: lay_data_devidx del: set_map) simp
  have l2: "0 < length (map rc_devidx ?ds)" "1 < length (map rc_devidx ?ds)" using len N by auto
  have sw: "map rc_devidx (raidz_swap_parity ?ds) = (map rc_devidx ?ds)[0 := map rc_devidx ?ds ! 1, 1 := map rc_devidx ?ds ! 0]"
  proof -
    have "map rc_devidx ?ds ! 0 = rc_devidx (?ds ! 0)" "map rc_devidx ?ds ! 1 = rc_devidx (?ds ! 1)"
      using l2 by (simp_all only: nth_map length_map)
    then show ?thesis using raidz_swap_parity_simps(4) [of ?ds] len N by (simp only:)
  qed
  have dd: "distinct (map rc_devidx (rm_col rm)) \<and> set (map rc_devidx (rm_col rm)) = rc_devidx ` set ?cs"
    using dv distinct_swap [OF l2] set_swap [OF l2] unfolding rc by (cases swap) (simp_all only: if_True if_False sw)
  then have "\<forall>c \<in> set (rm_col rm). unat (rc_devidx c) < unat dcols"
    using lay_cols_devidx [OF io, of offset] by (metis (no_types, lifting) image_iff list.set_map)
  then show ?thesis using map_alloc_data [OF io rm] dd wf map_alloc_asize [OF io] by (simp add: rm)
qed

definition example_alloc :: "u64 \<Rightarrow> u64 list" where "example_alloc s = replicate (unat s div 8) 0"

definition example_raidz :: raidz_map where
  "example_raidz = vdev_raidz_map_alloc example_alloc 4096 40 [11, 22, 33, 44, 55] 3 5 2"

lemma example_raidz_io: "raidz_io 40 [11, 22, 33, 44, 55] 3 5 2"
  by (simp add: raidz_io_def)

lemma length_example_alloc: "length (example_alloc s) = unat s div 8"
  by (simp add: example_alloc_def)

theorem raidz_layout_correct_witness:
  "concat (map rc_data (drop (rm_firstdatacol example_raidz) (rm_col example_raidz))) = [11, 22, 33, 44, 55]"
  using raidz_layout_correct [OF example_raidz_io length_example_alloc example_raidz_def] by blast

lemma generate_parity_p_ok:
  assumes wf: "raidz_wf rm" and g: "g = vdev_raidz_generate_parity_p rm"
  shows "raidz_wf g" "parity_P_ok g" "rm_firstdatacol g = rm_firstdatacol rm" "rm_cols g = rm_cols rm"
    "rm_count g c = rm_count rm c"
proof -
  note e = generate_parity_p_eq [OF wf, unfolded VDEV_RAIDZ_P_def, folded g] and w = raidz_wfD [OF wf]
  have dw: "data_words g i = data_words rm i" for i unfolding e by (rule data_words_set_parity [OF w(1)])
  show "raidz_wf g" unfolding e using wf by (rule raidz_wf_set_data) simp
  show "parity_P_ok g" unfolding parity_P_ok_def dw using w(1,2) by (simp add: e)
qed (simp_all add: g vdev_raidz_generate_parity_p_def)

text \<open>C37: With single parity any one data column can be lost: whatever its buffer holds, the
  reconstruction from the parity gives back the columns that were written.\<close>

theorem raidz_single_parity:
  assumes wf: "raidz_wf rm" and x: "rm_firstdatacol rm \<le> x" "x < rm_cols rm" and bad: "length bad = rm_count rm x"
  shows "vdev_raidz_reconstruct_p (rm_set_data x bad (vdev_raidz_generate_parity_p rm)) x = vdev_raidz_generate_parity_p rm"
  using generate_parity_p_ok [OF wf refl] x bad by (intro reconstruct_p_correct) simp_all

lemma example_raidz_wf: "raidz_wf example_raidz"
  unfolding example_raidz_def by (rule map_alloc_wf [OF example_raidz_io length_example_alloc])

lemma example_raidz_shape: "rm_firstdatacol example_raidz = 2" "rm_cols example_raidz = 5"
  "rm_count example_raidz 3 = 2" "rm_count example_raidz 4 = 1"
proof -
  have c: "lcols 40 3 5 2 = 5" "lsize 40 3 5 2 3 = 2" "lsize 40 3 5 2 4 = 1"
    by (simp_all add: lcols_def lq_def lS_def lm_def lsize_def lbc_def lr_def)
  show "rm_firstdatacol example_raidz = 2" unfolding example_raidz_def map_alloc_shape(1) [OF example_raidz_io] by simp
  show "rm_cols example_raidz = 5" unfolding example_raidz_def map_alloc_cols [OF example_raidz_io] by (rule c)
  show "rm_count example_raidz 3 = 2" "rm_count example_raidz 4 = 1"
    unfolding example_raidz_def using lay_col_nth(1) [OF example_raidz_io _ length_example_alloc] c by simp_all
qed

theorem raidz_single_parity_witness:
  "vdev_raidz_reconstruct_p (rm_set_data 3 [0, 0] (vdev_raidz_generate_parity_p example_raidz)) 3
   = vdev_raidz_generate_parity_p example_raidz"
  by (rule raidz_single_parity [OF example_raidz_wf]) (simp_all add: example_raidz_shape)

lemma generate_parity_pq_ok:
  assumes wf: "raidz_wf rm" and two: "rm_firstdatacol rm = 2" and g: "g = vdev_raidz_generate_parity_pq rm"
  shows "raidz_wf g" "parity_P_ok g" "parity_Q_ok g" "rm_firstdatacol g = 2" "rm_cols g = rm_cols rm" "rm_count g c = rm_count rm c"
proof -
  note w = raidz_wfD [OF wf]
  have c1: "rm_count rm 1 = rm_count rm 0" "1 < rm_cols rm" "0 < rm_cols rm" using w(5) [of 1] w(2) two by auto
  have e: "g = rm_set_data 1 (map (\<lambda>i. parity_Q (data_words rm i)) [0..<rm_count rm 0])
      (rm_set_data 0 (map (\<lambda>i. parity_P (data_words rm i)) [0..<rm_count rm 0]) rm)"
    unfolding g VDEV_RAIDZ_P_def [symmetric] VDEV_RAIDZ_Q_def [symmetric]
    by (rule generate_parity_pq_eq [OF w(2) refl, unfolded VDEV_RAIDZ_P_def VDEV_RAIDZ_Q_def, folded VDEV_RAIDZ_P_def VDEV_RAIDZ_Q_def])
      (use w c1 in \<open>simp_all add: VDEV_RAIDZ_P_def VDEV_RAIDZ_Q_def\<close>)
  show "raidz_wf g" unfolding e using wf c1 by (intro raidz_wf_set_data) simp_all
  show "rm_firstdatacol g = 2" "rm_cols g = rm_cols rm" "rm_count g c = rm_count rm c" by (simp_all add: e two)
  have dw: "data_words g i = data_words rm i" for i
  proof -
    have "data_words g i = data_words (rm_set_data 0 (map (\<lambda>i. parity_P (data_words rm i)) [0..<rm_count rm 0]) rm) i"
      unfolding e by (rule data_words_set_parity) (simp add: two)
    also have "\<dots> = data_words rm i" by (rule data_words_set_parity) (simp add: two)
    finally show ?thesis .
  qed
  show "parity_P_ok g" "parity_Q_ok g"
    unfolding parity_P_ok_def parity_Q_ok_def dw using c1 by (simp_all add: e)
qed

text \<open>C15: With double parity any one data column can be recovered from either parity, and any
  two data columns from both, whatever their buffers hold.\<close>

theorem raidz_double_parity:
  assumes wf: "raidz_wf rm" and two: "rm_firstdatacol rm = 2" and cols: "rm_cols rm \<le> 256"
    and x: "2 \<le> x" "x < y" "y < rm_cols rm"
    and bad: "length xb = rm_count rm x" "length yb = rm_count rm y"
    and alloc: "\<And>s. length (alloc s) = unat s div 8"
    and g: "g = vdev_raidz_generate_parity_pq rm"
  shows "vdev_raidz_reconstruct_p (rm_set_data x xb g) x = g \<and> vdev_raidz_reconstruct_p (rm_set_data y yb g) y = g \<and>
    vdev_raidz_reconstruct_q (rm_set_data x xb g) x = g \<and> vdev_raidz_reconstruct_q (rm_set_data y yb g) y = g \<and>
    vdev_raidz_reconstruct_pq alloc (rm_set_data y yb (rm_set_data x xb g)) x y = g"
proof -
  note ok = generate_parity_pq_ok [OF wf two g]
  have al: "length (alloc (rc_size (rm_col g ! c))) = rm_count g c" for c
    by (simp add: alloc rm_count_def rc_count_def)
  show ?thesis
    using reconstruct_p_correct [OF ok(1,2)] reconstruct_q_correct [OF ok(1,3,4)]
      reconstruct_pq_correct [OF ok(1-4) x(1,2) _ _ _ _ al] x bad cols by (simp add: ok)
qed

theorem raidz_double_parity_witness:
  "vdev_raidz_reconstruct_pq example_alloc (rm_set_data 4 [7] (rm_set_data 3 [0, 0] (vdev_raidz_generate_parity_pq example_raidz))) 3 4
   = vdev_raidz_generate_parity_pq example_raidz"
  using raidz_double_parity [OF example_raidz_wf, of 3 4 "[0, 0]" "[7]" example_alloc, OF _ _ _ _ _ _ _ length_example_alloc refl]
  by (simp add: example_raidz_shape)

end
