(* ===== verification/Raidz_Io.thy ===== *)
theory Raidz_Io
  imports Raidz
begin

section \<open>RAID-Z I/O\<close>

text \<open>
  The I/O entry points of \<^verbatim>\<open>fs/zfs/vdev_raidz.c\<close>: opening the device, starting an I/O, and
  its completion with the three phases of a read.  A child I/O is the index of its column;
  \<open>dead\<close> and \<open>stale\<close> tell of a child what \<^verbatim>\<open>vdev_is_dead\<close> and \<^verbatim>\<open>vdev_dtl_contains\<close> return
  for the block.  \<open>verify\<close> is the result of \<^verbatim>\<open>zio_checksum_error\<close> on the data of the I/O.
\<close>

record raidz_zio =
  rz_type :: zio_type
  rz_scrub :: bool
  rz_speculative :: bool
  rz_failfast :: bool
  rz_resilver :: bool

text \<open>The counters and reports that an I/O leaves behind.\<close>

record raidz_env =
  raidz_corrected_p :: u64
  raidz_corrected_q :: u64
  raidz_corrected_pq :: u64
  vs_checksum_errors :: "u64 \<Rightarrow> nat"
  checksum_ereports :: "u64 list"

record raidz_child =
  rv_open :: int
  rv_asize :: u64
  rv_ashift :: u64

definition VDEV_AUX_NO_REPLICAS :: nat where "VDEV_AUX_NO_REPLICAS = 3"
definition VDEV_AUX_BAD_LABEL :: nat where "VDEV_AUX_BAD_LABEL = 6"
definition VDEV_AUX_NONE :: nat where "VDEV_AUX_NONE = 0"
definition VDEV_STATE_CANT_OPEN :: nat where "VDEV_STATE_CANT_OPEN = 4"
definition VDEV_STATE_DEGRADED :: nat where "VDEV_STATE_DEGRADED = 6"
definition VDEV_STATE_HEALTHY :: nat where "VDEV_STATE_HEALTHY = 7"

fun raidz_open_loop :: "raidz_child list \<Rightarrow> u64 \<Rightarrow> u64 \<Rightarrow> int \<Rightarrow> nat \<Rightarrow> u64 \<times> u64 \<times> int \<times> nat" where
  "raidz_open_loop [] asize ashift lasterror numerrors = (asize, ashift, lasterror, numerrors)"
| "raidz_open_loop (cvd # cs) asize ashift lasterror numerrors =
     (if rv_open cvd \<noteq> 0 then raidz_open_loop cs asize ashift (rv_open cvd) (numerrors + 1)
      else raidz_open_loop cs (min (asize - 1) (rv_asize cvd - 1) + 1) (max ashift (rv_ashift cvd)) lasterror numerrors)"

text \<open>The result is the error, the reason for \<^verbatim>\<open>vs_aux\<close> if one is set, and the two sizes.\<close>

definition vdev_raidz_open ::
    "nat \<Rightarrow> raidz_child list \<Rightarrow> u64 \<Rightarrow> u64 \<Rightarrow> int \<times> nat option \<times> u64 \<times> u64" where
  "vdev_raidz_open nparity cs asize ashift =
     (if nparity > VDEV_RAIDZ_MAXPARITY \<or> length cs < nparity + 1 then (EINVAL, Some VDEV_AUX_BAD_LABEL, asize, ashift)
      else let (asize, ashift, lasterror, numerrors) = raidz_open_loop cs asize ashift 0 0;
               asize = asize * of_nat (length cs)
           in if numerrors > nparity then (lasterror, Some VDEV_AUX_NO_REPLICAS, asize, ashift)
              else (0, None, asize, ashift))"

definition vdev_raidz_state_change :: "nat \<Rightarrow> nat \<Rightarrow> nat \<Rightarrow> nat \<times> nat" where
  "vdev_raidz_state_change nparity faulted degraded =
     (if faulted > nparity then (VDEV_STATE_CANT_OPEN, VDEV_AUX_NO_REPLICAS)
      else if degraded + faulted \<noteq> 0 then (VDEV_STATE_DEGRADED, VDEV_AUX_NONE)
      else (VDEV_STATE_HEALTHY, VDEV_AUX_NONE))"

definition rm_upd :: "nat \<Rightarrow> (raidz_col \<Rightarrow> raidz_col) \<Rightarrow> raidz_map \<Rightarrow> raidz_map" where
  "rm_upd c f rm = rm\<lparr>rm_col := (rm_col rm)[c := f (rm_col rm ! c)]\<rparr>"

definition vdev_raidz_child_done :: "int \<Rightarrow> raidz_col \<Rightarrow> raidz_col" where
  "vdev_raidz_child_done error rc = rc\<lparr>rc_error := error, rc_tried := True, rc_skipped := False\<rparr>"

definition raidz_count_missing :: "nat \<Rightarrow> raidz_map \<Rightarrow> raidz_map" where
  "raidz_count_missing c rm =
     (if rm_firstdatacol rm \<le> c then rm\<lparr>rm_missingdata := rm_missingdata rm + 1\<rparr>
      else rm\<lparr>rm_missingparity := rm_missingparity rm + 1\<rparr>)"

fun raidz_read_loop ::
    "(u64 \<Rightarrow> bool) \<Rightarrow> (u64 \<Rightarrow> bool) \<Rightarrow> bool \<Rightarrow> nat list \<Rightarrow> raidz_map \<Rightarrow> nat list \<Rightarrow> raidz_map \<times> nat list" where
  "raidz_read_loop dead stale scrub [] rm issued = (rm, issued)"
| "raidz_read_loop dead stale scrub (c # cs) rm issued =
     (let dev = rc_devidx (rm_col rm ! c)
      in if dead dev
         then raidz_read_loop dead stale scrub cs
                (rm_upd c (\<lambda>rc. rc\<lparr>rc_error := ENXIO, rc_tried := True, rc_skipped := True\<rparr>) (raidz_count_missing c rm)) issued
         else if stale dev
         then raidz_read_loop dead stale scrub cs
                (rm_upd c (\<lambda>rc. rc\<lparr>rc_error := ESTALE, rc_skipped := True\<rparr>) (raidz_count_missing c rm)) issued
         else if rm_firstdatacol rm \<le> c \<or> rm_missingdata rm > 0 \<or> scrub
         then raidz_read_loop dead stale scrub cs rm (issued @ [c])
         else raidz_read_loop dead stale scrub cs rm issued)"

definition raidz_generate_parity :: "raidz_map \<Rightarrow> raidz_map" where
  "raidz_generate_parity rm =
     (if rm_firstdatacol rm = 1 then vdev_raidz_generate_parity_p rm else vdev_raidz_generate_parity_pq rm)"

text \<open>\<^verbatim>\<open>vdev_raidz_io_start\<close> on the map of the I/O: the map and the child I/Os issued.\<close>

definition vdev_raidz_io_start ::
    "(u64 \<Rightarrow> bool) \<Rightarrow> (u64 \<Rightarrow> bool) \<Rightarrow> raidz_zio \<Rightarrow> raidz_map \<Rightarrow> raidz_map \<times> nat list" where
  "vdev_raidz_io_start dead stale io rm =
     (if rz_type io = ZIO_TYPE_WRITE then (raidz_generate_parity rm, [0..<rm_cols rm])
      else raidz_read_loop dead stale (rz_scrub io) (rev [0..<rm_cols rm]) rm [])"

definition raidz_checksum_error :: "bool \<Rightarrow> raidz_col \<Rightarrow> raidz_env \<Rightarrow> raidz_env" where
  "raidz_checksum_error speculative rc env =
     (if speculative then env
      else env\<lparr>vs_checksum_errors := (vs_checksum_errors env)(rc_devidx rc := vs_checksum_errors env (rc_devidx rc) + 1),
               checksum_ereports := checksum_ereports env @ [rc_devidx rc]\<rparr>)"

definition raidz_parity_verify :: "bool \<Rightarrow> raidz_map \<Rightarrow> raidz_env \<Rightarrow> raidz_map \<times> raidz_env \<times> nat" where
  "raidz_parity_verify speculative rm env =
     foldl (\<lambda>(rm', env, ret) c.
         let rc = rm_col rm' ! c
         in if \<not> rc_tried rc \<or> rc_error rc \<noteq> 0 then (rm', env, ret)
            else if take (rm_count rm c) (rm_data rm c) \<noteq> take (rm_count rm c) (rc_data rc)
            then (rm_upd c (\<lambda>rc. rc\<lparr>rc_error := ECKSUM\<rparr>) rm', raidz_checksum_error speculative rc env, ret + 1)
            else (rm', env, ret))
       (raidz_generate_parity rm, env, 0) [0..<rm_firstdatacol rm]"

subsection \<open>Completion\<close>

definition raidz_io_data :: "raidz_map \<Rightarrow> u64 list" where
  "raidz_io_data rm = concat (map rc_data (drop (rm_firstdatacol rm) (rm_col rm)))"

record raidz_errors =
  re_error :: int
  re_numerrors :: nat
  re_parity :: nat
  re_data :: nat
  re_untried :: nat
  re_unexpected :: nat

fun raidz_count_errors :: "nat \<Rightarrow> nat \<Rightarrow> raidz_col list \<Rightarrow> raidz_errors \<Rightarrow> raidz_errors" where
  "raidz_count_errors first c [] e = e"
| "raidz_count_errors first c (rc # rcs) e =
     (if rc_error rc \<noteq> 0
      then let e = (if re_error e \<noteq> EIO then e\<lparr>re_error := rc_error rc\<rparr> else e);
               e = (if c < first then e\<lparr>re_parity := re_parity e + 1\<rparr> else e\<lparr>re_data := re_data e + 1\<rparr>);
               e = (if \<not> rc_skipped rc then e\<lparr>re_unexpected := re_unexpected e + 1\<rparr> else e)
           in raidz_count_errors first (c + 1) rcs (e\<lparr>re_numerrors := re_numerrors e + 1\<rparr>)
      else if c < first \<and> \<not> rc_tried rc
      then raidz_count_errors first (c + 1) rcs (e\<lparr>re_untried := re_untried e + 1\<rparr>)
      else raidz_count_errors first (c + 1) rcs e)"

definition raidz_errors_of :: "raidz_map \<Rightarrow> raidz_errors" where
  "raidz_errors_of rm = raidz_count_errors (rm_firstdatacol rm) 0 (rm_col rm)
     \<lparr>re_error = 0, re_numerrors = 0, re_parity = 0, re_data = 0, re_untried = 0, re_unexpected = 0\<rparr>"

text \<open>\<^verbatim>\<open>for (c = from; c < rm_cols; c++) if (rm_col[c].rc_error != 0) break\<close>.\<close>

definition raidz_find_error :: "nat \<Rightarrow> raidz_map \<Rightarrow> nat" where
  "raidz_find_error from rm = from + length (takeWhile (\<lambda>rc. rc_error rc = 0) (drop from (rm_col rm)))"

datatype raidz_result =
    Raidz_reread raidz_map "nat list"
  | Raidz_done int raidz_map raidz_env "nat list"

text \<open>The end of the completion, at the label \<^verbatim>\<open>done\<close>: the columns to repair.\<close>

definition raidz_finish :: "bool \<Rightarrow> raidz_zio \<Rightarrow> nat \<Rightarrow> int \<Rightarrow> raidz_map \<Rightarrow> raidz_env \<Rightarrow> raidz_result" where
  "raidz_finish fwrite io unexpected error rm env =
     Raidz_done error rm env
       (if error = 0 \<and> fwrite \<and> (unexpected \<noteq> 0 \<or> rz_resilver io)
        then filter (\<lambda>c. rc_error (rm_col rm ! c) \<noteq> 0) [0..<rm_cols rm] else [])"

text \<open>The first phase.  \<^const>\<open>Inl\<close> is a jump to \<^verbatim>\<open>done\<close>, \<^const>\<open>Inr\<close> falls through with the map.\<close>

definition raidz_verify_parity_if ::
    "bool \<Rightarrow> raidz_zio \<Rightarrow> nat \<Rightarrow> raidz_map \<Rightarrow> raidz_env \<Rightarrow> nat \<times> raidz_map \<times> raidz_env" where
  "raidz_verify_parity_if cond io unexpected rm env =
     (if cond then (case raidz_parity_verify (rz_speculative io) rm env of (rm, env, n) \<Rightarrow> (unexpected + n, rm, env))
      else (unexpected, rm, env))"

definition raidz_phase1 ::
    "(u64 \<Rightarrow> u64 list) \<Rightarrow> (u64 list \<Rightarrow> int) \<Rightarrow> raidz_zio \<Rightarrow> raidz_errors \<Rightarrow> raidz_map \<Rightarrow> raidz_env
      \<Rightarrow> (nat \<times> raidz_map \<times> raidz_env) + raidz_map" where
  "raidz_phase1 alloc verify io e rm env =
     (if re_numerrors e \<le> rm_firstdatacol rm - re_untried e
      then if re_data e = 0
        then if verify (raidz_io_data rm) = 0
             then Inl (raidz_verify_parity_if (re_parity e + re_untried e < rm_firstdatacol rm \<or> rz_resilver io)
                         io (re_unexpected e) rm env)
             else Inr rm
      else if re_data e = 1
        then let c = raidz_find_error (rm_firstdatacol rm) rm;
                 p_ok = (rc_error (rm_col rm ! VDEV_RAIDZ_P) = 0);
                 rm = (if p_ok then vdev_raidz_reconstruct_p rm c else vdev_raidz_reconstruct_q rm c)
             in if verify (raidz_io_data rm) = 0
                then let env = (if p_ok then env\<lparr>raidz_corrected_p := raidz_corrected_p env + 1\<rparr>
                                else env\<lparr>raidz_corrected_q := raidz_corrected_q env + 1\<rparr>)
                     in Inl (raidz_verify_parity_if (re_parity e < rm_firstdatacol rm - 1 \<or> rz_resilver io)
                               io (re_unexpected e) rm env)
                else Inr rm
      else if re_data e = 2
        then let c1 = raidz_find_error (rm_firstdatacol rm) rm;
                 c = raidz_find_error (c1 + 1) rm;
                 rm = vdev_raidz_reconstruct_pq alloc rm c1 c
             in if verify (raidz_io_data rm) = 0
                then Inl (re_unexpected e, rm, env\<lparr>raidz_corrected_pq := raidz_corrected_pq env + 1\<rparr>)
                else Inr rm
      else Inr rm
      else Inr rm)"

text \<open>Combinatorial reconstruction.  After a success the column is marked, and its child told
  if it did not know.\<close>

definition raidz_blame :: "raidz_zio \<Rightarrow> nat \<Rightarrow> raidz_map \<times> raidz_env \<Rightarrow> raidz_map \<times> raidz_env" where
  "raidz_blame io c = (\<lambda>(rm, env).
     let rc = rm_col rm ! c;
         env = (if rc_tried rc \<and> rc_error rc = 0 then raidz_checksum_error (rz_speculative io) rc env else env)
     in (rm_upd c (\<lambda>rc. rc\<lparr>rc_error := ECKSUM\<rparr>) rm, env))"

fun raidz_try_one ::
    "(raidz_map \<Rightarrow> nat \<Rightarrow> raidz_map) \<Rightarrow> (u64 list \<Rightarrow> int) \<Rightarrow> raidz_zio \<Rightarrow> nat list \<Rightarrow> raidz_map \<Rightarrow> raidz_env
      \<Rightarrow> (raidz_map \<times> raidz_env) option" where
  "raidz_try_one reconstruct verify io [] rm env = None"
| "raidz_try_one reconstruct verify io (c # cs) rm env =
     (let orig = rm_data rm c; rm = reconstruct rm c
      in if verify (raidz_io_data rm) = 0 then Some (raidz_blame io c (rm, env))
         else raidz_try_one reconstruct verify io cs (rm_set_data c orig rm) env)"

fun raidz_try_second ::
    "(u64 \<Rightarrow> u64 list) \<Rightarrow> (u64 list \<Rightarrow> int) \<Rightarrow> raidz_zio \<Rightarrow> nat \<Rightarrow> nat list \<Rightarrow> raidz_map \<Rightarrow> raidz_env
      \<Rightarrow> (raidz_map \<times> raidz_env) + raidz_map" where
  "raidz_try_second alloc verify io c [] rm env = Inr rm"
| "raidz_try_second alloc verify io c (c1 # cs) rm env =
     (let orig1 = rm_data rm c1; rm = vdev_raidz_reconstruct_pq alloc rm c c1
      in if verify (raidz_io_data rm) = 0
         then Inl (let rc = rm_col rm ! c; rc1 = rm_col rm ! c1;
                       env = (if rc_tried rc \<and> rc_error rc = 0 then raidz_checksum_error (rz_speculative io) rc env else env);
                       env = (if rc_tried rc1 \<and> rc_error rc1 = 0 then raidz_checksum_error (rz_speculative io) rc1 env else env)
                   in (rm_upd c1 (\<lambda>rc. rc\<lparr>rc_error := ECKSUM\<rparr>) (rm_upd c (\<lambda>rc. rc\<lparr>rc_error := ECKSUM\<rparr>) rm), env))
         else raidz_try_second alloc verify io c cs (rm_set_data c1 orig1 rm) env)"

fun raidz_try_two ::
    "(u64 \<Rightarrow> u64 list) \<Rightarrow> (u64 list \<Rightarrow> int) \<Rightarrow> raidz_zio \<Rightarrow> nat list \<Rightarrow> raidz_map \<Rightarrow> raidz_env
      \<Rightarrow> (raidz_map \<times> raidz_env) option" where
  "raidz_try_two alloc verify io [] rm env = None"
| "raidz_try_two alloc verify io (c # cs) rm env =
     (case raidz_try_second alloc verify io c [c + 1..<rm_cols rm] rm env of
        Inl r \<Rightarrow> Some r
      | Inr rm' \<Rightarrow> raidz_try_two alloc verify io cs (rm_set_data c (rm_data rm c) rm') env)"

definition raidz_combine ::
    "(u64 \<Rightarrow> u64 list) \<Rightarrow> (u64 list \<Rightarrow> int) \<Rightarrow> raidz_zio \<Rightarrow> raidz_map \<Rightarrow> raidz_env \<Rightarrow> int \<times> raidz_map \<times> raidz_env" where
  "raidz_combine alloc verify io rm env =
     (let first = rm_firstdatacol rm; cs = [first..<rm_cols rm];
          p_ok = (rc_error (rm_col rm ! VDEV_RAIDZ_P) = 0);
          q_ok = (first > 1 \<and> rc_error (rm_col rm ! VDEV_RAIDZ_Q) = 0)
      in case (if p_ok then raidz_try_one vdev_raidz_reconstruct_p verify io cs rm env else None) of
           Some (rm, env) \<Rightarrow> (0, rm, env\<lparr>raidz_corrected_p := raidz_corrected_p env + 1\<rparr>)
         | None \<Rightarrow>
         case (if q_ok then raidz_try_one vdev_raidz_reconstruct_q verify io cs rm env else None) of
           Some (rm, env) \<Rightarrow> (0, rm, env\<lparr>raidz_corrected_q := raidz_corrected_q env + 1\<rparr>)
         | None \<Rightarrow>
         case (if p_ok \<and> q_ok then raidz_try_two alloc verify io [first..<rm_cols rm - 1] rm env else None) of
           Some (rm, env) \<Rightarrow> (0, rm, env\<lparr>raidz_corrected_pq := raidz_corrected_pq env + 1\<rparr>)
         | None \<Rightarrow>
             (ECKSUM, rm, if rz_speculative io then env
                          else env\<lparr>checksum_ereports := checksum_ereports env @ map rc_devidx (rm_col rm)\<rparr>))"

definition vdev_raidz_io_done ::
    "(u64 \<Rightarrow> u64 list) \<Rightarrow> (u64 list \<Rightarrow> int) \<Rightarrow> bool \<Rightarrow> raidz_zio \<Rightarrow> raidz_map \<Rightarrow> raidz_env \<Rightarrow> raidz_result" where
  "vdev_raidz_io_done alloc verify fwrite io rm env =
     (let e = raidz_errors_of rm
      in if rz_type io = ZIO_TYPE_WRITE
         then Raidz_done (if re_numerrors e \<le> rm_firstdatacol rm \<and> \<not> rz_failfast io then 0 else re_error e) rm env []
         else case raidz_phase1 alloc verify io e rm env of
           Inl (unexpected, rm, env) \<Rightarrow> raidz_finish fwrite io unexpected 0 rm env
         | Inr rm \<Rightarrow>
             let rm = rm\<lparr>rm_missingdata := 0, rm_missingparity := 0\<rparr>;
                 untried = filter (\<lambda>c. \<not> rc_tried (rm_col rm ! c)) [0..<rm_cols rm]
             in if untried \<noteq> [] then Raidz_reread rm untried
                else if rm_firstdatacol rm \<le> re_numerrors e then raidz_finish fwrite io 1 (re_error e) rm env
                else case raidz_combine alloc verify io rm env of
                  (error, rm, env) \<Rightarrow> raidz_finish fwrite io 1 error rm env)"

section \<open>Correctness of RAID-Z I/O\<close>

subsection \<open>Changes that leave the data alone\<close>

lemma io_data_set_parity: "c < rm_firstdatacol rm \<Longrightarrow> raidz_io_data (rm_set_data c d rm) = raidz_io_data rm"
  by (simp add: raidz_io_data_def rm_set_data_def drop_update_cancel)

lemma map_upd_same: "f (g (xs ! c)) = f (xs ! c) \<Longrightarrow> map f (xs[c := g (xs ! c)]) = map f xs"
  by (cases "c < length xs") (simp_all add: map_update list_update_same_conv list_update_beyond)

lemma io_data_rm_upd:
  assumes "\<And>rc. rc_data (f rc) = rc_data rc" shows "raidz_io_data (rm_upd c f rm) = raidz_io_data rm"
proof -
  have "map rc_data ((rm_col rm)[c := f (rm_col rm ! c)]) = map rc_data (rm_col rm)" by (rule map_upd_same) (simp add: assms)
  then show ?thesis by (simp add: raidz_io_data_def rm_upd_def flip: drop_map)
qed

lemma rm_upd_simps [simp]:
  "rm_firstdatacol (rm_upd c f rm) = rm_firstdatacol rm" "rm_cols (rm_upd c f rm) = rm_cols rm"
  by (simp_all add: rm_upd_def rm_cols_def)

lemma generate_parity_first [simp]:
  "rm_firstdatacol (raidz_generate_parity rm) = rm_firstdatacol rm" "rm_cols (raidz_generate_parity rm) = rm_cols rm"
  by (simp_all add: raidz_generate_parity_def vdev_raidz_generate_parity_p_def vdev_raidz_generate_parity_pq_def Let_def split: prod.split)

lemma io_data_generate_parity: "0 < rm_firstdatacol rm \<Longrightarrow> raidz_io_data (raidz_generate_parity rm) = raidz_io_data rm"
  by (auto simp: raidz_generate_parity_def vdev_raidz_generate_parity_p_def vdev_raidz_generate_parity_pq_def Let_def
      io_data_set_parity VDEV_RAIDZ_P_def VDEV_RAIDZ_Q_def split: prod.split)

lemma io_data_parity_verify:
  assumes "0 < rm_firstdatacol rm" "raidz_parity_verify spec rm env = (rm', env', n)"
  shows "raidz_io_data rm' = raidz_io_data rm"
proof -
  define step where "step = (\<lambda>(rm', env, ret) c.
         let rc = rm_col rm' ! c
         in if \<not> rc_tried rc \<or> rc_error rc \<noteq> 0 then (rm', env, ret)
            else if take (rm_count rm c) (rm_data rm c) \<noteq> take (rm_count rm c) (rc_data rc)
            then (rm_upd c (\<lambda>rc. rc\<lparr>rc_error := ECKSUM\<rparr>) rm', raidz_checksum_error spec rc env, ret + 1)
            else (rm', env, ret :: nat))"
  have 1: "raidz_io_data (fst (step s c)) = raidz_io_data (fst s)" for s c
    by (cases s) (simp add: step_def Let_def io_data_rm_upd)
  have "raidz_io_data (fst (foldl step s cs)) = raidz_io_data (fst s)" for s cs
    by (induction cs arbitrary: s) (simp_all add: 1)
  moreover have "(rm', env', n) = foldl step (raidz_generate_parity rm, env, 0) [0..<rm_firstdatacol rm]"
    using assms(2) unfolding raidz_parity_verify_def step_def by simp
  ultimately have "raidz_io_data rm' = raidz_io_data (raidz_generate_parity rm)" by (metis fst_conv)
  then show ?thesis using io_data_generate_parity [OF assms(1)] by simp
qed

lemma io_data_verify_parity_if:
  assumes "0 < rm_firstdatacol rm" "raidz_verify_parity_if b io u rm env = (u', rm', env')"
  shows "raidz_io_data rm' = raidz_io_data rm"
  using assms io_data_parity_verify [OF assms(1)]
  by (auto simp: raidz_verify_parity_if_def split: if_splits prod.splits)

subsection \<open>Counting the errors\<close>

lemma count_errors:
  "re_numerrors (raidz_count_errors first c rcs e) = re_numerrors e + length (filter (\<lambda>rc. rc_error rc \<noteq> 0) rcs) \<and>
   (0 < length (filter (\<lambda>rc. rc_error rc \<noteq> 0) rcs) \<or> re_error e \<noteq> 0 \<longrightarrow> re_error (raidz_count_errors first c rcs e) \<noteq> 0) \<and>
   re_data (raidz_count_errors first c rcs e) = re_data e + length (filter (\<lambda>rc. rc_error rc \<noteq> 0) (drop (first - c) rcs)) \<and>
   re_parity (raidz_count_errors first c rcs e) = re_parity e + length (filter (\<lambda>rc. rc_error rc \<noteq> 0) (take (first - c) rcs)) \<and>
   re_untried (raidz_count_errors first c rcs e) = re_untried e
     + length (filter (\<lambda>rc. rc_error rc = 0 \<and> \<not> rc_tried rc) (take (first - c) rcs))"
proof (induction rcs arbitrary: c e)
  case (Cons rc rcs)
  have d: "drop (first - c) (rc # rcs) = (if c < first then drop (first - (c + 1)) rcs else rc # rcs)"
    "take (first - c) (rc # rcs) = (if c < first then rc # take (first - (c + 1)) rcs else [])"
    by (auto simp: drop_Cons take_Cons split: nat.splits) (metis Suc_diff_Suc diff_Suc_1' Suc_eq_plus1 nat.inject)+
  have z: "\<not> c < first \<Longrightarrow> first - (c + 1) = 0" by simp
  show ?case
    unfolding d by (cases "c < first"; cases "rc_error rc = 0") (auto simp: Cons.IH Let_def z EIO_def)
qed simp

lemma errors_of:
  "re_numerrors (raidz_errors_of rm) = length (filter (\<lambda>rc. rc_error rc \<noteq> 0) (rm_col rm))"
  "0 < re_numerrors (raidz_errors_of rm) \<Longrightarrow> re_error (raidz_errors_of rm) \<noteq> 0"
  "re_data (raidz_errors_of rm) = length (filter (\<lambda>rc. rc_error rc \<noteq> 0) (drop (rm_firstdatacol rm) (rm_col rm)))"
  "re_parity (raidz_errors_of rm) = length (filter (\<lambda>rc. rc_error rc \<noteq> 0) (take (rm_firstdatacol rm) (rm_col rm)))"
  "re_untried (raidz_errors_of rm) = length (filter (\<lambda>rc. rc_error rc = 0 \<and> \<not> rc_tried rc) (take (rm_firstdatacol rm) (rm_col rm)))"
  using count_errors [of "rm_firstdatacol rm" 0 "rm_col rm"
      "\<lparr>re_error = 0, re_numerrors = 0, re_parity = 0, re_data = 0, re_untried = 0, re_unexpected = 0\<rparr>"]
  by (simp_all add: raidz_errors_of_def)

subsection \<open>Only verified data are returned\<close>

lemma io_data_blame: "raidz_io_data (fst (raidz_blame io c (rm, env))) = raidz_io_data rm"
  by (simp add: raidz_blame_def Let_def io_data_rm_upd)

lemma try_one_verified:
  "raidz_try_one rec verify io cs rm env = Some (rm', env') \<Longrightarrow> verify (raidz_io_data rm') = 0"
proof (induction rec verify io cs rm env rule: raidz_try_one.induct)
  case (2 reconstruct verify io c cs rm env)
  show ?case
  proof (cases "verify (raidz_io_data (reconstruct rm c)) = 0")
    case True
    then have "(rm', env') = raidz_blame io c (reconstruct rm c, env)" using 2(2) by (simp add: Let_def)
    then show ?thesis using True io_data_blame by (metis fst_conv)
  next
    case False
    then show ?thesis using 2 by (simp add: Let_def)
  qed
qed simp

lemma try_second_verified:
  "raidz_try_second alloc verify io c cs rm env = Inl (rm', env') \<Longrightarrow> verify (raidz_io_data rm') = 0"
proof (induction alloc verify io c cs rm env rule: raidz_try_second.induct)
  case (2 alloc verify io c c1 cs rm env)
  show ?case
  proof (cases "verify (raidz_io_data (vdev_raidz_reconstruct_pq alloc rm c c1)) = 0")
    case True
    then show ?thesis using 2(2) by (auto simp: Let_def io_data_rm_upd)
  next
    case False
    then show ?thesis using 2 by (simp add: Let_def)
  qed
qed simp

lemma try_two_verified:
  "raidz_try_two alloc verify io cs rm env = Some (rm', env') \<Longrightarrow> verify (raidz_io_data rm') = 0"
proof (induction alloc verify io cs rm env rule: raidz_try_two.induct)
  case (2 alloc verify io c cs rm env)
  then show ?case by (auto split: sum.splits dest: try_second_verified)
qed simp

lemma combine_verified:
  "raidz_combine alloc verify io rm env = (0, rm', env') \<Longrightarrow> verify (raidz_io_data rm') = 0"
  by (auto simp: raidz_combine_def Let_def ECKSUM_def split: option.splits if_splits dest: try_one_verified try_two_verified)

lemma generate_pq_first [simp]: "rm_firstdatacol (vdev_raidz_generate_parity_pq rm) = rm_firstdatacol rm"
  by (simp add: vdev_raidz_generate_parity_pq_def Let_def split: prod.split)

lemma reconstruct_first [simp]:
  "rm_firstdatacol (vdev_raidz_reconstruct_p rm c) = rm_firstdatacol rm"
  "rm_firstdatacol (vdev_raidz_reconstruct_q rm c) = rm_firstdatacol rm"
  "rm_firstdatacol (vdev_raidz_reconstruct_pq alloc rm c c1) = rm_firstdatacol rm"
  by (simp_all only: vdev_raidz_reconstruct_p_def vdev_raidz_reconstruct_q_def vdev_raidz_reconstruct_pq_def Let_def
      rm_set_data_simps rm_set_size_simps generate_pq_first)

lemma phase1_verified:
  assumes "0 < rm_firstdatacol rm" "raidz_phase1 alloc verify io e rm env = Inl (u, rm', env')"
  shows "verify (raidz_io_data rm') = 0"
  using assms unfolding raidz_phase1_def
  by (auto simp: Let_def split: if_splits dest!: io_data_verify_parity_if [rotated])

lemma phase1_first: "raidz_phase1 alloc verify io e rm env = Inr rm' \<Longrightarrow> rm_firstdatacol rm' = rm_firstdatacol rm"
  unfolding raidz_phase1_def by (auto simp: Let_def split: if_splits)

text \<open>C11: A RAID-Z read never hands out data that fail their checksum: if the completion ends
  with no error, in whichever of the three phases, after whatever reconstruction, the
  data of the I/O pass \<^verbatim>\<open>zio_checksum_error\<close>.\<close>

theorem raidz_read_verified:
  assumes "rz_type io = ZIO_TYPE_READ" "0 < rm_firstdatacol rm"
    and "vdev_raidz_io_done alloc verify fwrite io rm env = Raidz_done 0 rm' env' repairs"
  shows "verify (raidz_io_data rm') = 0"
proof (cases "raidz_phase1 alloc verify io (raidz_errors_of rm) rm env")
  case (Inl r)
  obtain u rm1 env1 where r: "r = (u, rm1, env1)" by (cases r)
  then have "rm' = rm1" using assms Inl by (auto simp: vdev_raidz_io_done_def Let_def raidz_finish_def)
  then show ?thesis using phase1_verified [OF assms(2)] Inl r by blast
next
  case (Inr rm1)
  let ?rm = "rm1\<lparr>rm_missingdata := 0, rm_missingparity := 0\<rparr>"
  have f: "rm_firstdatacol rm1 = rm_firstdatacol rm" using phase1_first [OF Inr] .
  have body: "Raidz_done 0 rm' env' repairs =
      (if filter (\<lambda>c. \<not> rc_tried (rm_col ?rm ! c)) [0..<rm_cols ?rm] \<noteq> []
       then Raidz_reread ?rm (filter (\<lambda>c. \<not> rc_tried (rm_col ?rm ! c)) [0..<rm_cols ?rm])
       else if rm_firstdatacol rm1 \<le> re_numerrors (raidz_errors_of rm)
       then raidz_finish fwrite io 1 (re_error (raidz_errors_of rm)) ?rm env
       else case raidz_combine alloc verify io ?rm env of (error, rm, env) \<Rightarrow> raidz_finish fwrite io 1 error rm env)"
    using assms(1) Inr unfolding assms(3) [symmetric] by (simp add: vdev_raidz_io_done_def Let_def)
  have n: "\<not> rm_firstdatacol rm1 \<le> re_numerrors (raidz_errors_of rm)"
  proof
    assume "rm_firstdatacol rm1 \<le> re_numerrors (raidz_errors_of rm)"
    moreover from this have "re_error (raidz_errors_of rm) \<noteq> 0" using errors_of(2) assms(2) f by simp
    ultimately show False using body by (auto simp: raidz_finish_def split: if_splits)
  qed
  then have "\<exists>env2. raidz_combine alloc verify io ?rm env = (0, rm', env2)"
    using body by (cases "raidz_combine alloc verify io ?rm env") (auto simp: raidz_finish_def split: if_splits)
  then show ?thesis using combine_verified by blast
qed

subsection \<open>Reported failures\<close>

text \<open>A block as it was written: a well-formed map with its parity.\<close>

definition raidz_written :: "raidz_map \<Rightarrow> bool" where
  "raidz_written g \<longleftrightarrow> raidz_wf g \<and> rm_cols g \<le> 256 \<and> parity_P_ok g \<and>
     (rm_firstdatacol g = 1 \<or> rm_firstdatacol g = 2 \<and> parity_Q_ok g)"

text \<open>What came back of it: the columns without an error, apart from parity that was not
  read, hold what was written; the others hold anything.\<close>

definition raidz_damaged :: "raidz_map \<Rightarrow> raidz_map \<Rightarrow> bool" where
  "raidz_damaged g rm \<longleftrightarrow> rm_firstdatacol rm = rm_firstdatacol g \<and> rm_cols rm = rm_cols g \<and>
     (\<forall>c < rm_cols g. rc_size (rm_col rm ! c) = rc_size (rm_col g ! c) \<and> length (rm_data rm c) = rm_count g c \<and>
        (rc_error (rm_col rm ! c) = 0 \<and> (rm_firstdatacol g \<le> c \<or> rc_tried (rm_col rm ! c)) \<longrightarrow> rm_data rm c = rm_data g c))"

lemma io_data_columns: "raidz_io_data rm = concat (map (rm_data rm) [rm_firstdatacol rm..<rm_cols rm])"
proof -
  have "map rc_data (drop (rm_firstdatacol rm) (rm_col rm)) = map (rm_data rm) [rm_firstdatacol rm..<rm_cols rm]"
    by (rule nth_equalityI) (simp_all add: rm_cols_def rm_data_def)
  then show ?thesis by (simp add: raidz_io_data_def)
qed

lemma raidz_damagedD:
  assumes "raidz_damaged g rm"
  shows "rm_firstdatacol rm = rm_firstdatacol g" "rm_cols rm = rm_cols g"
    "c < rm_cols g \<Longrightarrow> rm_count rm c = rm_count g c" "c < rm_cols g \<Longrightarrow> length (rm_data rm c) = rm_count g c"
    "c < rm_cols g \<Longrightarrow> rc_error (rm_col rm ! c) = 0 \<Longrightarrow> rm_firstdatacol g \<le> c \<or> rc_tried (rm_col rm ! c) \<Longrightarrow> rm_data rm c = rm_data g c"
  using assms by (auto simp: raidz_damaged_def rm_count_def rc_count_def)

lemma same_shape_wf:
  assumes wf: "raidz_wf g" and f: "rm_firstdatacol rm = rm_firstdatacol g" "rm_cols rm = rm_cols g"
    and c: "\<And>c. c < rm_cols g \<Longrightarrow> rm_count rm c = rm_count g c \<and> length (rm_data rm c) = rm_count g c"
  shows "raidz_wf rm"
proof -
  note w = raidz_wfD [OF wf]
  have "0 < rm_cols g" using w(2) by simp
  then show ?thesis unfolding raidz_wf_def f
  proof (intro conjI allI impI)
    fix x assume "x \<le> rm_firstdatacol g"
    then show "rm_count rm 0 = rm_count rm x" using c [of 0] c [of x] w(2) w(5) [of x] by simp
  next
    fix x y assume "x \<le> y \<and> y < rm_cols g"
    then show "rm_count rm y \<le> rm_count rm x" using c [of x] c [of y] w(6) [of x y] by simp
  qed (use c w in auto)
qed

lemma same_words:
  assumes f: "rm_firstdatacol rm = rm_firstdatacol g" "rm_cols rm = rm_cols g"
    and c: "\<And>c. c < rm_cols g \<Longrightarrow> rm_count rm c = rm_count g c"
    and d: "\<And>c. rm_firstdatacol g \<le> c \<Longrightarrow> c < rm_cols g \<Longrightarrow> rm_data rm c = rm_data g c"
  shows "data_words rm i = data_words g i" "raidz_io_data rm = raidz_io_data g"
  using c d by (auto simp: f rm_word_def io_data_columns intro!: arg_cong [where f = concat])

text \<open>The indices of the columns with an error.\<close>

definition err_cols :: "nat \<Rightarrow> raidz_map \<Rightarrow> nat list" where
  "err_cols k rm = filter (\<lambda>c. rc_error (rm_col rm ! c) \<noteq> 0) [k..<rm_cols rm]"

lemma err_cols_simps:
  "length (filter (\<lambda>rc. rc_error rc \<noteq> 0) (drop k (rm_col rm))) = length (err_cols k rm)"
  "sorted_wrt (<) (err_cols k rm)" "x \<in> set (err_cols k rm) \<longleftrightarrow> k \<le> x \<and> x < rm_cols rm \<and> rc_error (rm_col rm ! x) \<noteq> 0"
proof -
  have "drop k (rm_col rm) = map ((!) (rm_col rm)) [k..<rm_cols rm]"
    by (rule nth_equalityI) (simp_all add: rm_cols_def)
  then show "length (filter (\<lambda>rc. rc_error rc \<noteq> 0) (drop k (rm_col rm))) = length (err_cols k rm)"
    by (simp add: err_cols_def filter_map comp_def)
qed (auto simp: err_cols_def sorted_wrt_filter)

lemma find_error_eq:
  assumes "from \<le> x" "x < rm_cols rm" "rc_error (rm_col rm ! x) \<noteq> 0" "\<And>c. from \<le> c \<Longrightarrow> c < x \<Longrightarrow> rc_error (rm_col rm ! c) = 0"
  shows "raidz_find_error from rm = x"
proof -
  have x: "x - from < length (drop from (rm_col rm))" "drop from (rm_col rm) ! (x - from) = rm_col rm ! x"
    using assms(1,2) by (auto simp: rm_cols_def)
  have "takeWhile (\<lambda>rc. rc_error rc = 0) (drop from (rm_col rm)) = take (x - from) (drop from (rm_col rm))"
    by (rule takeWhile_eq_take_P_nth) (use assms x in \<open>auto simp: rm_cols_def\<close>)
  then show ?thesis using x(1) assms(1) by (simp add: raidz_find_error_def)
qed

lemma err_cols_one: "length (err_cols k rm) = 1 \<Longrightarrow> \<exists>x. k \<le> x \<and> x < rm_cols rm \<and> rc_error (rm_col rm ! x) \<noteq> 0 \<and> raidz_find_error k rm = x \<and>
    (\<forall>c. k \<le> c \<longrightarrow> c < rm_cols rm \<longrightarrow> c \<noteq> x \<longrightarrow> rc_error (rm_col rm ! c) = 0)"
proof -
  assume "length (err_cols k rm) = 1"
  then obtain x where x: "err_cols k rm = [x]" by (auto simp: length_Suc_conv)
  have s: "\<And>c. k \<le> c \<and> c < rm_cols rm \<and> rc_error (rm_col rm ! c) \<noteq> 0 \<longleftrightarrow> c = x"
    using err_cols_simps(3) [of _ k rm] x by auto
  have kx: "k \<le> x" "x < rm_cols rm" "rc_error (rm_col rm ! x) \<noteq> 0" using s by blast+
  have z: "rc_error (rm_col rm ! c) = 0" if "k \<le> c" "c < rm_cols rm" "c \<noteq> x" for c using s that by blast
  have "raidz_find_error k rm = x" by (rule find_error_eq [OF kx]) (use z kx in auto)
  then show ?thesis using kx z by blast
qed

lemma err_cols_two: "length (err_cols k rm) = 2 \<Longrightarrow> \<exists>x y. k \<le> x \<and> x < y \<and> y < rm_cols rm \<and> rc_error (rm_col rm ! x) \<noteq> 0 \<and> rc_error (rm_col rm ! y) \<noteq> 0 \<and>
    raidz_find_error k rm = x \<and> raidz_find_error (x + 1) rm = y \<and>
    (\<forall>c. k \<le> c \<longrightarrow> c < rm_cols rm \<longrightarrow> c \<noteq> x \<longrightarrow> c \<noteq> y \<longrightarrow> rc_error (rm_col rm ! c) = 0)"
proof -
  assume "length (err_cols k rm) = 2"
  then obtain x y where x: "err_cols k rm = [x, y]" by (auto simp: length_Suc_conv numeral_2_eq_2)
  have xy: "x < y" using err_cols_simps(2) [of k rm] x by simp
  have s: "\<And>c. k \<le> c \<and> c < rm_cols rm \<and> rc_error (rm_col rm ! c) \<noteq> 0 \<longleftrightarrow> c = x \<or> c = y"
    using err_cols_simps(3) [of _ k rm] x by auto
  have kx: "k \<le> x" "x < rm_cols rm" "rc_error (rm_col rm ! x) \<noteq> 0" "y < rm_cols rm" "rc_error (rm_col rm ! y) \<noteq> 0" using s by blast+
  have z: "rc_error (rm_col rm ! c) = 0" if "k \<le> c" "c < rm_cols rm" "c \<noteq> x" "c \<noteq> y" for c using s that by blast
  have "raidz_find_error k rm = x"
    by (rule find_error_eq [OF kx(1-3)]) (use z kx xy in auto)
  moreover have "raidz_find_error (x + 1) rm = y"
    by (rule find_error_eq [OF _ kx(4,5)]) (use z kx xy in auto)
  ultimately show ?thesis using kx xy z by blast
qed

lemma healed_one:
  assumes w: "raidz_written g" and d: "raidz_damaged g rm" and x: "rm_firstdatacol g \<le> x" "x < rm_cols g"
    and ok: "\<forall>c. rm_firstdatacol g \<le> c \<longrightarrow> c < rm_cols g \<longrightarrow> c \<noteq> x \<longrightarrow> rm_data rm c = rm_data g c"
  defines "h \<equiv> rm_set_data x (rm_data g x) rm"
  shows "raidz_wf h" "data_words h i = data_words g i" "raidz_io_data h = raidz_io_data g" "rm_set_data x (rm_data rm x) h = rm"
    "rm_firstdatacol h = rm_firstdatacol g" "rm_cols h = rm_cols g" "c < rm_cols g \<Longrightarrow> rm_count h c = rm_count g c"
    "c \<noteq> x \<Longrightarrow> rm_data h c = rm_data rm c"
proof -
  have wf: "raidz_wf g" using w by (simp add: raidz_written_def)
  note D = raidz_damagedD [OF d]
  show f: "rm_firstdatacol h = rm_firstdatacol g" "rm_cols h = rm_cols g" by (simp_all add: h_def D)
  show cnt: "c < rm_cols g \<Longrightarrow> rm_count h c = rm_count g c" for c by (simp add: h_def D)
  have data: "rm_data h c = rm_data g c" if "rm_firstdatacol g \<le> c" "c < rm_cols g" for c
    using that ok x D(2) by (cases "c = x") (simp_all add: h_def)
  show "raidz_wf h"
  proof (rule same_shape_wf [OF wf f], intro conjI cnt)
    fix c assume c: "c < rm_cols g"
    show "length (rm_data h c) = rm_count g c"
      using raidz_wfD(3) [OF wf c] D(4) [OF c] x D(2) by (cases "c = x") (simp_all add: h_def)
  qed
  show "data_words h i = data_words g i" "raidz_io_data h = raidz_io_data g"
    by (rule same_words [OF f]; use cnt data in blast)+
  show "rm_set_data x (rm_data rm x) h = rm" by (simp add: h_def)
  show "c \<noteq> x \<Longrightarrow> rm_data h c = rm_data rm c" by (simp add: h_def)
qed

lemma heal_p:
  assumes w: "raidz_written g" and d: "raidz_damaged g rm" and x: "rm_firstdatacol g \<le> x" "x < rm_cols g"
    and ok: "\<forall>c. rm_firstdatacol g \<le> c \<longrightarrow> c < rm_cols g \<longrightarrow> c \<noteq> x \<longrightarrow> rm_data rm c = rm_data g c"
    and P: "rm_data rm 0 = rm_data g 0"
  shows "vdev_raidz_reconstruct_p rm x = rm_set_data x (rm_data g x) rm"
proof -
  note h = healed_one [OF w d x ok]
  let ?h = "rm_set_data x (rm_data g x) rm"
  have wf: "raidz_wf g" "parity_P_ok g" using w by (simp_all add: raidz_written_def)
  have x0: "0 \<noteq> x" "0 < rm_cols g" using x raidz_wfD(1) [OF wf(1)] by auto
  have "parity_P_ok ?h" unfolding parity_P_ok_def h(2) h(7) [OF x0(2)] h(8) [OF x0(1)] P using wf(2) by (simp add: parity_P_ok_def)
  moreover have "length (rm_data rm x) = rm_count ?h x" using raidz_damagedD(4) [OF d x(2)] h(7) [OF x(2)] by simp
  ultimately show ?thesis using reconstruct_p_correct [OF h(1), of x "rm_data rm x"] h(4,5,6) x by simp
qed

lemma heal_q:
  assumes w: "raidz_written g" and two: "rm_firstdatacol g = 2" and d: "raidz_damaged g rm" and x: "rm_firstdatacol g \<le> x" "x < rm_cols g"
    and ok: "\<forall>c. rm_firstdatacol g \<le> c \<longrightarrow> c < rm_cols g \<longrightarrow> c \<noteq> x \<longrightarrow> rm_data rm c = rm_data g c"
    and Q: "rm_data rm 1 = rm_data g 1"
  shows "vdev_raidz_reconstruct_q rm x = rm_set_data x (rm_data g x) rm"
proof -
  note h = healed_one [OF w d x ok]
  let ?h = "rm_set_data x (rm_data g x) rm"
  have wf: "raidz_wf g" "parity_Q_ok g" "rm_cols g \<le> 256" using w two by (simp_all add: raidz_written_def)
  have x0: "1 \<noteq> x" "0 < rm_cols g" using x two by auto
  have "parity_Q_ok ?h" unfolding parity_Q_ok_def h(2) h(7) [OF x0(2)] h(8) [OF x0(1)] Q using wf(2) by (simp add: parity_Q_ok_def)
  moreover have "length (rm_data rm x) = rm_count ?h x" using raidz_damagedD(4) [OF d x(2)] h(7) [OF x(2)] by simp
  ultimately show ?thesis using reconstruct_q_correct [OF h(1), of x "rm_data rm x"] h(4,5,6) x two wf(3) by simp
qed

lemma heal_pq:
  assumes w: "raidz_written g" and two: "rm_firstdatacol g = 2" and d: "raidz_damaged g rm" and x: "2 \<le> x" "x < y" "y < rm_cols g"
    and ok: "\<forall>c. 2 \<le> c \<longrightarrow> c < rm_cols g \<longrightarrow> c \<noteq> x \<longrightarrow> c \<noteq> y \<longrightarrow> rm_data rm c = rm_data g c"
    and P: "rm_data rm 0 = rm_data g 0" and Q: "rm_data rm 1 = rm_data g 1"
    and alloc: "\<And>s. length (alloc s) = unat s div 8"
  shows "vdev_raidz_reconstruct_pq alloc rm x y = rm_set_data y (rm_data g y) (rm_set_data x (rm_data g x) rm)"
proof -
  let ?h = "rm_set_data y (rm_data g y) (rm_set_data x (rm_data g x) rm)"
  have wf: "raidz_wf g" "parity_P_ok g" "parity_Q_ok g" "rm_cols g \<le> 256" using w two by (simp_all add: raidz_written_def)
  note D = raidz_damagedD [OF d] and W = raidz_wfD [OF wf(1)]
  have f: "rm_firstdatacol ?h = rm_firstdatacol g" "rm_cols ?h = rm_cols g" by (simp_all add: D)
  have cnt: "rm_count ?h c = rm_count g c" if "c < rm_cols g" for c using that by (simp add: D)
  have data: "rm_data ?h c = (if c = x \<or> c = y then rm_data g c else rm_data rm c)" for c
    using x D(2) by (cases "c = x"; cases "c = y") simp_all
  have hd: "rm_data ?h c = rm_data g c" if "rm_firstdatacol g \<le> c" "c < rm_cols g" for c
    unfolding data using that ok two by simp
  have hwf: "raidz_wf ?h"
  proof (rule same_shape_wf [OF wf(1) f], intro conjI cnt)
    fix c assume c: "c < rm_cols g"
    show "length (rm_data ?h c) = rm_count g c" unfolding data using D(4) [OF c] W(3) [OF c] by simp
  qed
  have sw: "data_words ?h i = data_words g i" for i by (rule same_words(1) [OF f]; use cnt hd in blast)
  have c0: "0 < rm_cols g" "1 < rm_cols g" using x by auto
  have pq: "rm_data ?h 0 = rm_data g 0" "rm_data ?h 1 = rm_data g 1" unfolding data using x P Q by auto
  have P': "parity_P_ok ?h" and Q': "parity_Q_ok ?h"
    using wf(2,3) unfolding parity_P_ok_def parity_Q_ok_def sw cnt [OF c0(1)] pq by blast+
  have rm: "rm_set_data y (rm_data rm y) (rm_set_data x (rm_data rm x) ?h) = rm"
    using x by (simp add: rm_set_data_commute [of x y])
  have "vdev_raidz_reconstruct_pq alloc (rm_set_data y (rm_data rm y) (rm_set_data x (rm_data rm x) ?h)) x y = ?h"
  proof (rule reconstruct_pq_correct [OF hwf P' Q' _ x(1,2)])
    show "rm_firstdatacol ?h = 2" "y < rm_cols ?h" "rm_cols ?h - 1 - x < 255" using f two x wf(4) by simp_all
    show "length (rm_data rm x) = rm_count ?h x" "length (rm_data rm y) = rm_count ?h y" using cnt D(4) x by simp_all
    show "length (alloc (rc_size (rm_col ?h ! c))) = rm_count ?h c" for c by (simp only: alloc rm_count_def rc_count_def)
  qed
  then show ?thesis unfolding rm .
qed

lemma io_data_two:
  assumes "rm_firstdatacol rm = rm_firstdatacol g" "rm_cols rm = rm_cols g" "rm_firstdatacol g \<le> x" "x < y" "y < rm_cols g"
    and "\<forall>c. rm_firstdatacol g \<le> c \<longrightarrow> c < rm_cols g \<longrightarrow> c \<noteq> x \<longrightarrow> c \<noteq> y \<longrightarrow> rm_data rm c = rm_data g c"
  shows "raidz_io_data (rm_set_data y (rm_data g y) (rm_set_data x (rm_data g x) rm)) = raidz_io_data g"
proof -
  let ?h = "rm_set_data y (rm_data g y) (rm_set_data x (rm_data g x) rm)"
  have "rm_data ?h c = rm_data g c" if "rm_firstdatacol g \<le> c" "c < rm_cols g" for c
    using that assms by (cases "c = x"; cases "c = y") simp_all
  then have "map (rm_data ?h) [rm_firstdatacol g..<rm_cols g] = map (rm_data g) [rm_firstdatacol g..<rm_cols g]"
    by (intro map_cong refl) simp
  then show ?thesis using assms(1,2) by (auto simp: io_data_columns intro!: arg_cong [where f = concat])
qed

lemma filter_disjoint_length:
  "length (filter (\<lambda>x. P x) xs) + length (filter (\<lambda>x. \<not> P x \<and> Q x) xs) \<le> length xs"
  by (induction xs) auto

lemma filter_append_length: "length (filter P xs) = length (filter P (take n xs)) + length (filter P (drop n xs))"
  by (metis append_take_drop_id filter_append length_append)

lemma damaged_phase1:
  assumes w: "raidz_written g" and d: "raidz_damaged g rm" and alloc: "\<And>s. length (alloc s) = unat s div 8"
    and few: "length (filter (\<lambda>rc. rc_error rc \<noteq> 0) (rm_col rm)) \<le> rm_firstdatacol g"
    and tried: "(\<exists>c. rm_firstdatacol g \<le> c \<and> c < rm_cols g \<and> rc_error (rm_col rm ! c) \<noteq> 0) \<longrightarrow>
      (\<forall>c < rm_firstdatacol g. rc_error (rm_col rm ! c) = 0 \<longrightarrow> rc_tried (rm_col rm ! c))"
    and ver: "verify (raidz_io_data g) = 0"
  shows "\<exists>u rm' env'. raidz_phase1 alloc verify io (raidz_errors_of rm) rm env = Inl (u, rm', env') \<and> raidz_io_data rm' = raidz_io_data g"
proof -
  have wf: "raidz_wf g" using w by (simp add: raidz_written_def)
  have f12: "rm_firstdatacol g = 1 \<or> rm_firstdatacol g = 2" using w by (auto simp: raidz_written_def)
  note W = raidz_wfD [OF wf] and D = raidz_damagedD [OF d]
  let ?f = "rm_firstdatacol g" and ?e = "raidz_errors_of rm"
  let ?err = "\<lambda>rc. rc_error rc \<noteq> 0"
  have f0: "0 < rm_firstdatacol rm" using W(1) D(1) by simp
  have num: "re_numerrors ?e = re_parity ?e + re_data ?e"
    unfolding errors_of(1,3,4) by (rule filter_append_length)
  have dat: "re_data ?e = length (err_cols ?f rm)" unfolding errors_of(3) D(1) by (rule err_cols_simps(1))
  have len: "length (take ?f (rm_col rm)) = ?f" using W(2) D(2) by (simp add: rm_cols_def)
  have mem: "rm_col rm ! c \<in> set (take ?f (rm_col rm))" if "c < ?f" for c using that len by (metis nth_mem nth_take)
  have par: "re_parity ?e + re_untried ?e \<le> ?f"
    using filter_disjoint_length [where P = ?err and Q = "\<lambda>rc. \<not> rc_tried rc" and xs = "take ?f (rm_col rm)"] len
    unfolding errors_of(4,5) D(1) by simp
  have done1: "\<exists>u rm' env'. raidz_verify_parity_if b io u0 h env0 = (u, rm', env') \<and> raidz_io_data rm' = raidz_io_data g"
    if "0 < rm_firstdatacol h" "raidz_io_data h = raidz_io_data g" for b u0 h env0
    using io_data_verify_parity_if [OF that(1)] that(2) by (cases "raidz_verify_parity_if b io u0 h env0") auto
  consider (none) "re_data ?e = 0" | (one) "re_data ?e = 1" | (two) "re_data ?e = 2"
    using num few errors_of(1) [of rm] f12 by linarith
  then show ?thesis
  proof cases
    case none
    have "rm_data rm c = rm_data g c" if "?f \<le> c" "c < rm_cols g" for c
      using none dat err_cols_simps(3) [of c ?f rm] that D(2,5) by simp
    then have io: "raidz_io_data rm = raidz_io_data g" by (intro same_words(2)) (simp_all add: D)
    have "re_numerrors ?e \<le> rm_firstdatacol rm - re_untried ?e" using num none par D(1) by simp
    then have "raidz_phase1 alloc verify io ?e rm env =
        Inl (raidz_verify_parity_if (re_parity ?e + re_untried ?e < rm_firstdatacol rm \<or> rz_resilver io) io (re_unexpected ?e) rm env)"
      unfolding raidz_phase1_def using none ver by (simp add: io)
    then show ?thesis using done1 [OF f0 io] by fastforce
  next
    case one
    then obtain x where x: "?f \<le> x" "x < rm_cols rm" "rc_error (rm_col rm ! x) \<noteq> 0" "raidz_find_error ?f rm = x"
      and others: "\<forall>c. ?f \<le> c \<longrightarrow> c < rm_cols rm \<longrightarrow> c \<noteq> x \<longrightarrow> rc_error (rm_col rm ! c) = 0"
      using err_cols_one [of ?f rm] dat by auto
    have tr: "\<forall>c < ?f. rc_error (rm_col rm ! c) = 0 \<longrightarrow> rc_tried (rm_col rm ! c)" using tried x D(2) by auto
    have "re_untried ?e = 0" using tr len unfolding errors_of(5) D(1) by (auto simp: filter_empty_conv in_set_conv_nth)
    then have cond: "re_numerrors ?e \<le> rm_firstdatacol rm - re_untried ?e" using few errors_of(1) [of rm] D(1) by simp
    have ok: "\<forall>c. ?f \<le> c \<longrightarrow> c < rm_cols g \<longrightarrow> c \<noteq> x \<longrightarrow> rm_data rm c = rm_data g c" using others D by auto
    have xg: "x < rm_cols g" using x D(2) by simp
    let ?h = "rm_set_data x (rm_data g x) rm"
    have hio: "raidz_io_data ?h = raidz_io_data g" by (rule healed_one(3) [OF w d x(1) xg ok])
    have rec: "(if rc_error (rm_col rm ! VDEV_RAIDZ_P) = 0 then vdev_raidz_reconstruct_p rm x else vdev_raidz_reconstruct_q rm x) = ?h"
    proof (cases "rc_error (rm_col rm ! 0) = 0")
      case True
      then have "rm_data rm 0 = rm_data g 0" using tr W(1,2) by (intro D(5)) auto
      then show ?thesis using True heal_p [OF w d x(1) xg ok] by (simp add: VDEV_RAIDZ_P_def)
    next
      case False
      have "0 < re_parity ?e" unfolding errors_of(4) D(1) using False mem [OF W(1)] by (auto simp: filter_empty_conv)
      then have two: "?f = 2" "re_parity ?e = 1" using num one few errors_of(1) [of rm] f12 by linarith+
      have "rc_error (rm_col rm ! 1) = 0"
      proof (rule ccontr)
        assume "rc_error (rm_col rm ! 1) \<noteq> 0"
        moreover have "take ?f (rm_col rm) = [rm_col rm ! 0, rm_col rm ! 1]"
          using len unfolding two(1) by (intro nth_equalityI) (auto simp: less_Suc_eq numeral_2_eq_2)
        ultimately show False using False two(2) unfolding errors_of(4) D(1) by simp
      qed
      then have "rm_data rm 1 = rm_data g 1" using tr W(2) two(1) by (intro D(5)) auto
      then show ?thesis using False heal_q [OF w two(1) d x(1) xg ok] by (simp add: VDEV_RAIDZ_P_def)
    qed
    have fh: "0 < rm_firstdatacol ?h" using f0 by simp
    show ?thesis unfolding raidz_phase1_def using cond one ver done1 [OF fh hio]
      by (simp add: Let_def D(1) x(4) rec [unfolded D(1)] hio)
  next
    case two
    then have f2: "?f = 2" and p0: "re_parity ?e = 0" using num few errors_of(1) [of rm] f12 by linarith+
    obtain x y where x: "?f \<le> x" "x < y" "y < rm_cols rm" "rc_error (rm_col rm ! x) \<noteq> 0"
      "raidz_find_error ?f rm = x" "raidz_find_error (x + 1) rm = y"
      and others: "\<forall>c. ?f \<le> c \<longrightarrow> c < rm_cols rm \<longrightarrow> c \<noteq> x \<longrightarrow> c \<noteq> y \<longrightarrow> rc_error (rm_col rm ! c) = 0"
      using err_cols_two [of ?f rm] two dat by auto
    have xg: "x < rm_cols g" "y < rm_cols g" using x D(2) by simp_all
    have tr: "\<forall>c < ?f. rc_error (rm_col rm ! c) = 0 \<longrightarrow> rc_tried (rm_col rm ! c)" using tried x xg by auto
    have "re_untried ?e = 0" using tr len unfolding errors_of(5) D(1) by (auto simp: filter_empty_conv in_set_conv_nth)
    then have cond: "re_numerrors ?e \<le> rm_firstdatacol rm - re_untried ?e" using few errors_of(1) [of rm] D(1) by simp
    have pe: "rc_error (rm_col rm ! c) = 0" if "c < 2" for c
      using mem [of c] that f2 p0 unfolding errors_of(4) D(1) by (auto simp: filter_empty_conv)
    have PQ: "rm_data rm 0 = rm_data g 0" "rm_data rm 1 = rm_data g 1" using tr pe W(2) f2 by (auto intro!: D(5))
    have ok: "\<forall>c. 2 \<le> c \<longrightarrow> c < rm_cols g \<longrightarrow> c \<noteq> x \<longrightarrow> c \<noteq> y \<longrightarrow> rm_data rm c = rm_data g c" using others D f2 by auto
    let ?h = "rm_set_data y (rm_data g y) (rm_set_data x (rm_data g x) rm)"
    have rec: "vdev_raidz_reconstruct_pq alloc rm x y = ?h"
      using heal_pq [OF w f2 d _ x(2) xg(2) ok PQ alloc] x(1) f2 by simp
    have hio: "raidz_io_data ?h = raidz_io_data g"
      using io_data_two [OF D(1,2) x(1,2) xg(2)] ok f2 by simp
    show ?thesis unfolding raidz_phase1_def using cond two ver by (simp add: Let_def D(1) x(5) x(6) [simplified] rec hio)
  qed
qed

subsection \<open>A whole read\<close>

text \<open>The children carry out the reads issued: \<open>err\<close> is the result for a column, and \<open>got\<close>
  what is then in its buffer.\<close>

definition raidz_children :: "(nat \<Rightarrow> int) \<Rightarrow> (nat \<Rightarrow> u64 list) \<Rightarrow> nat list \<Rightarrow> raidz_map \<Rightarrow> raidz_map" where
  "raidz_children err got cs rm =
     foldl (\<lambda>rm c. rm_upd c (\<lambda>rc. vdev_raidz_child_done (err c) (rc\<lparr>rc_data := got c\<rparr>)) rm) rm cs"

text \<open>A read: it is started, its children complete, and if the first completion issues the
  columns not yet tried, these complete and it is entered again.\<close>

definition raidz_read ::
    "(u64 \<Rightarrow> u64 list) \<Rightarrow> (u64 list \<Rightarrow> int) \<Rightarrow> bool \<Rightarrow> (u64 \<Rightarrow> bool) \<Rightarrow> (u64 \<Rightarrow> bool) \<Rightarrow> raidz_zio \<Rightarrow>
      (nat \<Rightarrow> int) \<Rightarrow> (nat \<Rightarrow> u64 list) \<Rightarrow> raidz_map \<Rightarrow> raidz_env \<Rightarrow> raidz_result" where
  "raidz_read alloc verify fwrite dead stale io err got rm env =
     (case vdev_raidz_io_start dead stale io rm of (rm, cs) \<Rightarrow>
      case vdev_raidz_io_done alloc verify fwrite io (raidz_children err got cs rm) env of
        Raidz_reread rm cs \<Rightarrow> vdev_raidz_io_done alloc verify fwrite io (raidz_children err got cs rm) env
      | r \<Rightarrow> r)"

lemma rm_upd_nth: "c < rm_cols rm \<Longrightarrow> rm_col (rm_upd c f rm) ! c' = (if c' = c then f (rm_col rm ! c) else rm_col rm ! c')"
  by (simp add: rm_upd_def rm_cols_def)

lemma count_missing_simps [simp]:
  "rm_col (raidz_count_missing c rm) = rm_col rm" "rm_cols (raidz_count_missing c rm) = rm_cols rm"
  "rm_firstdatacol (raidz_count_missing c rm) = rm_firstdatacol rm"
  "rm_missingdata (raidz_count_missing c rm) = rm_missingdata rm + (if rm_firstdatacol rm \<le> c then 1 else 0)"
  by (simp_all add: raidz_count_missing_def rm_cols_def)

lemma rm_upd_missing [simp]: "rm_missingdata (rm_upd c f rm) = rm_missingdata rm"
  by (simp add: rm_upd_def)

lemma children_nth:
  assumes "distinct cs" "\<forall>c \<in> set cs. c < rm_cols rm"
  shows "rm_col (raidz_children err got cs rm) ! c =
      (if c \<in> set cs then vdev_raidz_child_done (err c) ((rm_col rm ! c)\<lparr>rc_data := got c\<rparr>) else rm_col rm ! c)"
    "rm_firstdatacol (raidz_children err got cs rm) = rm_firstdatacol rm" "rm_cols (raidz_children err got cs rm) = rm_cols rm"
  using assms
proof (induction cs arbitrary: rm)
  case (Cons a cs)
  {
    case 1
    then show ?case using Cons.IH(1) [of "rm_upd a (\<lambda>rc. vdev_raidz_child_done (err a) (rc\<lparr>rc_data := got a\<rparr>)) rm"]
      by (auto simp: raidz_children_def rm_upd_nth)
  next
    case 2
    then show ?case using Cons.IH(2) [of "rm_upd a (\<lambda>rc. vdev_raidz_child_done (err a) (rc\<lparr>rc_data := got a\<rparr>)) rm"]
      by (auto simp: raidz_children_def)
  next
    case 3
    then show ?case using Cons.IH(3) [of "rm_upd a (\<lambda>rc. vdev_raidz_child_done (err a) (rc\<lparr>rc_data := got a\<rparr>)) rm"]
      by (auto simp: raidz_children_def)
  }
qed (simp_all add: raidz_children_def)

text \<open>What starting a read does to a column, and which columns it issues.\<close>

definition skip_col :: "(u64 \<Rightarrow> bool) \<Rightarrow> (u64 \<Rightarrow> bool) \<Rightarrow> raidz_col \<Rightarrow> raidz_col" where
  "skip_col dead stale rc =
     (if dead (rc_devidx rc) then rc\<lparr>rc_error := ENXIO, rc_tried := True, rc_skipped := True\<rparr>
      else if stale (rc_devidx rc) then rc\<lparr>rc_error := ESTALE, rc_skipped := True\<rparr> else rc)"

lemma skip_col_devidx [simp]: "rc_devidx (skip_col dead stale rc) = rc_devidx rc"
  by (simp add: skip_col_def)

definition away :: "(u64 \<Rightarrow> bool) \<Rightarrow> (u64 \<Rightarrow> bool) \<Rightarrow> raidz_map \<Rightarrow> nat \<Rightarrow> bool" where
  "away dead stale rm c \<longleftrightarrow> dead (rc_devidx (rm_col rm ! c)) \<or> stale (rc_devidx (rm_col rm ! c))"

lemma read_loop_append:
  "raidz_read_loop dead stale scrub (xs @ ys) rm is =
     (case raidz_read_loop dead stale scrub xs rm is of (rm, is) \<Rightarrow> raidz_read_loop dead stale scrub ys rm is)"
  by (cases scrub; induction xs arbitrary: rm "is") (simp_all add: Let_def)

lemma read_loop_data:
  assumes "distinct cs" "\<forall>c \<in> set cs. c < rm_cols rm" "(\<forall>c \<in> set cs. rm_firstdatacol rm \<le> c) \<or> (\<forall>c \<in> set cs. c < rm_firstdatacol rm)"
    and "raidz_read_loop dead stale scrub cs rm is = (rm', is')"
  shows "rm_firstdatacol rm' = rm_firstdatacol rm \<and> rm_cols rm' = rm_cols rm \<and>
    (\<forall>c. rm_col rm' ! c = (if c \<in> set cs then skip_col dead stale (rm_col rm ! c) else rm_col rm ! c)) \<and>
    (rm_missingdata rm' > 0 \<longleftrightarrow> rm_missingdata rm > 0 \<or> (\<exists>c \<in> set cs. rm_firstdatacol rm \<le> c \<and> away dead stale rm c)) \<and>
    is' = is @ filter (\<lambda>c. \<not> away dead stale rm c \<and> (rm_firstdatacol rm \<le> c \<or> rm_missingdata rm > 0 \<or> scrub)) cs"
  using assms
proof (induction cs arbitrary: rm "is")
  case (Cons a cs)
  let ?rc = "rm_col rm ! a" and ?f = "rm_firstdatacol rm"
  have a: "a < rm_cols rm" "a \<notin> set cs" using Cons.prems by auto
  obtain rm1 is1 where step: "raidz_read_loop dead stale scrub cs rm1 is1 = (rm', is')"
    and c1: "rm_firstdatacol rm1 = ?f" "rm_cols rm1 = rm_cols rm" "\<And>c. rm_col rm1 ! c = (if c = a then skip_col dead stale ?rc else rm_col rm ! c)"
      "rm_missingdata rm1 > 0 \<longleftrightarrow> rm_missingdata rm > 0 \<or> (?f \<le> a \<and> away dead stale rm a)"
      "is1 = is @ (if \<not> away dead stale rm a \<and> (?f \<le> a \<or> rm_missingdata rm > 0 \<or> scrub) then [a] else [])"
  proof (cases "dead (rc_devidx ?rc)"; cases "stale (rc_devidx ?rc)")
    assume "dead (rc_devidx ?rc)" "stale (rc_devidx ?rc)"
    then show ?thesis using Cons.prems(4) a(1)
      by (intro that [of "rm_upd a (\<lambda>rc. rc\<lparr>rc_error := ENXIO, rc_tried := True, rc_skipped := True\<rparr>) (raidz_count_missing a rm)" "is"])
        (auto simp: skip_col_def away_def rm_upd_nth Let_def)
  next
    assume "dead (rc_devidx ?rc)" "\<not> stale (rc_devidx ?rc)"
    then show ?thesis using Cons.prems(4) a(1)
      by (intro that [of "rm_upd a (\<lambda>rc. rc\<lparr>rc_error := ENXIO, rc_tried := True, rc_skipped := True\<rparr>) (raidz_count_missing a rm)" "is"])
        (auto simp: skip_col_def away_def rm_upd_nth Let_def)
  next
    assume "\<not> dead (rc_devidx ?rc)" "stale (rc_devidx ?rc)"
    then show ?thesis using Cons.prems(4) a(1)
      by (intro that [of "rm_upd a (\<lambda>rc. rc\<lparr>rc_error := ESTALE, rc_skipped := True\<rparr>) (raidz_count_missing a rm)" "is"])
        (auto simp: skip_col_def away_def rm_upd_nth Let_def)
  next
    assume n: "\<not> dead (rc_devidx ?rc)" "\<not> stale (rc_devidx ?rc)"
    then show ?thesis using Cons.prems(4)
      by (intro that [of rm "is @ (if ?f \<le> a \<or> rm_missingdata rm > 0 \<or> scrub then [a] else [])"])
        (auto simp: skip_col_def away_def Let_def split: if_splits)
  qed
  have aw: "away dead stale rm1 c = away dead stale rm c" for c by (simp add: away_def c1(3))
  have m: "rm_missingdata rm1 > 0 \<longleftrightarrow> rm_missingdata rm > 0" if "c \<in> set cs" "\<not> ?f \<le> c" for c
    using c1(4) that Cons.prems(3) by auto
  have "filter (\<lambda>c. \<not> away dead stale rm c \<and> (?f \<le> c \<or> rm_missingdata rm1 > 0 \<or> scrub)) cs =
      filter (\<lambda>c. \<not> away dead stale rm c \<and> (?f \<le> c \<or> rm_missingdata rm > 0 \<or> scrub)) cs"
    by (rule filter_cong [OF refl]) (use m in blast)
  then show ?case using Cons.IH [OF _ _ _ step] Cons.prems(1-3) a(2) by (auto simp: c1 aw)
qed auto

lemma io_start_read:
  assumes "rz_type io = ZIO_TYPE_READ" "rm_missingdata rm = 0" "rm_firstdatacol rm \<le> rm_cols rm"
    and "vdev_raidz_io_start dead stale io rm = (rm', cs)"
  defines "lost \<equiv> \<exists>c < rm_cols rm. rm_firstdatacol rm \<le> c \<and> away dead stale rm c"
  shows "rm_firstdatacol rm' = rm_firstdatacol rm" "rm_cols rm' = rm_cols rm"
    "c < rm_cols rm \<Longrightarrow> rm_col rm' ! c = skip_col dead stale (rm_col rm ! c)"
    "distinct cs" "set cs = {c. c < rm_cols rm \<and> \<not> away dead stale rm c \<and> (rm_firstdatacol rm \<le> c \<or> lost \<or> rz_scrub io)}"
proof -
  let ?f = "rm_firstdatacol rm"
  let ?ds = "rev [?f..<rm_cols rm]" and ?ps = "rev [0..<?f]"
  have sp: "rev [0..<rm_cols rm] = ?ds @ ?ps"
    using upt_add_eq_append [of 0 ?f "rm_cols rm - ?f"] assms(3) by simp
  obtain rm1 is1 where 1: "raidz_read_loop dead stale (rz_scrub io) ?ds rm [] = (rm1, is1)" by fastforce
  have d: "rm_firstdatacol rm1 = ?f" "rm_cols rm1 = rm_cols rm"
    "rm_col rm1 ! c = (if c \<in> set ?ds then skip_col dead stale (rm_col rm ! c) else rm_col rm ! c)"
    "rm_missingdata rm1 > 0 \<longleftrightarrow> lost" "is1 = filter (\<lambda>c. \<not> away dead stale rm c) ?ds" for c
    using read_loop_data [OF _ _ _ 1] assms(2) by (auto simp: lost_def intro!: filter_cong)
  have 2: "raidz_read_loop dead stale (rz_scrub io) ?ps rm1 is1 = (rm', cs)"
    using assms(1,4) 1 by (simp add: vdev_raidz_io_start_def sp read_loop_append)
  have aw: "away dead stale rm1 c = away dead stale rm c" for c by (simp add: away_def d(3))
  have p: "rm_firstdatacol rm' = ?f" "rm_cols rm' = rm_cols rm"
    "rm_col rm' ! c = (if c \<in> set ?ps then skip_col dead stale (rm_col rm1 ! c) else rm_col rm1 ! c)"
    "cs = is1 @ filter (\<lambda>c. \<not> away dead stale rm c \<and> (lost \<or> rz_scrub io)) ?ps" for c
    using read_loop_data [OF _ _ _ 2] assms(3) by (auto simp: d(1,2,4) aw intro!: filter_cong)
  show "rm_firstdatacol rm' = ?f" "rm_cols rm' = rm_cols rm" by (fact p)+
  show "c < rm_cols rm \<Longrightarrow> rm_col rm' ! c = skip_col dead stale (rm_col rm ! c)" using d(3) p(3) by auto
  show "distinct cs" unfolding p(4) d(5) by auto
  show "set cs = {c. c < rm_cols rm \<and> \<not> away dead stale rm c \<and> (?f \<le> c \<or> lost \<or> rz_scrub io)}"
    unfolding p(4) d(5) using assms(3) by auto
qed

text \<open>The map of a read before it is started: the shape of the block written, and no column
  tried.\<close>

definition raidz_fresh :: "raidz_map \<Rightarrow> raidz_map \<Rightarrow> bool" where
  "raidz_fresh g rm \<longleftrightarrow> rm_firstdatacol rm = rm_firstdatacol g \<and> rm_cols rm = rm_cols g \<and> rm_missingdata rm = 0 \<and>
     (\<forall>c < rm_cols g. rc_size (rm_col rm ! c) = rc_size (rm_col g ! c) \<and> length (rm_data rm c) = rm_count g c \<and>
        rc_error (rm_col rm ! c) = 0 \<and> \<not> rc_tried (rm_col rm ! c))"

text \<open>The columns that do not come back.\<close>

definition raidz_failed :: "(u64 \<Rightarrow> bool) \<Rightarrow> (u64 \<Rightarrow> bool) \<Rightarrow> (nat \<Rightarrow> int) \<Rightarrow> raidz_map \<Rightarrow> nat list" where
  "raidz_failed dead stale err rm = filter (\<lambda>c. away dead stale rm c \<or> err c \<noteq> 0) [0..<rm_cols rm]"

lemma few_errors:
  assumes "\<And>c. c < rm_cols rm \<Longrightarrow> rc_error (rm_col rm ! c) \<noteq> 0 \<Longrightarrow> P c"
  shows "length (filter (\<lambda>rc. rc_error rc \<noteq> 0) (rm_col rm)) \<le> length (filter P [0..<rm_cols rm])"
proof -
  have "length (filter (\<lambda>rc. rc_error rc \<noteq> 0) (rm_col rm)) = length (err_cols 0 rm)" using err_cols_simps(1) [of 0 rm] by simp
  also have "\<dots> = card (set (err_cols 0 rm))" by (rule distinct_card [symmetric]) (simp add: err_cols_def)
  also have "\<dots> \<le> card (set (filter P [0..<rm_cols rm]))" using assms by (intro card_mono) (auto simp: err_cols_def)
  also have "\<dots> = length (filter P [0..<rm_cols rm])" by (rule distinct_card) simp
  finally show ?thesis .
qed

lemma io_done_survives:
  assumes "rz_type io = ZIO_TYPE_READ" and w: "raidz_written g" and d: "raidz_damaged g rm" and alloc: "\<And>s. length (alloc s) = unat s div 8"
    and few: "length (filter (\<lambda>rc. rc_error rc \<noteq> 0) (rm_col rm)) \<le> rm_firstdatacol g"
    and tried: "(\<exists>c. rm_firstdatacol g \<le> c \<and> c < rm_cols g \<and> rc_error (rm_col rm ! c) \<noteq> 0) \<longrightarrow>
      (\<forall>c < rm_firstdatacol g. rc_error (rm_col rm ! c) = 0 \<longrightarrow> rc_tried (rm_col rm ! c))"
    and ver: "verify (raidz_io_data g) = 0"
  shows "\<exists>rm' env' repairs. vdev_raidz_io_done alloc verify fwrite io rm env = Raidz_done 0 rm' env' repairs \<and> raidz_io_data rm' = raidz_io_data g"
proof -
  obtain u rm' env' where "raidz_phase1 alloc verify io (raidz_errors_of rm) rm env = Inl (u, rm', env')" "raidz_io_data rm' = raidz_io_data g"
    using damaged_phase1 [where verify = verify, OF w d alloc few tried ver] by blast
  then show ?thesis using assms(1) by (simp add: vdev_raidz_io_done_def Let_def raidz_finish_def)
qed

lemma phase1_gives_up:
  assumes "\<And>c. c < rm_firstdatacol rm \<Longrightarrow> rc_error (rm_col rm ! c) \<noteq> 0 \<or> \<not> rc_tried (rm_col rm ! c)" "rm_firstdatacol rm \<le> rm_cols rm"
    and "rm_firstdatacol rm \<le> x" "x < rm_cols rm" "rc_error (rm_col rm ! x) \<noteq> 0"
  shows "raidz_phase1 alloc verify io (raidz_errors_of rm) rm env = Inr rm"
proof -
  let ?e = "raidz_errors_of rm" and ?f = "rm_firstdatacol rm" and ?ps = "take (rm_firstdatacol rm) (rm_col rm)"
  have "\<forall>rc \<in> set ?ps. rc_error rc \<noteq> 0 \<or> \<not> rc_tried rc"
    using assms(1) by (auto simp: in_set_conv_nth)
  then have "filter (\<lambda>rc. \<not> rc_error rc \<noteq> 0) ?ps = filter (\<lambda>rc. rc_error rc = 0 \<and> \<not> rc_tried rc) ?ps"
    by (intro filter_cong) auto
  then have "re_parity ?e + re_untried ?e = length ?ps"
    using sum_length_filter_compl [of "\<lambda>rc. rc_error rc \<noteq> 0" ?ps] unfolding errors_of(4,5) by simp
  then have par: "re_parity ?e + re_untried ?e = ?f" using assms(2) by (simp add: rm_cols_def)
  have "x \<in> set (err_cols ?f rm)" using assms(3-5) by (simp add: err_cols_simps(3))
  then have "0 < re_data ?e" unfolding errors_of(3) err_cols_simps(1) by (rule length_pos_if_in_set)
  moreover have "re_numerrors ?e = re_parity ?e + re_data ?e"
    unfolding errors_of(1,3,4) by (rule filter_append_length)
  ultimately have "\<not> re_numerrors ?e \<le> ?f - re_untried ?e" using par by linarith
  then show ?thesis by (simp only: raidz_phase1_def if_False)
qed

text \<open>The map after the children of a read completed, where the parity was read if \<open>par\<close>.\<close>

definition raidz_after ::
    "(u64 \<Rightarrow> bool) \<Rightarrow> (u64 \<Rightarrow> bool) \<Rightarrow> (nat \<Rightarrow> int) \<Rightarrow> (nat \<Rightarrow> u64 list) \<Rightarrow> bool \<Rightarrow> raidz_map \<Rightarrow> raidz_map \<Rightarrow> bool" where
  "raidz_after dead stale err got par rm rm1 \<longleftrightarrow> rm_firstdatacol rm1 = rm_firstdatacol rm \<and> rm_cols rm1 = rm_cols rm \<and>
     (\<forall>c < rm_cols rm. rm_col rm1 ! c =
        (if away dead stale rm c then skip_col dead stale (rm_col rm ! c)
         else if rm_firstdatacol rm \<le> c \<or> par then vdev_raidz_child_done (err c) ((rm_col rm ! c)\<lparr>rc_data := got c\<rparr>)
         else rm_col rm ! c))"

lemma raidz_afterD:
  assumes "raidz_after dead stale err got par rm rm1" "c < rm_cols rm"
  shows "rc_size (rm_col rm1 ! c) = rc_size (rm_col rm ! c)"
    "rm_data rm1 c = (if \<not> away dead stale rm c \<and> (rm_firstdatacol rm \<le> c \<or> par) then got c else rm_data rm c)"
    "rc_error (rm_col rm1 ! c) = (if away dead stale rm c then if dead (rc_devidx (rm_col rm ! c)) then ENXIO else ESTALE
       else if rm_firstdatacol rm \<le> c \<or> par then err c else rc_error (rm_col rm ! c))"
    "rc_tried (rm_col rm1 ! c) \<longleftrightarrow> dead (rc_devidx (rm_col rm ! c)) \<or> \<not> away dead stale rm c \<and> (rm_firstdatacol rm \<le> c \<or> par) \<or> rc_tried (rm_col rm ! c)"
  using assms by (auto simp: raidz_after_def rm_data_def skip_col_def away_def vdev_raidz_child_done_def)

lemma raidz_after_shape:
  assumes "raidz_after dead stale err got par rm rm1" "raidz_fresh g rm"
  shows "rm_firstdatacol rm1 = rm_firstdatacol g" "rm_cols rm1 = rm_cols g" "rm_firstdatacol rm = rm_firstdatacol g" "rm_cols rm = rm_cols g"
  using assms by (simp_all add: raidz_after_def raidz_fresh_def)

lemma after_damaged:
  assumes a: "raidz_after dead stale err got par rm rm1" and fr: "raidz_fresh g rm"
    and got: "\<forall>c < rm_cols g. length (got c) = rm_count g c \<and> (err c = 0 \<longrightarrow> got c = rm_data g c)"
    and few: "length (raidz_failed dead stale err rm) \<le> rm_firstdatacol g"
  shows "raidz_damaged g rm1" "length (filter (\<lambda>rc. rc_error rc \<noteq> 0) (rm_col rm1)) \<le> rm_firstdatacol g"
proof -
  note F = raidz_after_shape [OF a fr]
  have C: "rc_size (rm_col rm ! c) = rc_size (rm_col g ! c)" "length (rm_data rm c) = rm_count g c"
    "rc_error (rm_col rm ! c) = 0" "\<not> rc_tried (rm_col rm ! c)" if "c < rm_cols g" for c
    using fr that by (simp_all add: raidz_fresh_def)
  have D: "c < rm_cols g \<Longrightarrow> c < rm_cols rm" for c by (simp add: F)
  note A = raidz_afterD [OF a D]
  show "raidz_damaged g rm1" unfolding raidz_damaged_def
    using F A C got by (auto simp: ENXIO_def ESTALE_def away_def split: if_splits)
  have "rc_error (rm_col rm1 ! c) \<noteq> 0 \<Longrightarrow> away dead stale rm c \<or> err c \<noteq> 0" if "c < rm_cols rm1" for c
    using A(3) [of c] C(3) [of c] that F by (auto split: if_splits)
  from few_errors [of rm1 "\<lambda>c. away dead stale rm c \<or> err c \<noteq> 0", OF this] show "length (filter (\<lambda>rc. rc_error rc \<noteq> 0) (rm_col rm1)) \<le> rm_firstdatacol g"
    using few by (simp add: raidz_failed_def F)
qed

lemma after_start:
  assumes io: "rz_type io = ZIO_TYPE_READ" and fr: "raidz_fresh g rm" and wf: "raidz_wf g"
    and start: "vdev_raidz_io_start dead stale io rm = (rm0, cs)"
  shows "raidz_after dead stale err got ((\<exists>c < rm_cols rm. rm_firstdatacol rm \<le> c \<and> away dead stale rm c) \<or> rz_scrub io)
    rm (raidz_children err got cs rm0)"
proof -
  have F: "rm_missingdata rm = 0" "rm_firstdatacol rm \<le> rm_cols rm"
    using fr raidz_wfD(2) [OF wf] by (simp_all add: raidz_fresh_def)
  note st = io_start_read [OF io F start]
  have lt: "\<forall>c \<in> set cs. c < rm_cols rm0" using st(5) st(2) by simp
  show ?thesis unfolding raidz_after_def
    using children_nth [OF st(4) lt, of err got] st by (auto simp: skip_col_def away_def)
qed

lemma after_reread:
  assumes io: "rz_type io = ZIO_TYPE_READ" and a: "raidz_after dead stale err got False rm rm1" and fr: "raidz_fresh g rm" and wf: "raidz_wf g"
    and few: "length (raidz_failed dead stale err rm) \<le> rm_firstdatacol g"
    and ns: "\<forall>c < rm_cols g. \<not> stale (rc_devidx (rm_col rm ! c))"
    and x: "rm_firstdatacol g \<le> x" "x < rm_cols g" "rc_error (rm_col rm1 ! x) \<noteq> 0"
  shows "\<exists>r cs. vdev_raidz_io_done alloc verify fwrite io rm1 env = Raidz_reread r cs \<and>
    raidz_after dead stale err got True rm (raidz_children err got cs r)"
proof -
  note F = raidz_after_shape [OF a fr] and W = raidz_wfD [OF wf]
  have C: "rc_error (rm_col rm ! c) = 0" "\<not> rc_tried (rm_col rm ! c)" if "c < rm_cols g" for c
    using fr that by (simp_all add: raidz_fresh_def)
  have D: "c < rm_cols g \<Longrightarrow> c < rm_cols rm" for c by (simp add: F)
  note A = raidz_afterD [OF a D]
  let ?f = "rm_firstdatacol g" and ?r = "rm1\<lparr>rm_missingdata := 0, rm_missingparity := 0\<rparr>"
  let ?away = "away dead stale rm"
  define un where "un = filter (\<lambda>c. \<not> rc_tried (rm_col rm1 ! c)) [0..<rm_cols rm1]"
  have un: "c \<in> set un \<longleftrightarrow> c < ?f \<and> \<not> ?away c" if "c < rm_cols g" for c
    using that A(4) [OF that] C(2) [OF that] ns by (auto simp: un_def F away_def)
  have p1: "raidz_phase1 alloc verify io (raidz_errors_of rm1) rm1 env = Inr rm1"
    by (rule phase1_gives_up [where x = x])
      (use x W(2) A(3,4) C in \<open>auto simp: F away_def ENXIO_def ESTALE_def split: if_splits\<close>)
  have "un \<noteq> []"
  proof
    assume "un = []"
    then have "\<forall>c < ?f. ?away c" using un W(2) by force
    moreover have "?away x \<or> err x \<noteq> 0" using A(3) [OF x(2)] x C(1) [OF x(2)] by (auto split: if_splits)
    ultimately have "set (x # [0..<?f]) \<subseteq> set (raidz_failed dead stale err rm)"
      using x W(2) by (auto simp: raidz_failed_def F)
    then have "card (set (x # [0..<?f])) \<le> card (set (raidz_failed dead stale err rm))" by (intro card_mono) simp_all
    also have "\<dots> \<le> ?f" using few card_length le_trans by blast
    finally show False using x(1) by simp
  qed
  then have "vdev_raidz_io_done alloc verify fwrite io rm1 env = Raidz_reread ?r un"
    using io p1 by (simp add: vdev_raidz_io_done_def Let_def un_def rm_cols_def)
  moreover have "raidz_after dead stale err got True rm (raidz_children err got un ?r)"
  proof -
    have l: "\<forall>c \<in> set un. c < rm_cols ?r" "distinct un" by (auto simp: un_def rm_cols_def)
    show ?thesis unfolding raidz_after_def
      using children_nth [OF l(2,1), of err got] un a x F by (auto simp: raidz_after_def rm_cols_def)
  qed
  ultimately show ?thesis by blast
qed

lemma raidz_read_survives_fresh:
  assumes io: "rz_type io = ZIO_TYPE_READ" and w: "raidz_written g" and fr: "raidz_fresh g rm"
    and alloc: "\<And>s. length (alloc s) = unat s div 8" and ver: "verify (raidz_io_data g) = 0"
    and got: "\<forall>c < rm_cols g. length (got c) = rm_count g c \<and> (err c = 0 \<longrightarrow> got c = rm_data g c)"
    and few: "length (raidz_failed dead stale err rm) \<le> rm_firstdatacol g"
    and stale: "(\<forall>c < rm_cols g. \<not> stale (rc_devidx (rm_col rm ! c))) \<or> (\<forall>c < rm_cols g. err c = 0)"
  shows "\<exists>rm' env' repairs. raidz_read alloc verify fwrite dead stale io err got rm env = Raidz_done 0 rm' env' repairs \<and>
    raidz_io_data rm' = raidz_io_data g"
proof -
  have wf: "raidz_wf g" using w by (simp add: raidz_written_def)
  let ?f = "rm_firstdatacol g"
  define par where "par \<longleftrightarrow> (\<exists>c < rm_cols rm. rm_firstdatacol rm \<le> c \<and> away dead stale rm c) \<or> rz_scrub io"
  obtain rm0 cs where start: "vdev_raidz_io_start dead stale io rm = (rm0, cs)" by fastforce
  define rm1 where "rm1 = raidz_children err got cs rm0"
  have a: "raidz_after dead stale err got par rm rm1"
    using after_start [OF io fr wf start] by (simp add: par_def rm1_def)
  note F = raidz_after_shape [OF a fr]
  have survive: "\<exists>rm' env' repairs. vdev_raidz_io_done alloc verify fwrite io r env = Raidz_done 0 rm' env' repairs \<and> raidz_io_data rm' = raidz_io_data g"
    if r: "raidz_after dead stale err got p rm r" and p: "p \<or> (\<forall>c < rm_cols g. ?f \<le> c \<longrightarrow> rc_error (rm_col r ! c) = 0)" for r p
  proof (rule io_done_survives [where verify = verify, OF io w after_damaged(1) [OF r fr got few] alloc after_damaged(2) [OF r fr got few] _ ver])
    have "rc_tried (rm_col r ! c)" if "p" "c < ?f" "rc_error (rm_col r ! c) = 0" for c
      using raidz_afterD(3,4) [OF r, of c] that raidz_wfD(2) [OF wf] F
      by (auto simp: away_def ENXIO_def ESTALE_def split: if_splits)
    then show "(\<exists>c. ?f \<le> c \<and> c < rm_cols g \<and> rc_error (rm_col r ! c) \<noteq> 0) \<longrightarrow>
        (\<forall>c < ?f. rc_error (rm_col r ! c) = 0 \<longrightarrow> rc_tried (rm_col r ! c))" using p by blast
  qed
  show ?thesis
  proof (cases "par \<or> (\<forall>c < rm_cols g. ?f \<le> c \<longrightarrow> rc_error (rm_col rm1 ! c) = 0)")
    case True
    then obtain rm' env' repairs where "vdev_raidz_io_done alloc verify fwrite io rm1 env = Raidz_done 0 rm' env' repairs"
      "raidz_io_data rm' = raidz_io_data g" using survive [OF a] by blast
    then show ?thesis by (simp add: raidz_read_def start rm1_def)
  next
    case False
    then obtain x where x: "?f \<le> x" "x < rm_cols g" "rc_error (rm_col rm1 ! x) \<noteq> 0" and np: "\<not> par" by blast
    have a0: "raidz_after dead stale err got False rm rm1" using a np by simp
    have "\<not> away dead stale rm x" using np x F by (auto simp: par_def)
    then have "err x \<noteq> 0" using x raidz_afterD(3) [OF a, of x] F by simp
    then have "\<forall>c < rm_cols g. \<not> stale (rc_devidx (rm_col rm ! c))" using stale x(2) by blast
    then obtain r un where r: "vdev_raidz_io_done alloc verify fwrite io rm1 env = Raidz_reread r un"
      "raidz_after dead stale err got True rm (raidz_children err got un r)"
      using after_reread [OF io a0 fr wf few _ x] by blast
    then show ?thesis using survive [OF r(2)] by (simp add: raidz_read_def start rm1_def [symmetric])
  qed
qed

subsection \<open>Reading back what was written\<close>

definition rc_state :: "raidz_col \<Rightarrow> u64 \<times> int \<times> bool" where
  "rc_state rc = (rc_size rc, rc_error rc, rc_tried rc)"

lemma rc_state_simps [simp]: "rc_state (rc\<lparr>rc_data := d\<rparr>) = rc_state rc" "rc_state (rc\<lparr>rc_devidx := i, rc_offset := k\<rparr>) = rc_state rc"
  by (simp_all add: rc_state_def)

lemma map_alloc_state:
  assumes io: "raidz_io sz dat u dcols nparity"
  shows "map rc_state (rm_col (vdev_raidz_map_alloc alloc offset sz dat u dcols nparity)) = map rc_state (lay_cols offset sz u dcols nparity)"
proof -
  let ?cs = "lay_cols offset sz u dcols nparity"
  have as: "map rc_state (raidz_assign_data d cs) = map rc_state cs" for d cs by (induction cs arbitrary: d) simp_all
  have ds: "map rc_state (lay_data alloc dat nparity ?cs) = map rc_state ?cs"
  proof -
    have "map rc_state (lay_data alloc dat nparity ?cs) = map rc_state (take (unat nparity) ?cs @ drop (unat nparity) ?cs)"
      by (simp only: lay_data_def map_append as map_map comp_def rc_state_simps)
    then show ?thesis by simp
  qed
  have sw: "map rc_state (raidz_swap_parity cs) = map rc_state cs" if l: "2 \<le> length cs" for cs
  proof -
    obtain c0 c1 cs' where "cs = c0 # c1 # cs'" using l by (cases cs; cases "tl cs") auto
    then show ?thesis by (simp add: raidz_swap_parity_def Let_def)
  qed
  have "2 \<le> length (lay_data alloc dat nparity ?cs)"
    using ds lay_cols_simps(1) [OF io] lcols_facts(1) [OF io] raidz_ioD(7) [OF io] map_eq_imp_length_eq [OF ds] by simp
  then show ?thesis unfolding map_alloc_shape(3) [OF io] Let_def
    using ds sw [of "lay_data alloc dat nparity ?cs"] by (simp only: if_split [of "\<lambda>x. map rc_state x = _"]) simp
qed

lemma map_alloc_written:
  assumes io: "raidz_io sz dat u dcols nparity" and alloc: "\<And>s. length (alloc s) = unat s div 8"
    and g: "g = raidz_generate_parity (vdev_raidz_map_alloc alloc offset sz dat u dcols nparity)"
  shows "raidz_written g" "raidz_io_data g = dat" "rm_firstdatacol g = unat nparity" "rm_cols g = lcols sz u dcols nparity"
    "map rc_state (rm_col g) = map rc_state (lay_cols offset sz u dcols nparity)"
proof -
  let ?rm = "vdev_raidz_map_alloc alloc offset sz dat u dcols nparity"
  have wf: "raidz_wf ?rm" by (rule map_alloc_wf [OF io alloc])
  have f: "rm_firstdatacol ?rm = unat nparity" "rm_cols ?rm = lcols sz u dcols nparity"
    using map_alloc_shape(1) [OF io] map_alloc_cols [OF io] by simp_all
  have f0: "0 < rm_firstdatacol ?rm" using raidz_wfD(1) [OF wf] .
  show fg: "rm_firstdatacol g = unat nparity" "rm_cols g = lcols sz u dcols nparity" by (simp_all add: g f)
  show "raidz_io_data g = dat"
    using io_data_generate_parity [OF f0] map_alloc_data [OF io refl] by (simp add: g raidz_io_data_def)
  have "lcols sz u dcols nparity \<le> 256" using lcols_facts(2) [OF io] raidz_ioD(10) [OF io] by linarith
  moreover consider "unat nparity = 1" | "unat nparity = 2" using raidz_ioD(7,8) [OF io] by linarith
  ultimately show "raidz_written g"
    using generate_parity_p_ok [OF wf refl] generate_parity_pq_ok [OF wf _ refl] f fg
    by cases (auto simp: raidz_written_def g raidz_generate_parity_def)
  have upd: "map rc_state (rm_col (rm_set_data c d rm)) = map rc_state (rm_col rm)" for c d rm
    by (simp add: rm_set_data_def map_upd_same)
  have "map rc_state (rm_col g) = map rc_state (rm_col ?rm)"
    by (simp add: g raidz_generate_parity_def vdev_raidz_generate_parity_p_def vdev_raidz_generate_parity_pq_def Let_def upd split: prod.split)
  then show "map rc_state (rm_col g) = map rc_state (lay_cols offset sz u dcols nparity)"
    using map_alloc_state [OF io] by simp
qed

lemma map_alloc_fresh:
  assumes io: "raidz_io sz dat u dcols nparity" and alloc: "\<And>s. length (alloc s) = unat s div 8"
    and g: "g = raidz_generate_parity (vdev_raidz_map_alloc alloc offset sz dat u dcols nparity)"
    and buf: "length buf = length dat"
  shows "raidz_fresh g (vdev_raidz_map_alloc alloc offset sz buf u dcols nparity)"
proof -
  let ?rm = "vdev_raidz_map_alloc alloc offset sz buf u dcols nparity" and ?cs = "lay_cols offset sz u dcols nparity"
  have iob: "raidz_io sz buf u dcols nparity" using io buf by (simp add: raidz_io_def)
  note G = map_alloc_written [OF io alloc g]
  have rm: "rm_firstdatacol ?rm = unat nparity" "rm_cols ?rm = rm_cols g" "rm_missingdata ?rm = 0"
    using map_alloc_shape(1) [OF iob] map_alloc_cols [OF iob] G by (simp_all add: vdev_raidz_map_alloc_def Let_def)
  have len: "length ?cs = rm_cols g" using lay_cols_simps(1) [OF io] G(4) by simp
  have z: "rc_error rc = 0 \<and> \<not> rc_tried rc" if "rc \<in> set ?cs" for rc
    using that by (auto simp: lay_cols_def Let_def raidz_new_col_def split: prod.splits)
  show ?thesis unfolding raidz_fresh_def rm
  proof (intro conjI allI impI)
    fix c assume c: "c < rm_cols g"
    have s: "rc_state (rm_col g ! c) = rc_state (?cs ! c)" "rc_state (rm_col ?rm ! c) = rc_state (?cs ! c)"
      using arg_cong [OF G(5), of "\<lambda>xs. xs ! c"] arg_cong [OF map_alloc_state [OF iob, of alloc offset], of "\<lambda>xs. xs ! c"] c len rm(2)
      by (simp_all add: rm_cols_def)
    then show "rc_size (rm_col ?rm ! c) = rc_size (rm_col g ! c)" by (simp add: rc_state_def)
    then show "length (rm_data ?rm c) = rm_count g c"
      using raidz_wfD(3) [OF map_alloc_wf [OF iob alloc]] c rm(2) by (simp add: rm_count_def rc_count_def)
    show "rc_error (rm_col ?rm ! c) = 0" "\<not> rc_tried (rm_col ?rm ! c)"
      using s(2) z [of "?cs ! c"] c len by (auto simp: rc_state_def)
  qed (use G in simp_all)
qed

text \<open>C1: A RAID-Z device survives the failure of as many children as it has parity.  A block of
  data is laid out over the children and written with its parity.  When it is read back, up to
  that many of its columns do not come back: their child is dead or known to be stale, or the
  read of it fails.  Every other read gives what was written there.  Then the read ends without
  an error and with the data that were written, even where parity is only read in a second
  pass.  (If a child is stale, the reads themselves do not fail: a stale column is read
  like any other in the second pass.)\<close>

theorem raidz_survives_failures:
  assumes "raidz_io sz dat u dcols nparity" "length buf = length dat" "\<And>s. length (alloc s) = unat s div 8"
    and "rz_type wio = ZIO_TYPE_WRITE" "g = fst (vdev_raidz_io_start wdead wstale wio (vdev_raidz_map_alloc alloc offset sz dat u dcols nparity))"
    and "rz_type io = ZIO_TYPE_READ" "rm = vdev_raidz_map_alloc alloc offset sz buf u dcols nparity"
    and "\<forall>c < rm_cols g. length (got c) = rm_count g c \<and> (err c = 0 \<longrightarrow> got c = rm_data g c)"
    and "length (raidz_failed dead stale err rm) \<le> unat nparity"
    and "(\<forall>c < rm_cols g. \<not> stale (rc_devidx (rm_col rm ! c))) \<or> (\<forall>c < rm_cols g. err c = 0)"
    and "verify dat = 0"
  shows "\<exists>rm' env' repairs. raidz_read alloc verify fwrite dead stale io err got rm env = Raidz_done 0 rm' env' repairs \<and> raidz_io_data rm' = dat"
proof -
  have g: "g = raidz_generate_parity (vdev_raidz_map_alloc alloc offset sz dat u dcols nparity)"
    using assms(4,5) by (simp add: vdev_raidz_io_start_def)
  note G = map_alloc_written [OF assms(1,3) g]
  show ?thesis
    using raidz_read_survives_fresh [where verify = verify and got = got and rm = rm and alloc = alloc and dead = dead and fwrite = fwrite and env = env, OF assms(6) G(1) _ assms(3) _ assms(8) _ assms(10)]
      map_alloc_fresh [OF assms(1,3) g assms(2)] assms(7,9,11) by (simp add: G)
qed

definition example_rio :: "zio_type \<Rightarrow> raidz_zio" where
  "example_rio t = \<lparr>rz_type = t, rz_scrub = False, rz_speculative = False, rz_failfast = False, rz_resilver = False\<rparr>"

definition example_env :: raidz_env where
  "example_env = \<lparr>raidz_corrected_p = 0, raidz_corrected_q = 0, raidz_corrected_pq = 0, vs_checksum_errors = (\<lambda>_. 0), checksum_ereports = []\<rparr>"

definition example_verify :: "u64 list \<Rightarrow> int" where
  "example_verify d = (if d = [11, 22, 33, 44, 55] then 0 else ECKSUM)"

definition example_block :: raidz_map where
  "example_block = fst (vdev_raidz_io_start (\<lambda>_. False) (\<lambda>_. False) (example_rio ZIO_TYPE_WRITE) example_raidz)"

text \<open>The child of column 4 is dead and the read of column 3 fails.\<close>

definition example_err :: "nat \<Rightarrow> int" where "example_err c = (if c = 3 then EIO else 0)"
definition example_got :: "nat \<Rightarrow> u64 list" where "example_got c = (if c = 3 then [7, 7] else rm_data example_block c)"
definition example_buf :: raidz_map where
  "example_buf = vdev_raidz_map_alloc example_alloc 4096 40 [0, 0, 0, 0, 0] 3 5 2"

lemma example_block_eq: "example_block = raidz_generate_parity (vdev_raidz_map_alloc example_alloc 4096 40 [11, 22, 33, 44, 55] 3 5 2)"
  by (simp add: example_block_def vdev_raidz_io_start_def example_rio_def example_raidz_def)

lemma example_got: "\<forall>c < rm_cols example_block. length (example_got c) = rm_count example_block c \<and> (example_err c = 0 \<longrightarrow> example_got c = rm_data example_block c)"
proof -
  have "raidz_wf example_block"
    using map_alloc_written(1) [OF example_raidz_io length_example_alloc example_block_eq] by (simp add: raidz_written_def)
  from raidz_wfD(3) [OF this] show ?thesis by (auto simp: example_got_def example_err_def EIO_def) code_simp
qed

theorem raidz_survives_failures_witness:
  "\<exists>rm' env' repairs. raidz_read example_alloc example_verify True (\<lambda>d. d = 1) (\<lambda>_. False) (example_rio ZIO_TYPE_READ)
     example_err example_got example_buf example_env = Raidz_done 0 rm' env' repairs \<and> raidz_io_data rm' = [11, 22, 33, 44, 55]"
proof (rule raidz_survives_failures [OF example_raidz_io _ length_example_alloc, where g = example_block and offset = 4096 and buf = "[0, 0, 0, 0, 0]" and wio = "example_rio ZIO_TYPE_WRITE" and wdead = "\<lambda>_. False" and wstale = "\<lambda>_. False"])
  show "example_block = fst (vdev_raidz_io_start (\<lambda>_. False) (\<lambda>_. False) (example_rio ZIO_TYPE_WRITE) (vdev_raidz_map_alloc example_alloc 4096 40 [11, 22, 33, 44, 55] 3 5 2))"
    by (simp add: example_block_def example_raidz_def)
  show "length (raidz_failed (\<lambda>d. d = 1) (\<lambda>_. False) example_err example_buf) \<le> unat (2 :: u64)" by code_simp
qed (simp_all add: example_rio_def example_buf_def example_got example_verify_def)

text \<open>Column 3 comes back with an error.\<close>

definition example_read :: raidz_map where
  "example_read = raidz_children example_err example_got [0, 1, 2, 3, 4] example_buf"

theorem raidz_read_verified_witness:
  "case vdev_raidz_io_done example_alloc example_verify True (example_rio ZIO_TYPE_READ) example_read example_env of
     Raidz_done e rm' env' repairs \<Rightarrow> e = 0 \<and> example_verify (raidz_io_data rm') = 0
   | Raidz_reread rm' cs \<Rightarrow> False"
proof -
  have "case vdev_raidz_io_done example_alloc example_verify True (example_rio ZIO_TYPE_READ) example_read example_env of
     Raidz_done e rm' env' repairs \<Rightarrow> e = 0 | Raidz_reread rm' cs \<Rightarrow> False" by code_simp
  moreover have "0 < rm_firstdatacol example_read" by code_simp
  moreover have "rz_type (example_rio ZIO_TYPE_READ) = ZIO_TYPE_READ" by (simp add: example_rio_def)
  moreover note raidz_read_verified [of "example_rio ZIO_TYPE_READ" example_read example_alloc example_verify True example_env]
  ultimately show ?thesis by (cases "vdev_raidz_io_done example_alloc example_verify True (example_rio ZIO_TYPE_READ) example_read example_env") auto
qed

subsection \<open>Opening\<close>

abbreviation opened :: "raidz_child list \<Rightarrow> raidz_child list" where "opened cs \<equiv> filter (\<lambda>c. rv_open c = 0) cs"
abbreviation unopened :: "raidz_child list \<Rightarrow> raidz_child list" where "unopened cs \<equiv> filter (\<lambda>c. rv_open c \<noteq> 0) cs"

lemma open_loop:
  "raidz_open_loop cs asize ashift lasterror numerrors =
     (foldl min (asize - 1) (map (\<lambda>c. rv_asize c - 1) (opened cs)) + 1, foldl max ashift (map rv_ashift (opened cs)),
      last (lasterror # map rv_open (unopened cs)), numerrors + length (unopened cs))"
  by (induction cs arbitrary: asize ashift lasterror numerrors) simp_all

lemma foldl_min: "foldl min (x :: u64) xs = Min (insert x (set xs))"
proof (induction xs arbitrary: x)
  case (Cons a xs)
  have "insert x (set (a # xs)) = insert a (insert x (set xs))" by auto
  then show ?case using Cons [of "min x a"] by (cases "xs = []") (auto simp: min.commute min.left_commute min.assoc)
qed simp

lemma Min_minus_1:
  assumes "xs \<noteq> []" "\<forall>x \<in> set xs. 0 < x"
  shows "Min (set (map (\<lambda>x. x - 1) xs)) = Min (set xs) - (1 :: u64)"
proof (rule Min_eqI)
  have m: "Min (set xs) \<in> set xs" using assms(1) by simp
  then show "Min (set xs) - 1 \<in> set (map (\<lambda>x. x - 1) xs)" by simp
  fix y assume "y \<in> set (map (\<lambda>x. x - 1) xs)"
  then obtain x where "x \<in> set xs" "y = x - 1" by auto
  moreover from this have "Min (set xs) \<le> x" "0 < Min (set xs)" using m assms(2) by auto
  moreover from this have "Min (set xs) \<noteq> 0" "x \<noteq> 0" using assms(2) by auto
  ultimately show "Min (set xs) - 1 \<le> y" by (simp add: word_le_nat_alt unat_minus_one diff_le_mono)
qed simp



end
