(* ===== verification/Rlock.thy ===== *)
theory Rlock
  imports Avl "HOL-Library.Monad_Syntax" "HOL-Library.Multiset"
begin

section \<open>File range locks\<close>

text \<open>
  The range locks of \<^verbatim>\<open>fs/zfs/zfs_rlock.c\<close>.  Locks are known to their holders by address,
  so a lock carries the address it was allocated at.  A lock lies in the tree of its
  znode or, when overlapping readers have replaced it by proxies, in \<open>rl_detached\<close>.
  The state is changed under the znode's mutex only, so every routine is a function on
  it; a wait on a condition variable ends the attempt, which is made again after the
  wake-up.  A failed \<^verbatim>\<open>ASSERT\<close> is \<^const>\<open>None\<close>, as is a panic.
\<close>

datatype rl_type = RL_READER | RL_WRITER | RL_APPEND

record rl =
  r_addr :: nat
  r_off :: u64
  r_len :: u64
  r_cnt :: u32
  r_type :: rl_type
  r_proxy :: bool
  r_write_wanted :: bool
  r_read_wanted :: bool

record znode =
  z_vnode :: bool
  zp_size :: u64
  z_blksz :: u32
  z_max_blksz :: u64

record rlocks =
  z_range_avl :: "rl avl_tree"
  rl_detached :: "rl list"
  rl_next :: nat

definition zfs_range_compare :: "rl \<Rightarrow> rl \<Rightarrow> int" where
  "zfs_range_compare rl1 rl2 =
     (if r_off rl1 > r_off rl2 then 1 else if r_off rl1 < r_off rl2 then - 1 else 0)"

text \<open>A condition variable is that of the writers or of the readers waiting for a lock.\<close>

datatype rl_cv = r_wr_cv nat | r_rd_cv nat

datatype rl_result = RL_granted rlocks | RL_waits rlocks rl_cv

definition rl_set_tree :: "(rl avl_tree \<Rightarrow> rl avl_tree) \<Rightarrow> rlocks \<Rightarrow> rlocks" where
  "rl_set_tree f st = st\<lparr>z_range_avl := f (z_range_avl st)\<rparr>"

definition rl_avl_add :: "rlocks \<Rightarrow> rl \<Rightarrow> rlocks option" where
  "rl_avl_add st rl = map_option (\<lambda>t. st\<lparr>z_range_avl := t\<rparr>) (avl_add (z_range_avl st) rl)"

text \<open>A new lock structure with the fields of a proxy.\<close>

definition rl_alloc_proxy :: "rlocks \<Rightarrow> u64 \<Rightarrow> u64 \<Rightarrow> u32 \<Rightarrow> rlocks \<times> rl" where
  "rl_alloc_proxy st off len cnt =
     (st\<lparr>rl_next := rl_next st + 1\<rparr>,
      \<lparr>r_addr = rl_next st, r_off = off, r_len = len, r_cnt = cnt, r_type = RL_READER, r_proxy = True,
       r_write_wanted = False, r_read_wanted = False\<rparr>)"

text \<open>\<^verbatim>\<open>rl && cond\<close>\<close>

definition rl_meets :: "(rl \<Rightarrow> bool) \<Rightarrow> rl option \<Rightarrow> rl option" where
  "rl_meets cond rl = (case rl of None \<Rightarrow> None | Some rl \<Rightarrow> if cond rl then Some rl else None)"

subsection \<open>Writers\<close>

definition ISP2 :: "u32 \<Rightarrow> bool" where
  "ISP2 x \<longleftrightarrow> x AND (x - 1) = 0"

text \<open>The range a writer asks for: at the end of the file when appending, and the whole file
  when the block size has to grow.\<close>

definition rl_writer_range :: "znode \<Rightarrow> rl \<Rightarrow> rl" where
  "rl_writer_range zp new =
     (if z_vnode zp then
        let new' = (if r_type new = RL_APPEND then new\<lparr>r_off := zp_size zp\<rparr> else new);
            end_size = max (zp_size zp) (r_off new' + r_len new)
        in if end_size > ucast (z_blksz zp) \<and> (\<not> ISP2 (z_blksz zp) \<or> ucast (z_blksz zp) < z_max_blksz zp)
           then new'\<lparr>r_off := 0, r_len := - 1\<rparr> else new'
      else new)"

definition zfs_range_lock_writer :: "znode \<Rightarrow> rl \<Rightarrow> rlocks \<Rightarrow> rl_result option" where
  "zfs_range_lock_writer zp new0 st =
     (let new = rl_writer_range zp new0;
          tree = z_range_avl st;
          wait = (\<lambda>rl. Some (RL_waits (rl_set_tree (\<lambda>t. avl_store t rl (rl\<lparr>r_write_wanted := True\<rparr>)) st) (r_wr_cv (r_addr rl))))
      in if avl_numnodes tree = 0
         then map_option RL_granted (rl_avl_add st (new\<lparr>r_type := RL_WRITER\<rparr>))
         else case avl_find tree new of
           Found rl \<Rightarrow> wait rl
         | NotFound where' \<Rightarrow>
             case rl_meets (\<lambda>rl. r_off rl < r_off new + r_len new) (avl_nearest tree where' AVL_AFTER) of
               Some rl \<Rightarrow> wait rl
             | None \<Rightarrow>
             case rl_meets (\<lambda>rl. r_off rl + r_len rl > r_off new) (avl_nearest tree where' AVL_BEFORE) of
               Some rl \<Rightarrow> wait rl
             | None \<Rightarrow> Some (RL_granted (rl_set_tree (\<lambda>t. avl_insert t (new\<lparr>r_type := RL_WRITER\<rparr>) where') st)))"

subsection \<open>Readers\<close>

definition zfs_range_proxify :: "rlocks \<Rightarrow> rl \<Rightarrow> (rlocks \<times> rl) option" where
  "zfs_range_proxify st rl =
     (if r_proxy rl then Some (st, rl)
      else if r_cnt rl \<noteq> 1 \<or> r_write_wanted rl \<or> r_read_wanted rl then None
      else let st = rl_set_tree (\<lambda>t. avl_remove t rl) st;
               st = st\<lparr>rl_detached := rl\<lparr>r_cnt := 0\<rparr> # rl_detached st\<rparr>;
               (st, proxy) = rl_alloc_proxy st (r_off rl) (r_len rl) 1
           in map_option (\<lambda>st. (st, proxy)) (rl_avl_add st proxy))"

definition zfs_range_split :: "rlocks \<Rightarrow> rl \<Rightarrow> u64 \<Rightarrow> (rlocks \<times> rl) option" where
  "zfs_range_split st rl off =
     (if \<not> (r_len rl > 1 \<and> off > r_off rl \<and> off < r_off rl + r_len rl \<and> \<not> r_write_wanted rl \<and> \<not> r_read_wanted rl)
      then None
      else let (st, rear) = rl_alloc_proxy st off (r_off rl + r_len rl - off) (r_cnt rl)
           in case zfs_range_proxify st rl of
                None \<Rightarrow> None
              | Some (st, front) \<Rightarrow>
                  let front' = front\<lparr>r_len := off - r_off rl\<rparr>;
                      st = rl_set_tree (\<lambda>t. avl_store t front front') st;
                      st = rl_set_tree (\<lambda>t. avl_insert_here t rear front' AVL_AFTER) st
                  in Some (st, front'))"

definition zfs_range_new_proxy :: "rlocks \<Rightarrow> u64 \<Rightarrow> u64 \<Rightarrow> rlocks option" where
  "zfs_range_new_proxy st off len =
     (if len = 0 then None
      else let (st, rl) = rl_alloc_proxy st off len 1 in rl_avl_add st rl)"

text \<open>\<^verbatim>\<open>next->r_cnt++\<close>\<close>

definition rl_inc :: "rlocks \<times> rl \<Rightarrow> rlocks \<times> rl" where
  "rl_inc = (\<lambda>(st, rl). let rl' = rl\<lparr>r_cnt := r_cnt rl + 1\<rparr> in (rl_set_tree (\<lambda>t. avl_store t rl rl') st, rl'))"

text \<open>The loop over the ranges that the new one meets; every turn but the last goes on to the
  next node of the tree.\<close>

fun zfs_range_add_loop :: "nat \<Rightarrow> u64 \<Rightarrow> u64 \<Rightarrow> rlocks \<Rightarrow> rl option \<Rightarrow> rl option \<Rightarrow> rlocks option" where
  "zfs_range_add_loop 0 off len st prev next = None"
| "zfs_range_add_loop (Suc n) off len st prev next =
     (case rl_meets (\<lambda>next. \<not> off + len \<le> r_off next) next of
        None \<Rightarrow>
          (case prev of None \<Rightarrow> Some st
           | Some prev \<Rightarrow> zfs_range_new_proxy st (r_off prev + r_len prev) (off + len - (r_off prev + r_len prev)))
      | Some next \<Rightarrow>
          do {
            st \<leftarrow> (case prev of None \<Rightarrow> Some st
                  | Some prev \<Rightarrow>
                      if r_off prev + r_len prev < r_off next
                      then zfs_range_new_proxy st (r_off prev + r_len prev) (r_off next - (r_off prev + r_len prev))
                      else Some st);
            if off + len = r_off next + r_len next
            then map_option (\<lambda>r. fst (rl_inc r)) (zfs_range_proxify st next)
            else if off + len < r_off next + r_len next
            then map_option (\<lambda>r. fst (rl_inc r)) (zfs_range_split st next (off + len))
            else do {
              r \<leftarrow> zfs_range_proxify st next;
              let (st, next) = rl_inc r;
              zfs_range_add_loop n off len st (Some next) (AVL_NEXT (z_range_avl st) next)
            }
          })"

definition zfs_range_add_reader :: "rlocks \<Rightarrow> rl \<Rightarrow> rl option \<Rightarrow> avl_index \<Rightarrow> rlocks option" where
  "zfs_range_add_reader st new prev where' =
     (let off = r_off new; len = r_len new
      in do {
        (st, prev) \<leftarrow> (case prev of None \<Rightarrow> Some (st, None)
                     | Some prev \<Rightarrow>
                         if r_off prev + r_len prev \<le> off then Some (st, None)
                         else if r_off prev \<noteq> off
                         then map_option (\<lambda>(st, front). (st, AVL_NEXT (z_range_avl st) front)) (zfs_range_split st prev off)
                         else Some (st, Some prev));
        let next = (case prev of Some prev \<Rightarrow> Some prev | None \<Rightarrow> avl_nearest (z_range_avl st) where' AVL_AFTER);
        case rl_meets (\<lambda>next. \<not> off + len \<le> r_off next) next of
          None \<Rightarrow> Some (rl_set_tree (\<lambda>t. avl_insert t new where') st)
        | Some next \<Rightarrow>
            do {
              st \<leftarrow> (if off < r_off next then zfs_range_new_proxy st off (r_off next - off) else Some st);
              zfs_range_add_loop (avl_numnodes (z_range_avl st) + 1) off len
                (st\<lparr>rl_detached := new\<lparr>r_cnt := 0\<rparr> # rl_detached st\<rparr>) None (Some next)
            }
      })"

text \<open>The search for a writer among the ranges that follow: \<^term>\<open>Some (Some rl)\<close> is a lock to
  wait for, \<^term>\<open>Some None\<close> is the jump to \<^verbatim>\<open>got_lock\<close>.\<close>

fun zfs_range_scan :: "nat \<Rightarrow> rl avl_tree \<Rightarrow> u64 \<Rightarrow> u64 \<Rightarrow> rl option \<Rightarrow> rl option option" where
  "zfs_range_scan 0 tree off len next = None"
| "zfs_range_scan (Suc n) tree off len next =
     (case next of None \<Rightarrow> Some None
      | Some next \<Rightarrow>
          if off + len \<le> r_off next then Some None
          else if r_type next = RL_WRITER \<or> r_write_wanted next then Some (Some next)
          else if off + len \<le> r_off next + r_len next then Some None
          else zfs_range_scan n tree off len (AVL_NEXT tree next))"

definition zfs_range_lock_reader :: "rl \<Rightarrow> rlocks \<Rightarrow> rl_result option" where
  "zfs_range_lock_reader new st =
     (let off = r_off new; len = r_len new; tree = z_range_avl st;
          (prev, where') = (case avl_find tree new of Found rl \<Rightarrow> (Some rl, [])
                            | NotFound where' \<Rightarrow> (avl_nearest tree where' AVL_BEFORE, where'));
          scan = zfs_range_scan (avl_numnodes tree + 1) tree off len
                   (case prev of Some prev \<Rightarrow> AVL_NEXT tree prev | None \<Rightarrow> avl_nearest tree where' AVL_AFTER)
      in do {
        blocked \<leftarrow> (case prev of None \<Rightarrow> scan
                   | Some prev \<Rightarrow>
                       if off < r_off prev + r_len prev
                       then if r_type prev = RL_WRITER \<or> r_write_wanted prev then Some (Some prev)
                            else if off + len < r_off prev + r_len prev then Some None else scan
                       else scan);
        case blocked of
          Some rl \<Rightarrow> Some (RL_waits (rl_set_tree (\<lambda>t. avl_store t rl (rl\<lparr>r_read_wanted := True\<rparr>)) st) (r_rd_cv (r_addr rl)))
        | None \<Rightarrow> map_option RL_granted (zfs_range_add_reader st new prev where')
      })"

subsection \<open>Locking and unlocking\<close>

text \<open>\<^verbatim>\<open>zfs_range_lock\<close> allocates a lock structure and then attempts to take the lock.\<close>

definition rl_new :: "nat \<Rightarrow> u64 \<Rightarrow> u64 \<Rightarrow> rl_type \<Rightarrow> rl" where
  "rl_new p off len type =
     \<lparr>r_addr = p, r_off = off, r_len = len, r_cnt = 1, r_type = type, r_proxy = False,
      r_write_wanted = False, r_read_wanted = False\<rparr>"

definition zfs_range_lock :: "znode \<Rightarrow> rl \<Rightarrow> rlocks \<Rightarrow> rl_result option" where
  "zfs_range_lock zp new st =
     (if r_type new = RL_READER
      then if avl_numnodes (z_range_avl st) = 0 then map_option RL_granted (rl_avl_add st new)
           else zfs_range_lock_reader new st
      else zfs_range_lock_writer zp new st)"

text \<open>The condition variables that are broadcast when a lock goes away.\<close>

definition rl_wakeups :: "rl \<Rightarrow> rl_cv list" where
  "rl_wakeups rl = (if r_write_wanted rl then [r_wr_cv (r_addr rl)] else []) @ (if r_read_wanted rl then [r_rd_cv (r_addr rl)] else [])"

fun zfs_range_unlock_loop :: "nat \<Rightarrow> rlocks \<Rightarrow> u64 \<Rightarrow> rl \<Rightarrow> rl_cv list \<Rightarrow> (rlocks \<times> rl_cv list) option" where
  "zfs_range_unlock_loop 0 st len rl cvs = None"
| "zfs_range_unlock_loop (Suc n) st len rl cvs =
     (if len = 0 then Some (st, cvs)
      else let len = len - r_len rl
           in do {
             next \<leftarrow> (if len \<noteq> 0
                     then case AVL_NEXT (z_range_avl st) rl of None \<Rightarrow> None
                          | Some next \<Rightarrow> if r_off rl + r_len rl = r_off next \<and> r_cnt next \<noteq> 0 \<and> r_type next = RL_READER
                                         then Some next else None
                     else Some rl);
             let rl' = rl\<lparr>r_cnt := r_cnt rl - 1\<rparr>;
             if r_cnt rl' = 0
             then zfs_range_unlock_loop n (rl_set_tree (\<lambda>t. avl_remove t rl) st) len next (cvs @ rl_wakeups rl)
             else zfs_range_unlock_loop n (rl_set_tree (\<lambda>t. avl_store t rl rl') st) len next cvs
           })"

definition zfs_range_unlock_reader :: "rlocks \<Rightarrow> rl \<Rightarrow> (rlocks \<times> rl_cv list) option" where
  "zfs_range_unlock_reader st remove =
     (if r_cnt remove = 1 then Some (rl_set_tree (\<lambda>t. avl_remove t remove) st, rl_wakeups remove)
      else if r_cnt remove \<noteq> 0 \<or> r_write_wanted remove \<or> r_read_wanted remove then None
      else case avl_find (z_range_avl st) remove of
             NotFound where' \<Rightarrow> None
           | Found rl \<Rightarrow>
               if r_cnt rl = 0 \<or> r_type rl \<noteq> RL_READER then None
               else zfs_range_unlock_loop (avl_numnodes (z_range_avl st) + 1)
                      (st\<lparr>rl_detached := remove1 remove (rl_detached st)\<rparr>) (r_len remove) rl [])"

text \<open>The lock structure at an address.\<close>

definition rl_deref :: "rlocks \<Rightarrow> nat \<Rightarrow> rl option" where
  "rl_deref st p = find (\<lambda>rl. r_addr rl = p) (avl_contents (z_range_avl st) @ rl_detached st)"

definition zfs_range_unlock :: "nat \<Rightarrow> rlocks \<Rightarrow> (rlocks \<times> rl_cv list) option" where
  "zfs_range_unlock p st =
     (case rl_deref st p of None \<Rightarrow> None
      | Some rl \<Rightarrow>
          if \<not> ((r_type rl = RL_WRITER \<or> r_type rl = RL_READER) \<and> (r_cnt rl = 1 \<or> r_cnt rl = 0) \<and> \<not> r_proxy rl) then None
          else if r_type rl = RL_WRITER then Some (rl_set_tree (\<lambda>t. avl_remove t rl) st, rl_wakeups rl)
          else zfs_range_unlock_reader st rl)"

definition zfs_range_reduce :: "nat \<Rightarrow> u64 \<Rightarrow> u64 \<Rightarrow> rlocks \<Rightarrow> (rlocks \<times> rl_cv list) option" where
  "zfs_range_reduce p off len st =
     (case rl_deref st p of None \<Rightarrow> None
      | Some rl \<Rightarrow>
          if \<not> (avl_numnodes (z_range_avl st) = 1 \<and> r_off rl = 0 \<and> r_type rl = RL_WRITER \<and> \<not> r_proxy rl \<and>
                r_len rl = - 1 \<and> r_cnt rl = 1) then None
          else Some (rl_set_tree (\<lambda>t. avl_store t rl (rl\<lparr>r_off := off, r_len := len\<rparr>)) st, rl_wakeups rl))"

section \<open>Correctness of the range locks\<close>

subsection \<open>The tree as a list\<close>

interpretation rlk: avl_order zfs_range_compare "\<lambda>_. True" "\<lambda>_. True"
  by unfold_locales (auto simp: zfs_range_compare_def split: if_splits)

definition rl_tree :: "rlocks \<Rightarrow> rl list \<Rightarrow> bool" where
  "rl_tree st xs \<longleftrightarrow> avl_shape (z_range_avl st) \<and> avl_compar (z_range_avl st) = zfs_range_compare \<and>
     avl_contents (z_range_avl st) = xs \<and> sorted_wrt (\<lambda>a b. r_off a < r_off b) xs"

lemma rl_treeD:
  assumes "rl_tree st xs"
  shows "avl_shape (z_range_avl st)" "avl_compar (z_range_avl st) = zfs_range_compare" "avl_contents (z_range_avl st) = xs"
    "sorted_wrt (\<lambda>a b. r_off a < r_off b) xs" "distinct xs" "avl_numnodes (z_range_avl st) = length xs" "rlk.tree_ok (z_range_avl st)"
proof -
  show "avl_shape (z_range_avl st)" "avl_compar (z_range_avl st) = zfs_range_compare" "avl_contents (z_range_avl st) = xs"
    "sorted_wrt (\<lambda>a b. r_off a < r_off b) xs" using assms by (simp_all add: rl_tree_def)
  then show "distinct xs" "avl_numnodes (z_range_avl st) = length xs" by (auto simp: avl_shape_def)
  show "rlk.tree_ok (z_range_avl st)"
    using assms by (auto simp: rl_tree_def rlk.tree_ok_def rlk.in_order_def zfs_range_compare_def elim!: sorted_wrt_mono_rel [rotated])
qed

lemma rl_set_tree_simps [simp]:
  "rl_detached (rl_set_tree f st) = rl_detached st" "rl_next (rl_set_tree f st) = rl_next st" "z_range_avl (rl_set_tree f st) = f (z_range_avl st)"
  by (simp_all add: rl_set_tree_def)

lemma rl_tree_more [simp]:
  "rl_tree (st\<lparr>rl_detached := ds\<rparr>) xs = rl_tree st xs" "rl_tree (st\<lparr>rl_next := n\<rparr>) xs = rl_tree st xs"
  by (simp_all add: rl_tree_def)

text \<open>A search by offset splits the contents.\<close>

lemma rl_find:
  assumes t: "rl_tree st xs"
  shows "case avl_find (z_range_avl st) new of
      Found x \<Rightarrow> x \<in> set xs \<and> r_off x = r_off new
    | NotFound w \<Rightarrow> \<exists>us vs. avl_place (z_range_avl st) w us vs \<and> xs = us @ vs \<and>
        (\<forall>u \<in> set us. r_off u < r_off new) \<and> (\<forall>v \<in> set vs. r_off new < r_off v)"
proof (cases "avl_find (z_range_avl st) new")
  case (Found x)
  then show ?thesis using rlk.find_Found [OF rl_treeD(7) [OF t] Found] rl_treeD(3) [OF t]
    by (auto simp: zfs_range_compare_def split: if_splits)
next
  case (NotFound w)
  obtain us vs where uv: "avl_place (z_range_avl st) w us vs" "avl_contents (z_range_avl st) = us @ vs"
    "\<forall>a\<in>set us. zfs_range_compare new a > 0" "\<forall>a\<in>set vs. zfs_range_compare new a < 0"
    by (rule rlk.find_NotFound [OF rl_treeD(7) [OF t] _ NotFound]) simp_all
  have "r_off u < r_off new" if "u \<in> set us" for u using bspec [OF uv(3) that] by (simp add: zfs_range_compare_def split: if_splits)
  moreover have "r_off new < r_off v" if "v \<in> set vs" for v using bspec [OF uv(4) that] by (simp add: zfs_range_compare_def split: if_splits)
  ultimately show ?thesis using NotFound uv(1,2) rl_treeD(3) [OF t] by auto
qed

lemma rl_find_split:
  assumes "rl_tree st (us @ vs)" "\<forall>u \<in> set us. r_off u < r_off y" "\<forall>v \<in> set vs. r_off y < r_off v"
  obtains w where "avl_find (z_range_avl st) y = NotFound w" "avl_place (z_range_avl st) w us vs"
proof (cases "avl_find (z_range_avl st) y")
  case (Found x)
  then show ?thesis using rl_find [OF assms(1), of y] assms(2,3) by auto
next
  case (NotFound w)
  then obtain us' vs' where *: "avl_place (z_range_avl st) w us' vs'" "us @ vs = us' @ vs'"
    "\<forall>u \<in> set us'. r_off u < r_off y" "\<forall>v \<in> set vs'. r_off y < r_off v" using rl_find [OF assms(1), of y] by auto
  have "us = us'"
  proof -
    have tw: "takeWhile (\<lambda>u. r_off u < r_off y) (as @ bs) = as"
      if "\<forall>u \<in> set as. r_off u < r_off y" "\<forall>v \<in> set bs. r_off y < r_off v" for as bs
      using that by (cases bs) (auto simp: takeWhile_append2 takeWhile_eq_all_conv)
    then show ?thesis using tw [OF assms(2,3)] tw [OF *(3,4)] *(2) by simp
  qed
  then show ?thesis using * NotFound that by simp
qed

lemma rl_insert:
  assumes t: "rl_tree st (us @ vs)" and w: "avl_place (z_range_avl st) w us vs"
    and lt: "\<forall>u \<in> set us. r_off u < r_off y" "\<forall>v \<in> set vs. r_off y < r_off v"
  shows "rl_tree (rl_set_tree (\<lambda>t. avl_insert t y w) st) (us @ y # vs)"
proof -
  have "y \<notin> set (avl_contents (z_range_avl st))" using lt rl_treeD(3) [OF t] by auto
  from avl_insert_place [OF w rl_treeD(1) [OF t] this] show ?thesis
    using t lt by (auto simp: rl_tree_def sorted_wrt_append)
qed

lemma rl_add:
  assumes t: "rl_tree st (us @ vs)" and lt: "\<forall>u \<in> set us. r_off u < r_off y" "\<forall>v \<in> set vs. r_off y < r_off v"
  shows "\<exists>t. rl_avl_add st y = Some (st\<lparr>z_range_avl := t\<rparr>) \<and> rl_tree (st\<lparr>z_range_avl := t\<rparr>) (us @ y # vs)"
proof -
  obtain w where w: "avl_find (z_range_avl st) y = NotFound w" "avl_place (z_range_avl st) w us vs"
    using rl_find_split [OF t lt] by blast
  then show ?thesis using rl_insert [OF t w(2) lt]
    by (intro exI [of _ "avl_insert (z_range_avl st) y w"]) (simp add: rl_avl_add_def avl_add_def rl_set_tree_def)
qed

lemma rl_remove:
  assumes "rl_tree st (us @ x # vs)" shows "rl_tree (rl_set_tree (\<lambda>t. avl_remove t x) st) (us @ vs)"
  using avl_remove_split [of "z_range_avl st" us x vs] assms by (auto simp: rl_tree_def sorted_wrt_append)

lemma rl_store:
  assumes t: "rl_tree st (us @ x # vs)" and off: "\<forall>u \<in> set us. r_off u < r_off y" "\<forall>v \<in> set vs. r_off y < r_off v"
  shows "rl_tree (rl_set_tree (\<lambda>t. avl_store t x y) st) (us @ y # vs)"
proof -
  have "y \<notin> set us \<union> set vs" using off by auto
  from avl_store_split [OF rl_treeD(1) [OF t] rl_treeD(3) [OF t] this] show ?thesis
    using t off by (auto simp: rl_tree_def sorted_wrt_append)
qed

lemma rl_store_same:
  assumes t: "rl_tree st (us @ x # vs)" and off: "r_off y = r_off x"
  shows "rl_tree (rl_set_tree (\<lambda>t. avl_store t x y) st) (us @ y # vs)"
  by (rule rl_store [OF t]) (use rl_treeD(4) [OF t] off in \<open>auto simp: sorted_wrt_append\<close>)

lemma rl_insert_after:
  assumes t: "rl_tree st (us @ x # vs)" and lt: "r_off x < r_off y" "\<forall>v \<in> set vs. r_off y < r_off v"
  shows "rl_tree (rl_set_tree (\<lambda>t. avl_insert_here t y x AVL_AFTER) st) (us @ x # y # vs)"
proof -
  have "\<forall>u \<in> set us. r_off u < r_off x" using rl_treeD(4) [OF t] by (auto simp: sorted_wrt_append)
  then have us: "\<forall>u \<in> set us. r_off u < r_off y" using lt(1) by fastforce
  then have "y \<notin> set (us @ x # vs)" using lt by auto
  then have "y \<notin> set (avl_contents (z_range_avl st))" using rl_treeD(3) [OF t] by simp
  from avl_insert_here_after [OF rl_treeD(1) [OF t] rl_treeD(3) [OF t] this] show ?thesis
    using t lt us by (auto simp: rl_tree_def sorted_wrt_append)
qed

lemma rl_next:
  assumes "rl_tree st (us @ x # vs)" shows "AVL_NEXT (z_range_avl st) x = hd_opt vs"
  using avl_next [of "z_range_avl st" us x vs] rl_treeD(3,5) [OF assms] by simp

lemma rl_nearest:
  assumes "rl_tree st (us @ vs)" "avl_place (z_range_avl st) w us vs"
  shows "avl_nearest (z_range_avl st) w AVL_BEFORE = last_opt us" "avl_nearest (z_range_avl st) w AVL_AFTER = hd_opt vs"
  using avl_nearest_place [OF assms(2)] rl_treeD(3,5) [OF assms(1)] by simp_all

subsection \<open>Adding a reader, on lists\<close>

abbreviation r_end :: "rl \<Rightarrow> u64" where "r_end x \<equiv> r_off x + r_len x"

text \<open>A range is not empty and does not reach past the last offset.\<close>

definition rl_ok :: "rl \<Rightarrow> bool" where "rl_ok x \<longleftrightarrow> r_off x < r_end x"

definition rls_ok :: "rl list \<Rightarrow> bool" where
  "rls_ok xs \<longleftrightarrow> (\<forall>x \<in> set xs. rl_ok x) \<and> sorted_wrt (\<lambda>a b. r_end a \<le> r_off b) xs"

lemma rls_ok_append: "rls_ok (us @ vs) \<longleftrightarrow> rls_ok us \<and> rls_ok vs \<and> (\<forall>u \<in> set us. \<forall>v \<in> set vs. r_end u \<le> r_off v)"
  by (auto simp: rls_ok_def sorted_wrt_append)

lemma rls_ok_Cons: "rls_ok (x # vs) \<longleftrightarrow> rl_ok x \<and> rls_ok vs \<and> (\<forall>v \<in> set vs. r_end x \<le> r_off v)"
  by (auto simp: rls_ok_def)

lemma rls_ok_Nil [simp]: "rls_ok []" by (simp add: rls_ok_def)

lemma rls_ok_offs: "rls_ok xs \<Longrightarrow> sorted_wrt (\<lambda>a b. r_off a < r_off b) xs"
  unfolding rls_ok_def rl_ok_def by (auto elim!: sorted_wrt_mono_rel [rotated] intro: less_le_trans)

definition mk_proxy :: "nat \<Rightarrow> u64 \<Rightarrow> u64 \<Rightarrow> u32 \<Rightarrow> rl" where
  "mk_proxy n off len cnt =
     \<lparr>r_addr = n, r_off = off, r_len = len, r_cnt = cnt, r_type = RL_READER, r_proxy = True,
      r_write_wanted = False, r_read_wanted = False\<rparr>"

lemma mk_proxy_simps [simp]:
  "r_addr (mk_proxy n off len cnt) = n" "r_off (mk_proxy n off len cnt) = off" "r_len (mk_proxy n off len cnt) = len"
  "r_cnt (mk_proxy n off len cnt) = cnt" "r_type (mk_proxy n off len cnt) = RL_READER" "r_proxy (mk_proxy n off len cnt)"
  "\<not> r_write_wanted (mk_proxy n off len cnt)" "\<not> r_read_wanted (mk_proxy n off len cnt)"
  by (simp_all add: mk_proxy_def)

definition lproxify :: "nat \<Rightarrow> rl list \<Rightarrow> rl \<Rightarrow> rl \<times> rl list \<times> nat" where
  "lproxify n ds x = (if r_proxy x then (x, ds, n) else (mk_proxy n (r_off x) (r_len x) 1, x\<lparr>r_cnt := 0\<rparr> # ds, n + 1))"

definition lsplit :: "nat \<Rightarrow> rl list \<Rightarrow> rl \<Rightarrow> u64 \<Rightarrow> rl \<times> rl \<times> rl list \<times> nat" where
  "lsplit n ds x off =
     (case lproxify (n + 1) ds x of (y, ds, n') \<Rightarrow>
        (y\<lparr>r_len := off - r_off x\<rparr>, mk_proxy n off (r_end x - off) (r_cnt x), ds, n'))"

definition rl_count :: "rl \<Rightarrow> rl" where "rl_count x = x\<lparr>r_cnt := r_cnt x + 1\<rparr>"

fun lspread :: "nat \<Rightarrow> rl list \<Rightarrow> u64 \<Rightarrow> u64 \<Rightarrow> rl list \<Rightarrow> rl list \<times> rl list \<times> nat" where
  "lspread n ds pos e [] = ([mk_proxy n pos (e - pos) 1], ds, n + 1)"
| "lspread n ds pos e (x # xs) =
     (if e \<le> r_off x then (mk_proxy n pos (e - pos) 1 # x # xs, ds, n + 1)
      else let (gap, n) = (if pos < r_off x then ([mk_proxy n pos (r_off x - pos) 1], n + 1) else ([], n))
           in if e < r_end x
              then case lsplit n ds x e of (front, rear, ds, n) \<Rightarrow> (gap @ rl_count front # rear # xs, ds, n)
              else case lproxify n ds x of (y, ds, n) \<Rightarrow>
                if e = r_end x then (gap @ rl_count y # xs, ds, n)
                else case lspread n ds (r_end x) e xs of (ys, ds, n) \<Rightarrow> (gap @ rl_count y # ys, ds, n))"

text \<open>A lock that may be replaced by a proxy.\<close>

definition rl_shareable :: "rl \<Rightarrow> bool" where
  "rl_shareable x \<longleftrightarrow> r_type x = RL_READER \<and> \<not> r_write_wanted x \<and> \<not> r_read_wanted x \<and> (\<not> r_proxy x \<longrightarrow> r_cnt x = 1)"

text \<open>The state has a list of locks in its tree, and the rest of its fields.\<close>

definition rl_state :: "rlocks \<Rightarrow> rl list \<Rightarrow> rl list \<Rightarrow> nat \<Rightarrow> bool" where
  "rl_state st xs ds n \<longleftrightarrow> rl_tree st xs \<and> rl_detached st = ds \<and> rl_next st = n"

lemma alloc_proxy: "rl_alloc_proxy st off len cnt = (st\<lparr>rl_next := rl_next st + 1\<rparr>, mk_proxy (rl_next st) off len cnt)"
  by (simp add: rl_alloc_proxy_def mk_proxy_def)

lemma proxify_list:
  assumes s: "rl_state st (us @ x # vs) ds n" and x: "rl_shareable x" and l: "lproxify n ds x = (y, ds', n')"
  shows "\<exists>st'. zfs_range_proxify st x = Some (st', y) \<and> rl_state st' (us @ y # vs) ds' n'"
proof (cases "r_proxy x")
  case True
  then show ?thesis using s l by (auto simp: zfs_range_proxify_def lproxify_def)
next
  case False
  have t: "rl_tree st (us @ x # vs)" "rl_detached st = ds" "rl_next st = n" using s by (simp_all add: rl_state_def)
  let ?st = "rl_set_tree (\<lambda>t. avl_remove t x) st"
  let ?st2 = "?st\<lparr>rl_detached := x\<lparr>r_cnt := 0\<rparr> # ds, rl_next := n + 1\<rparr>"
  have t2: "rl_tree ?st2 (us @ vs)" using rl_remove [OF t(1)] by simp
  have lt: "\<forall>u \<in> set us. r_off u < r_off x" "\<forall>v \<in> set vs. r_off x < r_off v" using rl_treeD(4) [OF t(1)] by (auto simp: sorted_wrt_append)
  obtain tr where "rl_avl_add ?st2 (mk_proxy n (r_off x) (r_len x) 1) = Some (?st2\<lparr>z_range_avl := tr\<rparr>)"
    "rl_tree (?st2\<lparr>z_range_avl := tr\<rparr>) (us @ mk_proxy n (r_off x) (r_len x) 1 # vs)"
    using rl_add [OF t2, of "mk_proxy n (r_off x) (r_len x) 1"] lt by auto
  then show ?thesis using False x l t(2,3)
    by (auto simp: zfs_range_proxify_def lproxify_def rl_shareable_def alloc_proxy rl_state_def)
qed

lemma lproxify_range: "lproxify n ds x = (y, ds', n') \<Longrightarrow> r_off y = r_off x \<and> r_len y = r_len x"
  by (auto simp: lproxify_def split: if_splits)

lemma split_len: "(a :: u64) < b \<Longrightarrow> b < a + l \<Longrightarrow> 1 < l"
proof (rule ccontr)
  assume ab: "a < b" "b < a + l" and "\<not> 1 < l"
  then have "l = 0 \<or> l = 1" by (metis linorder_neqE_linordered_idom word_gt_0 word_less_1 less_one neqE)
  then show False using ab inc_le [OF ab(1)] by auto
qed

lemma split_proxy_list:
  assumes s: "rl_state st (us @ x # vs) ds n" and x: "rl_shareable x" and off: "r_off x < off" "off < r_end x"
    and vs: "\<forall>v \<in> set vs. r_end x \<le> r_off v" and l: "lsplit n ds x off = (front, rear, ds', n')"
  shows "\<exists>st'. zfs_range_split st x off = Some (st', front) \<and> rl_state st' (us @ front # rear # vs) ds' n'"
proof -
  let ?st = "st\<lparr>rl_next := n + 1\<rparr>"
  have s0: "rl_state ?st (us @ x # vs) ds (n + 1)" "rl_next st = n" using s by (simp_all add: rl_state_def)
  obtain y where y: "lproxify (n + 1) ds x = (y, ds', n')" "front = y\<lparr>r_len := off - r_off x\<rparr>" "rear = mk_proxy n off (r_end x - off) (r_cnt x)"
    using l by (auto simp: lsplit_def split: prod.splits)
  obtain st1 where st1: "zfs_range_proxify ?st x = Some (st1, y)" "rl_state st1 (us @ y # vs) ds' n'"
    using proxify_list [OF s0(1) x y(1)] by blast
  let ?st2 = "rl_set_tree (\<lambda>t. avl_store t y front) st1"
  have t2: "rl_tree ?st2 (us @ front # vs)"
    by (rule rl_store_same) (use st1(2) y(2) in \<open>simp_all add: rl_state_def\<close>)
  have "rl_tree (rl_set_tree (\<lambda>t. avl_insert_here t rear front AVL_AFTER) ?st2) (us @ front # rear # vs)"
    by (rule rl_insert_after [OF t2]) (use off vs lproxify_range [OF y(1)] y(2,3) in \<open>auto intro: less_le_trans\<close>)
  moreover have "1 < r_len x" using split_len [OF off] .
  ultimately show ?thesis using x off st1 s0(2) y
    by (auto simp: zfs_range_split_def alloc_proxy rl_shareable_def rl_state_def Let_def)
qed

lemma new_proxy_list:
  assumes s: "rl_state st (us @ vs) ds n" and len: "len \<noteq> 0"
    and lt: "\<forall>u \<in> set us. r_off u < off" "\<forall>v \<in> set vs. off < r_off v"
  shows "\<exists>st'. zfs_range_new_proxy st off len = Some st' \<and> rl_state st' (us @ mk_proxy n off len 1 # vs) ds (n + 1)"
proof -
  let ?st = "st\<lparr>rl_next := n + 1\<rparr>"
  have "rl_tree ?st (us @ vs)" using s by (simp add: rl_state_def)
  from rl_add [OF this, of "mk_proxy n off len 1"] obtain t where
    "rl_avl_add ?st (mk_proxy n off len 1) = Some (?st\<lparr>z_range_avl := t\<rparr>)" "rl_tree (?st\<lparr>z_range_avl := t\<rparr>) (us @ mk_proxy n off len 1 # vs)"
    using lt by auto
  then show ?thesis using s len by (auto simp: zfs_range_new_proxy_def alloc_proxy rl_state_def)
qed

lemma inc_list:
  assumes "rl_state st (us @ x # vs) ds n"
  shows "\<exists>st'. rl_inc (st, x) = (st', rl_count x) \<and> rl_state st' (us @ rl_count x # vs) ds n"
  using rl_store_same [of st us x vs "rl_count x"] assms
  by (simp add: rl_inc_def rl_count_def Let_def rl_state_def)

lemma rls_ok_below: "rls_ok us \<Longrightarrow> u \<in> set us \<Longrightarrow> r_off u < r_end (last us)"
proof (induction us rule: rev_induct)
  case (snoc p us)
  have "rl_ok u" using snoc.prems by (auto simp: rls_ok_def)
  moreover have "u = p \<or> r_end u \<le> r_off p" "rl_ok p" using snoc.prems by (auto simp: rls_ok_append rls_ok_Cons)
  ultimately show ?case by (auto simp: rl_ok_def intro: less_le_trans order.strict_trans2 less_trans)
qed simp

lemma mk_proxy_end [simp]: "off + (e - off) = (e :: u64)" by simp

lemma rl_count_simps [simp]:
  "r_off (rl_count x) = r_off x" "r_len (rl_count x) = r_len x" "r_addr (rl_count x) = r_addr x" "r_cnt (rl_count x) = r_cnt x + 1"
  "r_type (rl_count x) = r_type x" "r_proxy (rl_count x) = r_proxy x" "r_write_wanted (rl_count x) = r_write_wanted x" "r_read_wanted (rl_count x) = r_read_wanted x"
  by (simp_all add: rl_count_def)

lemma rl_meets_simps [simp]: "rl_meets P None = None" "rl_meets P (Some x) = (if P x then Some x else None)"
  by (simp_all add: rl_meets_def)

lemma add_gap_list:
  assumes s: "rl_state st (us @ x # xs) ds n" and ok: "rls_ok (us @ x # xs)"
    and p: "case prev of None \<Rightarrow> pos = r_off x | Some p \<Rightarrow> us \<noteq> [] \<and> p = last us \<and> pos = r_end p"
    and g: "(gap, n1) = (if pos < r_off x then ([mk_proxy n pos (r_off x - pos) 1], n + 1) else ([], n))"
  shows "\<exists>st'. (case prev of None \<Rightarrow> Some st
                  | Some prev \<Rightarrow>
                      if r_off prev + r_len prev < r_off x
                      then zfs_range_new_proxy st (r_off prev + r_len prev) (r_off x - (r_off prev + r_len prev))
                      else Some st) = Some st' \<and>
      rl_state st' (us @ gap @ x # xs) ds n1 \<and> rls_ok (us @ gap @ x # xs)"
proof (cases "pos < r_off x")
  case True
  then obtain p where pr: "prev = Some p" "us \<noteq> []" "p = last us" "pos = r_end p" using p by (cases prev) auto
  have us: "\<forall>u \<in> set us. r_off u < pos" using ok rls_ok_below [of us] pr by (auto simp: rls_ok_append)
  have vs: "\<forall>v \<in> set (x # xs). pos < r_off v"
    using ok True by (auto simp: rls_ok_append rls_ok_Cons rl_ok_def intro: less_trans less_le_trans)
  have ue: "\<forall>u \<in> set us. r_end u \<le> pos"
  proof
    fix u assume "u \<in> set us"
    then show "r_end u \<le> pos" using ok pr
      by (cases us rule: rev_cases) (auto simp: rls_ok_append rls_ok_Cons rl_ok_def intro: order.trans less_imp_le)
  qed
  obtain st' where "zfs_range_new_proxy st pos (r_off x - pos) = Some st'" "rl_state st' (us @ mk_proxy n pos (r_off x - pos) 1 # x # xs) ds (n + 1)"
    using new_proxy_list [OF s _ us vs, of "r_off x - pos"] True by auto
  then show ?thesis using True g pr ok ue vs
    by (auto simp: rls_ok_append rls_ok_Cons rl_ok_def)
next
  case False
  then show ?thesis using s ok g p by (auto split: option.splits)
qed

lemma add_loop_list:
  assumes "rl_state st (us @ xs) ds n" "rls_ok (us @ xs)" "e = off + len" "pos < e"
    and "case prev of None \<Rightarrow> xs \<noteq> [] \<and> pos = r_off (hd xs) | Some p \<Rightarrow> us \<noteq> [] \<and> p = last us \<and> pos = r_end p"
    and "\<forall>x \<in> set xs. r_off x < e \<longrightarrow> rl_shareable x" "length xs < k" "lspread n ds pos e xs = (ys, ds', n')"
  shows "\<exists>st'. zfs_range_add_loop k off len st prev (hd_opt xs) = Some st' \<and> rl_state st' (us @ ys) ds' n'"
  using assms
proof (induction xs arbitrary: us st ds n pos prev k ys)
  case Nil
  then obtain p j where p: "prev = Some p" "us \<noteq> []" "p = last us" "pos = r_end p" "k = Suc j" by (cases prev; cases k) auto
  have us: "\<forall>u \<in> set us. r_off u < pos" using Nil.prems(2) rls_ok_below [of us] p by simp
  have "e - pos \<noteq> 0" using Nil.prems(4) by simp
  from new_proxy_list [OF Nil.prems(1) this us] show ?case using p Nil.prems(3,8) by simp
next
  case (Cons x xs)
  obtain j where k: "k = Suc j" using Cons.prems(7) by (cases k) auto
  have e: "off + len = e" using Cons.prems(3) by simp
  show ?case
  proof (cases "e \<le> r_off x")
    case True
    then obtain p where p: "prev = Some p" "us \<noteq> []" "p = last us" "pos = r_end p"
      using Cons.prems(4,5) by (cases prev) auto
    have us: "\<forall>u \<in> set us. r_off u < pos" using Cons.prems(2) rls_ok_below [of us] p by (simp add: rls_ok_append)
    have vs: "\<forall>v \<in> set (x # xs). pos < r_off v" using Cons.prems(2,4) True
      by (auto simp: rls_ok_append rls_ok_Cons rl_ok_def intro: less_trans less_le_trans)
    have "e - pos \<noteq> 0" using Cons.prems(4) by simp
    from new_proxy_list [OF Cons.prems(1) this us vs] show ?thesis using True p k e Cons.prems(8) by auto
  next
    case False
    then have sh: "rl_shareable x" using Cons.prems(6) by simp
    obtain gap n1 where g: "(gap, n1) = (if pos < r_off x then ([mk_proxy n pos (r_off x - pos) 1], n + 1) else ([], n))"
      by (cases "pos < r_off x") auto
    have p: "case prev of None \<Rightarrow> pos = r_off x | Some p \<Rightarrow> us \<noteq> [] \<and> p = last us \<and> pos = r_end p"
      using Cons.prems(5) by (auto split: option.splits)
    obtain st1 where st1: "(case prev of None \<Rightarrow> Some st
                  | Some prev \<Rightarrow> if r_end prev < r_off x then zfs_range_new_proxy st (r_end prev) (r_off x - (r_end prev)) else Some st) = Some st1"
      "rl_state st1 ((us @ gap) @ x # xs) ds n1" "rls_ok ((us @ gap) @ x # xs)"
      using add_gap_list [OF Cons.prems(1,2) p g] by auto
    have vs: "\<forall>v \<in> set xs. r_end x \<le> r_off v" "r_off x < e" "rl_ok x" using Cons.prems(2) False by (auto simp: rls_ok_append rls_ok_Cons)
    show ?thesis
    proof (cases "e < r_end x")
      case True
      obtain front rear ds1 n2 where l: "lsplit n1 ds x e = (front, rear, ds1, n2)" by (metis prod_cases4)
      obtain st2 where st2: "zfs_range_split st1 x e = Some (st2, front)" "rl_state st2 ((us @ gap) @ front # rear # xs) ds1 n2"
        using split_proxy_list [OF st1(2) sh vs(2) True vs(1) l] by blast
      obtain st3 where "rl_inc (st2, front) = (st3, rl_count front)" "rl_state st3 ((us @ gap) @ rl_count front # rear # xs) ds1 n2"
        using inc_list [OF st2(2)] by blast
      then show ?thesis using False True k e st1(1) st2(1) l g Cons.prems(8) by (auto simp: Let_def split: if_splits)
    next
      case nl: False
      obtain y ds1 n2 where l: "lproxify n1 ds x = (y, ds1, n2)" by (metis prod_cases3)
      have r: "r_off y = r_off x" "r_len y = r_len x" using lproxify_range [OF l] by simp_all
      obtain st2 where st2: "zfs_range_proxify st1 x = Some (st2, y)" "rl_state st2 ((us @ gap) @ y # xs) ds1 n2"
        using proxify_list [OF st1(2) sh l] by blast
      obtain st3 where st3: "rl_inc (st2, y) = (st3, rl_count y)" "rl_state st3 ((us @ gap) @ rl_count y # xs) ds1 n2"
        using inc_list [OF st2(2)] by blast
      show ?thesis
      proof (cases "e = r_end x")
        case True
        then show ?thesis using False nl k e st1(1) st2(1) st3 l g Cons.prems(8) by (auto simp: Let_def split: if_splits)
      next
        case ne: False
        then have lt: "r_end x < e" using nl by simp
        obtain zs ds2 n3 where rec: "lspread n2 ds1 (r_end x) e xs = (zs, ds2, n3)" by (metis prod_cases3)
        have res: "ys = gap @ rl_count y # zs" "ds' = ds2" "n' = n3"
          using Cons.prems(8) False nl ne l rec g by (auto split: if_splits)
        have ok3: "rls_ok ((us @ gap @ [rl_count y]) @ xs)"
          using st1(3) r by (auto simp: rls_ok_append rls_ok_Cons rl_ok_def)
        have "AVL_NEXT (z_range_avl st3) (rl_count y) = hd_opt xs"
          using rl_next [of st3 "us @ gap" "rl_count y" xs] st3(2) by (simp add: rl_state_def)
        moreover have "\<exists>st'. zfs_range_add_loop j off len st3 (Some (rl_count y)) (hd_opt xs) = Some st' \<and>
            rl_state st' ((us @ gap @ [rl_count y]) @ zs) ds' n'"
          by (rule Cons.IH [of st3 "us @ gap @ [rl_count y]" ds1 n2 "r_end x"])
            (use st3(2) ok3 e lt r Cons.prems(6,7) k rec res(2,3) in \<open>auto\<close>)
        ultimately show ?thesis using False nl ne k e st1(1) st2(1) st3(1) res by auto
      qed
    qed
  qed
qed

subsection \<open>What adding a reader does to the ranges\<close>

abbreviation rset :: "rl \<Rightarrow> u64 set" where "rset x \<equiv> {r_off x ..< r_end x}"

abbreviation inside :: "rl \<Rightarrow> rl \<Rightarrow> bool" where "inside x h \<equiv> r_off h \<le> r_off x \<and> r_end x \<le> r_end h"

abbreviation overlap :: "rl \<Rightarrow> rl \<Rightarrow> bool" where "overlap x y \<equiv> r_off x < r_end y \<and> r_off y < r_end x"

definition is_px :: "rl \<Rightarrow> bool" where
  "is_px y \<longleftrightarrow> r_proxy y \<and> r_type y = RL_READER \<and> \<not> r_write_wanted y \<and> \<not> r_read_wanted y"

lemma is_px_simps [simp]: "is_px (mk_proxy n off len cnt)" "is_px (rl_count y) = is_px y" "is_px (y\<lparr>r_len := l\<rparr>) = is_px y"
  by (simp_all add: is_px_def)

text \<open>A lock in the tree after the range from \<open>pos\<close> to \<open>e\<close> was added to the locks \<open>xs\<close>: left alone,
  counted once more, cut off behind the range, or new in a gap.\<close>

definition spread_piece :: "u64 \<Rightarrow> u64 \<Rightarrow> rl list \<Rightarrow> rl \<Rightarrow> bool" where
  "spread_piece pos e xs y \<longleftrightarrow>
     (y \<in> set xs \<and> e \<le> r_off y) \<or>
     (is_px y \<and> pos \<le> r_off y \<and> r_end y \<le> e \<and> (\<exists>x \<in> set xs. inside y x \<and> r_off x < e \<and> r_cnt y = r_cnt x + 1)) \<or>
     (is_px y \<and> e \<le> r_off y \<and> (\<exists>x \<in> set xs. inside y x \<and> r_off x < e \<and> r_cnt y = r_cnt x)) \<or>
     (is_px y \<and> pos \<le> r_off y \<and> r_end y \<le> e \<and> r_cnt y = 1 \<and> (\<forall>x \<in> set xs. \<not> overlap y x))"

lemma spread_piece_Cons:
  assumes "spread_piece (r_end x) e xs y" "pos \<le> r_off x" "rl_ok x"
  shows "spread_piece pos e (x # xs) y"
proof -
  have "pos \<le> r_end x" "pos < r_end x" using assms(2,3) by (auto simp: rl_ok_def intro: order.strict_trans1)
  then show ?thesis using assms(1) unfolding spread_piece_def by (auto intro: order.trans)
qed

lemma lproxify_spec:
  assumes "lproxify n ds x = (y, ds', n')" "rl_shareable x"
  shows "is_px y" "r_off y = r_off x" "r_len y = r_len x" "r_cnt y = r_cnt x"
    "ds' = (if r_proxy x then ds else x\<lparr>r_cnt := 0\<rparr> # ds)"
    "mset (map r_addr (y # ds')) = mset (map r_addr (x # ds)) + mset [n..<n']" "n \<le> n'"
  using assms by (auto simp: lproxify_def rl_shareable_def is_px_def split: if_splits)

lemma lsplit_spec:
  assumes "lsplit n ds x off = (front, rear, ds', n')" "rl_shareable x"
  shows "is_px front" "r_off front = r_off x" "r_end front = off" "r_cnt front = r_cnt x"
    "is_px rear" "r_off rear = off" "r_end rear = r_end x" "r_cnt rear = r_cnt x"
    "ds' = (if r_proxy x then ds else x\<lparr>r_cnt := 0\<rparr> # ds)"
    "mset (map r_addr (front # rear # ds')) = mset (map r_addr (x # ds)) + mset [n..<n']" "n \<le> n'"
proof -
  obtain y where y: "lproxify (n + 1) ds x = (y, ds', n')" "front = y\<lparr>r_len := off - r_off x\<rparr>" "rear = mk_proxy n off (r_end x - off) (r_cnt x)"
    using assms(1) by (auto simp: lsplit_def split: prod.splits)
  note p = lproxify_spec [OF y(1) assms(2)]
  show "is_px front" "r_off front = r_off x" "r_end front = off" "r_cnt front = r_cnt x"
    "is_px rear" "r_off rear = off" "r_end rear = r_end x" "r_cnt rear = r_cnt x"
    "ds' = (if r_proxy x then ds else x\<lparr>r_cnt := 0\<rparr> # ds)" "n \<le> n'"
    using p y(2,3) by simp_all
  have "mset [n..<n'] = add_mset n (mset [n + 1..<n'])" using p(7) by (simp add: upt_conv_Cons)
  then show "mset (map r_addr (front # rear # ds')) = mset (map r_addr (x # ds)) + mset [n..<n']"
    using p(6) y(2,3) by simp
qed

lemma ivl_fill: "a \<le> e \<Longrightarrow> e \<le> b \<Longrightarrow> {pos ..< a} \<union> {a ..< b} = {a ..< b} \<union> {pos ..< (e :: u64)}"
  by (auto simp: not_less not_le intro: order.trans less_le_trans)

lemma gap_spec:
  assumes "(gap, n1) = (if pos < r_off x then ([mk_proxy n pos (r_off x - pos) 1], n + 1) else ([], n))" "pos \<le> r_off x"
  shows "rls_ok gap" "y \<in> set gap \<Longrightarrow> is_px y \<and> pos = r_off y \<and> r_end y = r_off x \<and> r_cnt y = 1"
    "(\<Union>y \<in> set gap. rset y) = {pos ..< r_off x}" "mset (map r_addr gap) = mset [n..<n1]" "n \<le> n1"
  using assms by (auto simp: rls_ok_def rl_ok_def split: if_splits)

lemma gap_piece:
  assumes "(gap, n1) = (if pos < r_off x then ([mk_proxy n pos (r_off x - pos) 1], n + 1) else ([], n))" "pos \<le> r_off x"
    and "y \<in> set gap" "rls_ok (x # xs)" "r_off x < e"
  shows "spread_piece pos e (x # xs) y"
proof -
  note g = gap_spec(2) [OF assms(1,2,3)]
  have "r_off x \<le> r_off v" if "v \<in> set (x # xs)" for v
    using that assms(4) by (auto simp: rls_ok_Cons rl_ok_def intro: order.trans less_imp_le)
  then have "\<forall>v \<in> set (x # xs). \<not> overlap y v" using g by (auto simp: not_less)
  then show ?thesis using g assms(5) by (auto simp: spread_piece_def intro: order.trans less_imp_le)
qed

definition spread_ok :: "nat \<Rightarrow> rl list \<Rightarrow> u64 \<Rightarrow> u64 \<Rightarrow> rl list \<Rightarrow> rl list \<Rightarrow> rl list \<Rightarrow> nat \<Rightarrow> bool" where
  "spread_ok n ds pos e xs ys ds' n' \<longleftrightarrow> rls_ok ys \<and> (\<forall>y \<in> set ys. pos \<le> r_off y) \<and>
    (\<Union>y \<in> set ys. rset y) = (\<Union>x \<in> set xs. rset x) \<union> {pos ..< e} \<and>
    (\<forall>y \<in> set ys. spread_piece pos e xs y) \<and> (\<forall>x \<in> set xs. e \<le> r_off x \<longrightarrow> x \<in> set ys) \<and>
    ds' = rev (map (\<lambda>x. x\<lparr>r_cnt := 0\<rparr>) (filter (\<lambda>x. r_off x < e \<and> \<not> r_proxy x) xs)) @ ds \<and>
    mset (map r_addr (ys @ ds')) = mset (map r_addr (xs @ ds)) + mset [n..<n'] \<and> n \<le> n'"

lemma spread_ok_before:
  assumes "rls_ok (x # xs)" "pos < e" "e \<le> r_off x"
  shows "spread_ok n ds pos e (x # xs) (mk_proxy n pos (e - pos) 1 # x # xs) ds (n + 1)"
proof -
  have far: "e \<le> r_off v" if "v \<in> set (x # xs)" for v
    using that assms(1,3) by (auto simp: rls_ok_Cons rl_ok_def intro: order.trans less_imp_le)
  then have f: "filter (\<lambda>x. r_off x < e \<and> \<not> r_proxy x) (x # xs) = []" by (auto simp: filter_empty_conv not_less simp del: filter.simps)
  let ?y = "mk_proxy n pos (e - pos) 1"
  have "spread_piece pos e (x # xs) ?y"
    using far assms(2) unfolding spread_piece_def by (auto simp: not_less)
  moreover have "spread_piece pos e (x # xs) v" if "v \<in> set (x # xs)" for v
    using far [OF that] that by (simp add: spread_piece_def)
  moreover have "rls_ok (?y # x # xs)" using assms far by (auto simp: rls_ok_Cons [of ?y] rl_ok_def)
  moreover have "\<forall>y \<in> set (?y # x # xs). pos \<le> r_off y" using far assms(2) by (auto intro: order.trans less_imp_le)
  ultimately show ?thesis using f unfolding spread_ok_def by (auto simp del: filter.simps)
qed

lemma spread_ok_split:
  assumes ok: "rls_ok (x # xs)" and e: "pos \<le> r_off x" "r_off x < e" "e < r_end x" and sh: "rl_shareable x"
    and g: "(gap, n1) = (if pos < r_off x then ([mk_proxy n pos (r_off x - pos) 1], n + 1) else ([], n))"
    and l: "lsplit n1 ds x e = (front, rear, ds', n')"
  shows "spread_ok n ds pos e (x # xs) (gap @ rl_count front # rear # xs) ds' n'"
proof -
  note G = gap_spec [OF g e(1)] and L = lsplit_spec [OF l sh]
  have vs: "\<forall>v \<in> set xs. r_end x \<le> r_off v" "rls_ok xs" "rl_ok x" using ok by (auto simp: rls_ok_Cons)
  then have far: "\<forall>v \<in> set xs. e \<le> r_off v" using e by (auto intro: order.trans less_imp_le)
  have rl: "r_off rear + r_len rear = r_end x" "r_off front + r_len front = e" using L by simp_all
  have ok': "rls_ok (gap @ rl_count front # rear # xs)"
    using G(1,2) L e vs rl far by (auto simp: rls_ok_append rls_ok_Cons rl_ok_def)
  have pos: "\<forall>y \<in> set (gap @ rl_count front # rear # xs). pos \<le> r_off y"
    using G(2) L e far by (auto intro: order.trans less_imp_le)
  have fr: "rset (rl_count front) \<union> rset rear = rset x"
    using ivl_disj_un_two(3) [of "r_off x" e "r_end x"] rl e L(2,6) by simp
  have "(\<Union>y \<in> set (gap @ rl_count front # rear # xs). rset y) =
      ((\<Union>y \<in> set gap. rset y) \<union> (rset (rl_count front) \<union> rset rear)) \<union> (\<Union>x \<in> set xs. rset x)" by auto
  also have "\<dots> = ({pos ..< r_off x} \<union> rset x) \<union> (\<Union>x \<in> set xs. rset x)" unfolding G(3) fr ..
  also have "{pos ..< r_off x} \<union> rset x = rset x \<union> {pos ..< e}" by (rule ivl_fill) (use e in auto)
  also have "rset x \<union> {pos ..< e} \<union> (\<Union>x \<in> set xs. rset x) = (\<Union>x \<in> set (x # xs). rset x) \<union> {pos ..< e}" by auto
  finally have un: "(\<Union>y \<in> set (gap @ rl_count front # rear # xs). rset y) = (\<Union>x \<in> set (x # xs). rset x) \<union> {pos ..< e}" .
  have pc: "spread_piece pos e (x # xs) y" if "y \<in> set (gap @ rl_count front # rear # xs)" for y
  proof -
    have fr: "spread_piece pos e (x # xs) (rl_count front)" "spread_piece pos e (x # xs) rear"
      using L rl e unfolding spread_piece_def by (auto intro: order.trans less_imp_le)
    have "spread_piece pos e (x # xs) z" if "z \<in> set xs" for z using far that by (simp add: spread_piece_def)
    then show ?thesis using that gap_piece [OF g e(1) _ ok e(2)] fr unfolding set_append set_simps by blast
  qed
  have "filter (\<lambda>x. r_off x < e \<and> \<not> r_proxy x) xs = []" using far by (auto simp: filter_empty_conv not_less)
  then have ds: "ds' = rev (map (\<lambda>x. x\<lparr>r_cnt := 0\<rparr>) (filter (\<lambda>x. r_off x < e \<and> \<not> r_proxy x) (x # xs))) @ ds"
    using L(9) e by auto
  have "mset [n..<n'] = mset [n..<n1] + mset [n1..<n']" using G(5) L(11) by (metis mset_append upt_add_eq_append le_add_diff_inverse)
  then have ms: "mset (map r_addr ((gap @ rl_count front # rear # xs) @ ds')) = mset (map r_addr ((x # xs) @ ds)) + mset [n..<n']"
    using G(4) L(10) by simp
  have "n \<le> n'" using G(5) L(11) by simp
  moreover have "\<forall>z \<in> set (x # xs). e \<le> r_off z \<longrightarrow> z \<in> set (gap @ rl_count front # rear # xs)" using e(2) by auto
  ultimately show ?thesis unfolding spread_ok_def using ok' pos un pc ds ms by blast
qed

text \<open>The lock is made a proxy and counted, and the rest \<open>ys\<close> comes from the locks behind it.\<close>

lemma spread_ok_step:
  assumes ok: "rls_ok (x # xs)" and e: "pos \<le> r_off x" "r_end x \<le> e" and sh: "rl_shareable x"
    and g: "(gap, n1) = (if pos < r_off x then ([mk_proxy n pos (r_off x - pos) 1], n + 1) else ([], n))"
    and l: "lproxify n1 ds x = (y, ds1, n2)"
    and rest: "if e = r_end x then ys = xs \<and> ds' = ds1 \<and> n' = n2 else spread_ok n2 ds1 (r_end x) e xs ys ds' n'"
  shows "spread_ok n ds pos e (x # xs) (gap @ rl_count y # ys) ds' n'"
proof -
  note G = gap_spec [OF g e(1)] and L = lproxify_spec [OF l sh]
  have vs: "\<forall>v \<in> set xs. r_end x \<le> r_off v" "rls_ok xs" "rl_ok x" using ok by (auto simp: rls_ok_Cons)
  then have xe: "r_off x < e" using e(2) by (auto simp: rl_ok_def intro: less_le_trans)
  have "rls_ok ys \<and> (\<forall>y \<in> set ys. r_end x \<le> r_off y) \<and> (\<Union>y \<in> set ys. rset y) = (\<Union>x \<in> set xs. rset x) \<union> {r_end x ..< e} \<and>
        (\<forall>y \<in> set ys. spread_piece pos e (x # xs) y) \<and>
        ds' = rev (map (\<lambda>x. x\<lparr>r_cnt := 0\<rparr>) (filter (\<lambda>x. r_off x < e \<and> \<not> r_proxy x) xs)) @ ds1 \<and>
        mset (map r_addr (ys @ ds')) = mset (map r_addr (xs @ ds1)) + mset [n2..<n'] \<and> n2 \<le> n' \<and>
        (\<forall>z \<in> set xs. e \<le> r_off z \<longrightarrow> z \<in> set ys)"
  proof (cases "e = r_end x")
    case True
    then have "filter (\<lambda>x. r_off x < e \<and> \<not> r_proxy x) xs = []" using vs by (auto simp: filter_empty_conv not_less)
    then show ?thesis
      using True rest vs by (auto simp: spread_piece_def)
  next
    case False
    then show ?thesis
      using rest spread_piece_Cons [OF _ e(1) vs(3)] unfolding spread_ok_def by auto
  qed
  then have R: "rls_ok ys" "\<forall>y \<in> set ys. r_end x \<le> r_off y" "(\<Union>y \<in> set ys. rset y) = (\<Union>x \<in> set xs. rset x) \<union> {r_end x ..< e}"
    "\<forall>y \<in> set ys. spread_piece pos e (x # xs) y"
    "ds' = rev (map (\<lambda>x. x\<lparr>r_cnt := 0\<rparr>) (filter (\<lambda>x. r_off x < e \<and> \<not> r_proxy x) xs)) @ ds1"
    "mset (map r_addr (ys @ ds')) = mset (map r_addr (xs @ ds1)) + mset [n2..<n']" "n2 \<le> n'"
    "\<forall>z \<in> set xs. e \<le> r_off z \<longrightarrow> z \<in> set ys" by blast+
  have ok': "rls_ok (gap @ rl_count y # ys)"
    using G(1,2) L(2,3) R(1,2) vs(3) by (auto simp: rls_ok_append rls_ok_Cons rl_ok_def intro: order.trans less_imp_le)
  have pos: "\<forall>z \<in> set (gap @ rl_count y # ys). pos \<le> r_off z"
    using G(2) L(2) R(2) e(1) vs(3) by (auto simp: rl_ok_def intro: order.trans less_imp_le)
  have "(\<Union>z \<in> set (gap @ rl_count y # ys). rset z) = ((\<Union>z \<in> set gap. rset z) \<union> rset (rl_count y)) \<union> (\<Union>z \<in> set ys. rset z)" by auto
  also have "\<dots> = ({pos ..< r_off x} \<union> rset x) \<union> ((\<Union>x \<in> set xs. rset x) \<union> {r_end x ..< e})"
    unfolding G(3) R(3) by (simp add: L(2,3))
  also have "{pos ..< r_off x} \<union> rset x = rset x \<union> {pos ..< r_end x}"
    by (rule ivl_fill) (use vs(3) in \<open>auto simp: rl_ok_def\<close>)
  also have "rset x \<union> {pos ..< r_end x} \<union> ((\<Union>x \<in> set xs. rset x) \<union> {r_end x ..< e}) = (\<Union>x \<in> set (x # xs). rset x) \<union> {pos ..< e}"
  proof -
    have "{pos ..< r_end x} \<union> {r_end x ..< e} = {pos ..< e}"
      using e vs(3) by (intro ivl_disj_un_two(3)) (auto simp: rl_ok_def intro: order.trans less_imp_le)
    then show ?thesis by auto
  qed
  finally have un: "(\<Union>z \<in> set (gap @ rl_count y # ys). rset z) = (\<Union>x \<in> set (x # xs). rset x) \<union> {pos ..< e}" .
  have "spread_piece pos e (x # xs) (rl_count y)"
    using L e xe unfolding spread_piece_def by (auto intro: order.trans less_imp_le)
  then have pc: "\<forall>z \<in> set (gap @ rl_count y # ys). spread_piece pos e (x # xs) z"
    using gap_piece [OF g e(1) _ ok xe] R(4) unfolding set_append set_simps by blast
  have ds: "ds' = rev (map (\<lambda>x. x\<lparr>r_cnt := 0\<rparr>) (filter (\<lambda>x. r_off x < e \<and> \<not> r_proxy x) (x # xs))) @ ds"
    using R(5) L(5) xe by auto
  have "mset [n..<n'] = mset [n..<n1] + mset [n1..<n2] + mset [n2..<n']"
    using G(5) L(7) R(7) by (metis mset_append upt_add_eq_append le_add_diff_inverse le_trans)
  then have ms: "mset (map r_addr ((gap @ rl_count y # ys) @ ds')) = mset (map r_addr ((x # xs) @ ds)) + mset [n..<n']"
    using G(4) L(6) R(6) by simp
  have "n \<le> n'" using G(5) L(7) R(7) by simp
  moreover have "\<forall>z \<in> set (x # xs). e \<le> r_off z \<longrightarrow> z \<in> set (gap @ rl_count y # ys)" using xe R(8) by auto
  ultimately show ?thesis unfolding spread_ok_def using ok' pos un pc ds ms by blast
qed

lemma lspread_spec:
  assumes "rls_ok xs" "\<forall>x \<in> set xs. pos \<le> r_off x" "pos < e" "\<forall>x \<in> set xs. r_off x < e \<longrightarrow> rl_shareable x"
    and "lspread n ds pos e xs = (ys, ds', n')"
  shows "spread_ok n ds pos e xs ys ds' n'"
  using assms
proof (induction xs arbitrary: n ds pos ys ds' n')
  case Nil
  then show ?case by (auto simp: spread_ok_def rls_ok_def rl_ok_def spread_piece_def)
next
  case (Cons x xs)
  have okx: "rl_ok x" "rls_ok xs" "\<forall>v \<in> set xs. r_end x \<le> r_off v" using Cons.prems(1) by (auto simp: rls_ok_Cons)
  show ?case
  proof (cases "e \<le> r_off x")
    case True
    then show ?thesis using spread_ok_before [OF Cons.prems(1,3) True] Cons.prems(5) by auto
  next
    case False
    then have xe: "r_off x < e" "pos \<le> r_off x" "rl_shareable x" using Cons.prems(2,4) by auto
    obtain gap n1 where g: "(gap, n1) = (if pos < r_off x then ([mk_proxy n pos (r_off x - pos) 1], n + 1) else ([], n))"
      by (cases "pos < r_off x") auto
    show ?thesis
    proof (cases "e < r_end x")
      case True
      obtain front rear ds1 n2 where l: "lsplit n1 ds x e = (front, rear, ds1, n2)" by (metis prod_cases4)
      have "ys = gap @ rl_count front # rear # xs \<and> ds' = ds1 \<and> n' = n2"
        using Cons.prems(5) False True l g by (auto split: if_splits)
      then show ?thesis using spread_ok_split [OF Cons.prems(1) xe(2,1) True xe(3) g l] by simp
    next
      case nl: False
      obtain y ds1 n2 where l: "lproxify n1 ds x = (y, ds1, n2)" by (metis prod_cases3)
      obtain zs ds2 n3 where rec: "lspread n2 ds1 (r_end x) e xs = (zs, ds2, n3)" by (metis prod_cases3)
      let ?ys = "if e = r_end x then xs else zs"
      have ys: "ys = gap @ rl_count y # ?ys" "ds' = (if e = r_end x then ds1 else ds2)" "n' = (if e = r_end x then n2 else n3)"
        using Cons.prems(5) False nl l g rec by (auto split: if_splits)
      have "e \<noteq> r_end x \<Longrightarrow> spread_ok n2 ds1 (r_end x) e xs zs ds2 n3"
        by (rule Cons.IH [OF okx(2,3) _ _ rec]) (use nl Cons.prems(4) in auto)
      then show ?thesis unfolding ys(1) using ys(2,3) nl
        by (intro spread_ok_step [OF Cons.prems(1) xe(2) _ xe(3) g l]) auto
    qed
  qed
qed

subsection \<open>The invariant\<close>

text \<open>The number of detached handles that a lock in the tree stands for.\<close>

definition rl_cover :: "rl list \<Rightarrow> rl \<Rightarrow> nat" where
  "rl_cover ds x = length (filter (inside x) ds)"

definition rl_entry :: "rl list \<Rightarrow> rl \<Rightarrow> bool" where
  "rl_entry ds x \<longleftrightarrow> rl_ok x \<and> r_type x \<noteq> RL_APPEND \<and> (r_read_wanted x \<longrightarrow> r_type x = RL_WRITER \<or> r_write_wanted x) \<and>
     (if r_proxy x then r_type x = RL_READER \<and> 0 < rl_cover ds x \<and> unat (r_cnt x) = rl_cover ds x else r_cnt x = 1) \<and>
     (\<forall>h \<in> set ds. overlap x h \<longrightarrow> r_proxy x \<and> inside x h)"

definition rl_handle :: "rl \<Rightarrow> bool" where
  "rl_handle h \<longleftrightarrow> rl_ok h \<and> r_cnt h = 0 \<and> r_type h = RL_READER \<and> \<not> r_proxy h \<and> \<not> r_write_wanted h \<and> \<not> r_read_wanted h"

definition rls_inv :: "rl list \<Rightarrow> rl list \<Rightarrow> bool" where
  "rls_inv xs ds \<longleftrightarrow> rls_ok xs \<and> (\<forall>x \<in> set xs. rl_entry ds x) \<and> (\<forall>h \<in> set ds. rl_handle h) \<and>
     (\<forall>h \<in> set ds. rset h \<subseteq> (\<Union>x \<in> set xs. rset x))"

lemma rls_invD:
  assumes "rls_inv xs ds"
  shows "rls_ok xs" "x \<in> set xs \<Longrightarrow> rl_entry ds x" "h \<in> set ds \<Longrightarrow> rl_handle h" "h \<in> set ds \<Longrightarrow> rset h \<subseteq> (\<Union>x \<in> set xs. rset x)"
  using assms by (auto simp: rls_inv_def)

lemma rls_ok_unique:
  assumes "rls_ok xs" "x \<in> set xs" "y \<in> set xs" "overlap x y"
  shows "x = y"
  using assms
proof (induction xs)
  case (Cons a xs)
  then show ?case by (auto simp: rls_ok_Cons)
qed simp

lemma rls_ok_distinct: "rls_ok xs \<Longrightarrow> distinct xs"
proof (induction xs)
  case (Cons a xs)
  then show ?case by (auto simp: rls_ok_Cons rl_ok_def)
qed simp

text \<open>The pieces after a reader \<open>new\<close> was added.\<close>

definition add_piece :: "rl \<Rightarrow> rl list \<Rightarrow> rl \<Rightarrow> bool" where
  "add_piece new xs y \<longleftrightarrow>
     (y \<in> set xs \<and> \<not> overlap y new) \<or>
     (is_px y \<and> (\<exists>x \<in> set xs. inside y x \<and> overlap x new \<and>
        (if overlap y new then inside y new \<and> r_cnt y = r_cnt x + 1 else r_cnt y = r_cnt x))) \<or>
     (is_px y \<and> inside y new \<and> r_cnt y = 1 \<and> (\<forall>x \<in> set xs. \<not> overlap y x))"

definition add_detached :: "rl \<Rightarrow> rl list \<Rightarrow> rl list \<Rightarrow> rl list \<Rightarrow> bool" where
  "add_detached new xs ds ds' \<longleftrightarrow>
     mset ds' = mset (map (\<lambda>x. x\<lparr>r_cnt := 0\<rparr>) (filter (\<lambda>x. overlap x new \<and> \<not> r_proxy x) xs)) + mset (new\<lparr>r_cnt := 0\<rparr> # ds)"

lemma cover_mset: "rl_cover ds x = size (filter_mset (inside x) (mset ds))"
  by (simp add: rl_cover_def flip: mset_filter)

lemma cover_added:
  assumes "add_detached new xs ds ds'"
  shows "rl_cover ds' y = length (filter (\<lambda>x. overlap x new \<and> \<not> r_proxy x \<and> inside y x) xs) + (if inside y new then 1 else 0) + rl_cover ds y"
proof -
  have "rl_cover ds' y = rl_cover (map (\<lambda>x. x\<lparr>r_cnt := 0\<rparr>) (filter (\<lambda>x. overlap x new \<and> \<not> r_proxy x) xs)) y + rl_cover (new\<lparr>r_cnt := 0\<rparr> # ds) y"
    unfolding cover_mset assms [unfolded add_detached_def] by simp
  also have "rl_cover (map (\<lambda>x. x\<lparr>r_cnt := 0\<rparr>) (filter (\<lambda>x. overlap x new \<and> \<not> r_proxy x) xs)) y =
      length (filter (\<lambda>x. overlap x new \<and> \<not> r_proxy x \<and> inside y x) xs)"
    by (simp add: rl_cover_def filter_map comp_def)
  also have "rl_cover (new\<lparr>r_cnt := 0\<rparr> # ds) y = (if inside y new then 1 else 0) + rl_cover ds y"
    by (simp add: rl_cover_def)
  finally show ?thesis by simp
qed

lemma in_added: "add_detached new xs ds ds' \<Longrightarrow> h \<in> set ds' \<Longrightarrow>
    (\<exists>x \<in> set xs. h = x\<lparr>r_cnt := 0\<rparr> \<and> overlap x new \<and> \<not> r_proxy x) \<or> h = new\<lparr>r_cnt := 0\<rparr> \<or> h \<in> set ds"
proof -
  assume "add_detached new xs ds ds'" "h \<in> set ds'"
  then have "h \<in># mset (map (\<lambda>x. x\<lparr>r_cnt := 0\<rparr>) (filter (\<lambda>x. overlap x new \<and> \<not> r_proxy x) xs)) + mset (new\<lparr>r_cnt := 0\<rparr> # ds)"
    unfolding add_detached_def by (metis set_mset_mset)
  then show ?thesis by auto
qed

text \<open>The locks that a piece of a lock lies in, and the handles that cover it.\<close>

lemma inside_overlap: "rl_ok y \<Longrightarrow> inside y x \<Longrightarrow> inside y z \<Longrightarrow> overlap x z"
  unfolding rl_ok_def by (intro conjI; elim conjE; order)

lemma source_count:
  assumes ok: "rls_ok xs" and y: "rl_ok y" and x: "x \<in> set xs" "inside y x"
  shows "length (filter (\<lambda>x. P x \<and> inside y x) xs) = (if P x then 1 else 0)"
proof -
  have "z = x" if "z \<in> set xs" "inside y z" for z
    using rls_ok_unique [OF ok that(1) x(1)] inside_overlap [OF y that(2) x(2)] by blast
  then have "(P z \<and> inside y z) = (P x \<and> z = x)" if "z \<in> set xs" for z using x(2) that by blast
  then have "filter (\<lambda>z. P z \<and> inside y z) xs = filter (\<lambda>z. P x \<and> z = x) xs" by (rule filter_cong [OF refl])
  moreover have "length (filter (\<lambda>z. z = x) xs) = 1"
    using rls_ok_distinct [OF ok] x(1) by (simp add: distinct_length_filter Int_def conj_commute Collect_conv_if2 cong: conj_cong)
  ultimately show ?thesis by (cases "P x") auto
qed

lemma source_cover:
  assumes inv: "rls_inv xs ds" and y: "rl_ok y" and x: "x \<in> set xs" "inside y x"
  shows "rl_cover ds y = (if r_proxy x then unat (r_cnt x) else 0)"
    "h \<in> set ds \<Longrightarrow> overlap y h \<Longrightarrow> r_proxy x \<and> inside y h"
proof -
  have e: "rl_entry ds x" using rls_invD(2) [OF inv x(1)] .
  have ov: "overlap x h" if "overlap y h" for h using that x(2) by (auto intro: order.strict_trans1 order.strict_trans2)
  show h: "h \<in> set ds \<Longrightarrow> overlap y h \<Longrightarrow> r_proxy x \<and> inside y h" for h
    using e ov [of h] x(2) by (auto simp: rl_entry_def intro: order.trans)
  have i: "inside y h \<longleftrightarrow> inside x h" if "h \<in> set ds" for h
    using inside_overlap [OF y x(2), of h] e that x(2) by (auto simp: rl_entry_def intro: order.trans)
  have "rl_cover ds y = rl_cover ds x" unfolding rl_cover_def using i by (metis (mono_tags, lifting) filter_cong)
  moreover have "rl_cover ds x = 0" if "\<not> r_proxy x"
    using e that inside_overlap [of x x] by (auto simp: rl_entry_def rl_cover_def filter_empty_conv)
  ultimately show "rl_cover ds y = (if r_proxy x then unat (r_cnt x) else 0)" using e by (auto simp: rl_entry_def)
qed

subsection \<open>Adding a reader keeps the invariant\<close>

lemma overlap_mono: "inside y x \<Longrightarrow> overlap y z \<Longrightarrow> overlap x z"
  by (intro conjI; elim conjE; order)

lemma overlap_refl: "rl_ok y \<Longrightarrow> inside y x \<Longrightarrow> overlap y x"
  unfolding rl_ok_def by (intro conjI; elim conjE; order)

lemma is_pxD: "is_px y \<Longrightarrow> r_proxy y" "is_px y \<Longrightarrow> r_type y = RL_READER" "is_px y \<Longrightarrow> \<not> r_write_wanted y" "is_px y \<Longrightarrow> \<not> r_read_wanted y"
  by (simp_all add: is_px_def)

lemma cnt_bound:
  assumes "rls_inv xs ds" "x \<in> set xs" "length ds + 2 < 2 ^ 32" shows "unat (r_cnt x + 1) = unat (r_cnt x) + 1"
proof -
  have "unat (r_cnt x) \<le> length ds + 1"
    using rls_invD(2) [OF assms(1,2)] le_SucI [OF length_filter_le [of "inside x" ds]] by (auto simp: rl_entry_def rl_cover_def split: if_splits)
  then show ?thesis using assms(3) by (simp add: unat_word_ariths)
qed

text \<open>A lock of the tree cannot overlap a lock detached just now unless it is a part of it.\<close>

lemma entry_overlaps:
  assumes ad: "add_detached new xs ds ds'" and h: "h \<in> set ds'" "overlap y h"
    and old: "\<forall>h \<in> set ds. overlap y h \<longrightarrow> r_proxy y \<and> inside y h"
    and det: "\<forall>x \<in> set xs. overlap x new \<longrightarrow> \<not> r_proxy x \<longrightarrow> overlap y x \<longrightarrow> r_proxy y \<and> inside y x"
    and nw: "overlap y new \<longrightarrow> r_proxy y \<and> inside y new"
  shows "r_proxy y \<and> inside y h"
proof -
  consider x where "x \<in> set xs" "h = x\<lparr>r_cnt := 0\<rparr>" "overlap x new" "\<not> r_proxy x" | "h = new\<lparr>r_cnt := 0\<rparr>" | "h \<in> set ds"
    using in_added [OF ad h(1)] by blast
  then show ?thesis
  proof cases
    case 1
    then show ?thesis using det h(2) by simp
  next
    case 2
    then show ?thesis using nw h(2) by simp
  next
    case 3
    then show ?thesis using old h(2) by blast
  qed
qed

lemma add_inv_source:
  assumes inv: "rls_inv xs ds" and ad: "add_detached new xs ds ds'" and bound: "length ds + 2 < 2 ^ 32"
    and y: "rl_ok y" "is_px y" and x: "x \<in> set xs" "inside y x" "overlap x new" "rl_shareable x"
    and i: "if overlap y new then inside y new \<and> r_cnt y = r_cnt x + 1 else r_cnt y = r_cnt x"
  shows "rl_entry ds' y"
proof -
  note ok = rls_invD(1) [OF inv]
  have ov: "\<forall>h \<in> set ds'. overlap y h \<longrightarrow> r_proxy y \<and> inside y h"
  proof (intro ballI impI, rule entry_overlaps [OF ad])
    show "\<forall>h \<in> set ds. overlap y h \<longrightarrow> r_proxy y \<and> inside y h"
      using source_cover(2) [OF inv y(1) x(1,2)] is_pxD(1) [OF y(2)] by blast
    show "\<forall>z \<in> set xs. overlap z new \<longrightarrow> \<not> r_proxy z \<longrightarrow> overlap y z \<longrightarrow> r_proxy y \<and> inside y z"
      using rls_ok_unique [OF ok x(1)] overlap_mono [OF x(2)] x(2) is_pxD(1) [OF y(2)] by blast
    show "overlap y new \<longrightarrow> r_proxy y \<and> inside y new" using i is_pxD(1) [OF y(2)] by auto
  qed
  have c: "rl_cover ds' y = (if \<not> r_proxy x then 1 else 0) + (if inside y new then 1 else 0) + (if r_proxy x then unat (r_cnt x) else 0)"
    using cover_added [OF ad, of y] source_count [OF ok y(1) x(1,2), of "\<lambda>x. overlap x new \<and> \<not> r_proxy x"]
      source_cover(1) [OF inv y(1) x(1,2)] x(3) by (simp add: conj_assoc)
  have n: "inside y new \<longleftrightarrow> overlap y new"
  proof (cases "overlap y new")
    case True
    then show ?thesis using i [unfolded if_P [OF True]] by blast
  next
    case False
    then show ?thesis using overlap_refl [OF y(1), of new] by blast
  qed
  have cx: "0 < unat (r_cnt x)" using rls_invD(2) [OF inv x(1)] by (auto simp: rl_entry_def split: if_splits)
  have one: "\<not> r_proxy x \<Longrightarrow> r_cnt x = 1" using x(4) by (simp add: rl_shareable_def)
  have "unat (r_cnt y) = rl_cover ds' y \<and> 0 < rl_cover ds' y"
  proof (cases "overlap y new")
    case True
    then show ?thesis using c n i [unfolded if_P [OF True]] cx one cnt_bound [OF inv x(1) bound] by (cases "r_proxy x") simp_all
  next
    case False
    then show ?thesis using c n i [unfolded if_not_P [OF False]] cx one by (cases "r_proxy x") simp_all
  qed
  then show ?thesis using ov y is_pxD [OF y(2)] by (simp add: rl_entry_def)
qed

lemma add_inv_same:
  assumes inv: "rls_inv xs ds" and ad: "add_detached new xs ds ds'" and y: "y \<in> set xs" "\<not> overlap y new"
  shows "rl_entry ds' y"
proof -
  note ok = rls_invD(1) [OF inv] and e = rls_invD(2) [OF inv y(1)]
  have oky: "rl_ok y" using e by (simp add: rl_entry_def)
  have ov: "\<forall>h \<in> set ds'. overlap y h \<longrightarrow> r_proxy y \<and> inside y h"
  proof (intro ballI impI, rule entry_overlaps [OF ad])
    show "\<forall>h \<in> set ds. overlap y h \<longrightarrow> r_proxy y \<and> inside y h" using e by (simp add: rl_entry_def)
    show "\<forall>z \<in> set xs. overlap z new \<longrightarrow> \<not> r_proxy z \<longrightarrow> overlap y z \<longrightarrow> r_proxy y \<and> inside y z"
      using rls_ok_unique [OF ok y(1)] y(2) by blast
    show "overlap y new \<longrightarrow> r_proxy y \<and> inside y new" using y(2) by blast
  qed
  have "\<not> inside y new" using overlap_refl [OF oky, of new] y(2) by blast
  then have "rl_cover ds' y = rl_cover ds y"
    using cover_added [OF ad, of y] source_count [OF ok oky y(1), of "\<lambda>x. overlap x new \<and> \<not> r_proxy x"] y(2) by (simp add: conj_assoc)
  then show ?thesis using e ov by (simp add: rl_entry_def)
qed

lemma add_inv_gap:
  assumes inv: "rls_inv xs ds" and ad: "add_detached new xs ds ds'"
    and y: "rl_ok y" "is_px y" "inside y new" "r_cnt y = 1" "\<forall>x \<in> set xs. \<not> overlap y x"
  shows "rl_entry ds' y"
proof -
  have no: "\<not> overlap y h" if hd: "h \<in> set ds" for h
  proof
    assume o: "overlap y h"
    let ?a = "max (r_off y) (r_off h)"
    have hok: "rl_ok h" using rls_invD(3) [OF inv hd] by (simp add: rl_handle_def)
    have "?a \<in> rset h" using o hok by (auto simp: rl_ok_def max_def)
    then obtain x where x: "x \<in> set xs" "?a \<in> rset x" using rls_invD(4) [OF inv hd] by blast
    have "?a \<in> rset y" using o y(1) by (auto simp: rl_ok_def max_def)
    then have "overlap y x" using x(2) by (auto intro: order.strict_trans1)
    then show False using y(5) x(1) by blast
  qed
  have ov: "\<forall>h \<in> set ds'. overlap y h \<longrightarrow> r_proxy y \<and> inside y h"
    by (intro ballI impI, rule entry_overlaps [OF ad]) (use no y(3,5) is_pxD(1) [OF y(2)] in blast)+
  have none: "filter (\<lambda>x. overlap x new \<and> \<not> r_proxy x \<and> inside y x) xs = []"
    unfolding filter_empty_conv using y(5) overlap_refl [OF y(1)] by blast
  have "filter (inside y) ds = []" unfolding filter_empty_conv using no overlap_refl [OF y(1)] by blast
  then have "rl_cover ds y = 0" by (simp add: rl_cover_def)
  then have "rl_cover ds' y = 1" using cover_added [OF ad, of y] none y(3) by simp
  then show ?thesis using ov y is_pxD [OF y(2)] by (simp add: rl_entry_def)
qed

lemma add_inv:
  assumes inv: "rls_inv xs ds" and new: "rl_ok new" "r_type new = RL_READER" "\<not> r_proxy new" "\<not> r_write_wanted new" "\<not> r_read_wanted new"
    and ad: "add_detached new xs ds ds'"
    and sh: "\<forall>x \<in> set xs. overlap x new \<longrightarrow> rl_shareable x" and bound: "length ds + 2 < 2 ^ 32"
    and ys: "rls_ok ys" "\<forall>y \<in> set ys. add_piece new xs y" "(\<Union>y \<in> set ys. rset y) = (\<Union>x \<in> set xs. rset x) \<union> rset new"
  shows "rls_inv ys ds'"
proof -
  have "rl_entry ds' y" if "y \<in> set ys" for y
  proof -
    have y: "rl_ok y" "add_piece new xs y" using that ys(1,2) by (auto simp: rls_ok_def)
    consider "y \<in> set xs" "\<not> overlap y new"
      | x where "is_px y" "x \<in> set xs" "inside y x" "overlap x new" "if overlap y new then inside y new \<and> r_cnt y = r_cnt x + 1 else r_cnt y = r_cnt x"
      | "is_px y" "inside y new" "r_cnt y = 1" "\<forall>x \<in> set xs. \<not> overlap y x"
      using y(2) unfolding add_piece_def by blast
    then show ?thesis
    proof cases
      case 1
      then show ?thesis by (rule add_inv_same [OF inv ad])
    next
      case 2
      then show ?thesis using sh by (intro add_inv_source [OF inv ad bound y(1)]) auto
    next
      case 3
      then show ?thesis by (rule add_inv_gap [OF inv ad y(1)])
    qed
  qed
  moreover have "rl_handle h \<and> rset h \<subseteq> (\<Union>y \<in> set ys. rset y)" if hd: "h \<in> set ds'" for h
  proof -
    consider x where "x \<in> set xs" "h = x\<lparr>r_cnt := 0\<rparr>" "overlap x new" "\<not> r_proxy x" | "h = new\<lparr>r_cnt := 0\<rparr>" | "h \<in> set ds"
      using in_added [OF ad hd] by blast
    then show ?thesis
    proof cases
      case 1
      then have "rl_shareable x" "rl_ok x" using sh rls_invD(1) [OF inv] by (auto simp: rls_ok_def)
      then have "rl_handle h" using 1(2,4) by (simp add: rl_handle_def rl_shareable_def rl_ok_def)
      moreover have "rset h \<subseteq> (\<Union>x \<in> set xs. rset x)" using 1(1) unfolding 1(2) by auto
      ultimately show ?thesis unfolding ys(3) by blast
    next
      case 2
      then show ?thesis unfolding ys(3) using new by (auto simp: rl_handle_def rl_ok_def)
    next
      case 3
      then show ?thesis unfolding ys(3) using rls_invD(3,4) [OF inv 3] by blast
    qed
  qed
  ultimately show ?thesis using ys(1) unfolding rls_inv_def by blast
qed

lemma lspread_gap:
  assumes "off \<le> r_off x" "r_off x < e" "lspread n ds off e (x # xs) = (ys, ds', n')"
    "(gap, n1) = (if off < r_off x then ([mk_proxy n off (r_off x - off) 1], n + 1) else ([], n))"
  shows "\<exists>zs. lspread n1 ds (r_off x) e (x # xs) = (zs, ds', n') \<and> ys = gap @ zs"
  using assms by (auto simp: Let_def split: if_splits prod.splits)

text \<open>What adding a reader leads to, whichever of its branches is taken.\<close>

definition add_ok :: "rl \<Rightarrow> rl list \<Rightarrow> rl list \<Rightarrow> nat \<Rightarrow> rl list \<Rightarrow> rl list \<Rightarrow> nat \<Rightarrow> bool" where
  "add_ok new xs ds n ys ds' n' \<longleftrightarrow> rls_ok ys \<and> (\<forall>y \<in> set ys. add_piece new xs y) \<and>
     (\<Union>y \<in> set ys. rset y) = (\<Union>x \<in> set xs. rset x) \<union> rset new \<and>
     (\<forall>x \<in> set xs. \<not> overlap x new \<longrightarrow> x \<in> set ys) \<and> add_detached new xs ds ds' \<and>
     mset (map r_addr (ys @ ds')) = mset (map r_addr (xs @ ds)) + {#r_addr new#} + mset [n..<n'] \<and> n \<le> n'"

lemma spread_add_piece:
  assumes "spread_piece (r_off new) (r_end new) vs y" "rl_ok y" "\<forall>u \<in> set us. r_end u \<le> r_off new" "rls_ok vs" "\<forall>v \<in> set vs. r_off new \<le> r_off v"
  shows "add_piece new (us @ vs) y"
proof -
  have ov: "overlap x new" if "x \<in> set vs" "r_off x < r_end new" for x
    using that assms(4,5) by (auto simp: rls_ok_def rl_ok_def intro: order.strict_trans1)
  consider "y \<in> set vs" "r_end new \<le> r_off y"
    | x where "is_px y" "inside y new" "x \<in> set vs" "inside y x" "r_off x < r_end new" "r_cnt y = r_cnt x + 1"
    | x where "is_px y" "r_end new \<le> r_off y" "x \<in> set vs" "inside y x" "r_off x < r_end new" "r_cnt y = r_cnt x"
    | "is_px y" "inside y new" "r_cnt y = 1" "\<forall>x \<in> set vs. \<not> overlap y x"
    using assms(1) unfolding spread_piece_def by blast
  then show ?thesis
  proof cases
    case 1
    then have "\<not> overlap y new" by (simp add: not_less)
    then show ?thesis using 1 unfolding add_piece_def by auto
  next
    case 2
    then show ?thesis using ov [OF 2(3,5)] overlap_refl [OF assms(2) 2(2)] unfolding add_piece_def by auto
  next
    case 3
    then have "\<not> overlap y new" by (simp add: not_less)
    then show ?thesis using 3 ov [OF 3(3,5)] unfolding add_piece_def by auto
  next
    case 4
    have "\<not> overlap y u" if "u \<in> set us" for u using assms(3) 4(2) that by (auto simp: not_less intro: order.trans)
    then show ?thesis using 4 unfolding add_piece_def by auto
  qed
qed

lemma overlap_after:
  assumes "rls_ok vs" "\<forall>v \<in> set vs. r_off new \<le> r_off v" "x \<in> set vs"
  shows "overlap x new \<longleftrightarrow> r_off x < r_end new"
  using assms by (auto simp: rls_ok_def rl_ok_def intro: order.strict_trans1)

lemma add_ok_spread:
  assumes ok: "rls_ok (us @ vs)" and us: "\<forall>u \<in> set us. r_end u \<le> r_off new" and vs: "\<forall>v \<in> set vs. r_off new \<le> r_off v"
    and new: "rl_ok new" and sh: "\<forall>x \<in> set vs. r_off x < r_end new \<longrightarrow> rl_shareable x"
    and l: "lspread n (new\<lparr>r_cnt := 0\<rparr> # ds) (r_off new) (r_end new) vs = (ys, ds', n')"
  shows "add_ok new (us @ vs) ds n (us @ ys) ds' n'"
proof -
  have okv: "rls_ok vs" using ok by (simp add: rls_ok_append)
  have S: "rls_ok ys" "\<forall>y \<in> set ys. r_off new \<le> r_off y" "(\<Union>y \<in> set ys. rset y) = (\<Union>x \<in> set vs. rset x) \<union> rset new"
    "\<forall>y \<in> set ys. spread_piece (r_off new) (r_end new) vs y" "\<forall>x \<in> set vs. r_end new \<le> r_off x \<longrightarrow> x \<in> set ys"
    "ds' = rev (map (\<lambda>x. x\<lparr>r_cnt := 0\<rparr>) (filter (\<lambda>x. r_off x < r_end new \<and> \<not> r_proxy x) vs)) @ new\<lparr>r_cnt := 0\<rparr> # ds"
    "mset (map r_addr (ys @ ds')) = mset (map r_addr (vs @ new\<lparr>r_cnt := 0\<rparr> # ds)) + mset [n..<n']" "n \<le> n'"
    using lspread_spec [OF okv vs _ sh l] new unfolding spread_ok_def by (auto simp: rl_ok_def)
  have ov: "overlap x new \<longleftrightarrow> r_off x < r_end new" if "x \<in> set vs" for x using overlap_after [OF okv vs that] .
  have nov: "\<not> overlap u new" if "u \<in> set us" for u using us that by (auto simp: not_less)
  have "rls_ok (us @ ys)" using ok S(1,2) us by (auto simp: rls_ok_append intro: order.trans)
  moreover have "add_piece new (us @ vs) y" if "y \<in> set (us @ ys)" for y
  proof (cases "y \<in> set us")
    case True
    then show ?thesis using nov unfolding add_piece_def by auto
  next
    case False
    then have y: "y \<in> set ys" using that by simp
    then have "rl_ok y" using S(1) by (simp add: rls_ok_def)
    then show ?thesis using spread_add_piece [OF bspec [OF S(4) y] _ us okv vs] by blast
  qed
  moreover have "(\<Union>y \<in> set (us @ ys). rset y) = (\<Union>x \<in> set (us @ vs). rset x) \<union> rset new"
    unfolding set_append UN_Un S(3) by (simp add: Un_assoc)
  moreover have "x \<in> set (us @ ys)" if "x \<in> set (us @ vs)" "\<not> overlap x new" for x
    using that S(5) ov [of x] by (auto simp: not_less)
  moreover have "add_detached new (us @ vs) ds ds'"
  proof -
    have "filter (\<lambda>x. overlap x new \<and> \<not> r_proxy x) us = []" unfolding filter_empty_conv using nov by blast
    moreover have "filter (\<lambda>x. overlap x new \<and> \<not> r_proxy x) vs = filter (\<lambda>x. r_off x < r_end new \<and> \<not> r_proxy x) vs"
      by (rule filter_cong [OF refl]) (use ov in blast)
    ultimately show ?thesis unfolding add_detached_def filter_append S(6) by simp
  qed
  moreover have "mset (map r_addr ((us @ ys) @ ds')) = mset (map r_addr ((us @ vs) @ ds)) + {#r_addr new#} + mset [n..<n']"
    using S(7) by simp
  ultimately show ?thesis using S(8) unfolding add_ok_def by blast
qed

lemma add_ok_split:
  assumes ok: "rls_ok (us @ p # vs)" and p: "r_off p < r_off new" "r_off new < r_end p" "rl_shareable p" and new: "rl_ok new"
    and sh: "\<forall>x \<in> set vs. r_off x < r_end new \<longrightarrow> rl_shareable x"
    and l: "lsplit n ds p (r_off new) = (front, rear, ds1, n1)"
    and a: "add_ok new (us @ front # rear # vs) ds1 n1 ys ds' n'"
  shows "add_ok new (us @ p # vs) ds n ys ds' n'"
proof -
  note L = lsplit_spec [OF l p(3)]
  let ?xs = "us @ p # vs" and ?zs = "us @ front # rear # vs"
  have pr: "r_proxy front" "r_proxy rear" using L(1,5) by (simp_all add: is_px_def)
  have en: "r_off front + r_len front = r_off new" "r_off rear + r_len rear = r_end p" using L(3,7) by simp_all
  have A: "rls_ok ys" "\<forall>y \<in> set ys. add_piece new ?zs y" "(\<Union>y \<in> set ys. rset y) = (\<Union>x \<in> set ?zs. rset x) \<union> rset new"
    "\<forall>x \<in> set ?zs. \<not> overlap x new \<longrightarrow> x \<in> set ys" "add_detached new ?zs ds1 ds'"
    "mset (map r_addr (ys @ ds')) = mset (map r_addr (?zs @ ds1)) + {#r_addr new#} + mset [n1..<n']" "n1 \<le> n'"
    using a unfolding add_ok_def by blast+
  have ovp: "overlap p new" using p(1,2) new by (auto simp: rl_ok_def intro: order.strict_trans)
  have novf: "\<not> overlap front new" using en by simp
  have ovr: "overlap rear new" using new p(2) L(6) en by (simp add: rl_ok_def)
  have piece: "add_piece new ?xs y" if y: "y \<in> set ys" for y
  proof -
    have yok: "rl_ok y" using A(1) y by (simp add: rls_ok_def)
    have inf: "inside y front \<Longrightarrow> inside y p" "inside y rear \<Longrightarrow> inside y p" "overlap y p \<Longrightarrow> overlap y front \<or> overlap y rear"
      using L(2,6) en p(1,2) yok unfolding rl_ok_def by (auto simp: not_less intro: order.trans less_imp_le)
    consider "y \<in> set ?zs" "\<not> overlap y new"
      | x where "is_px y" "x \<in> set ?zs" "inside y x" "overlap x new" "if overlap y new then inside y new \<and> r_cnt y = r_cnt x + 1 else r_cnt y = r_cnt x"
      | "is_px y" "inside y new" "r_cnt y = 1" "\<forall>x \<in> set ?zs. \<not> overlap y x"
      using bspec [OF A(2) y] unfolding add_piece_def by blast
    then show ?thesis
    proof cases
      case 1
      show ?thesis
      proof (cases "y \<in> set us \<union> set vs")
        case True
        then show ?thesis using 1(2) unfolding add_piece_def by auto
      next
        case False
        then have "y = front" using 1 ovr by auto
        moreover have "inside front p" using en L(2) p(2) by simp
        ultimately show ?thesis using ovp novf L(1,4) unfolding add_piece_def by (simp add: if_not_P [OF novf])
      qed
    next
      case 2
      have "\<exists>x' \<in> set ?xs. inside y x' \<and> overlap x' new \<and> r_cnt x' = r_cnt x"
      proof (cases "x \<in> set us \<union> set vs")
        case True
        then show ?thesis using 2 by auto
      next
        case False
        then have "x = rear" using 2(2,4) novf by auto
        then show ?thesis using inf(2) 2(3) ovp L(8) by auto
      qed
      then show ?thesis using 2(1,5) unfolding add_piece_def by metis
    next
      case 3
      then have "\<not> overlap y p" using inf(3) by auto
      then show ?thesis using 3 unfolding add_piece_def by auto
    qed
  qed
  have "rset front \<union> rset rear = rset p"
    using ivl_disj_un_two(3) [of "r_off p" "r_off new" "r_end p"] L(2,6) en p(1,2) by simp
  then have un: "(\<Union>x \<in> set ?zs. rset x) = (\<Union>x \<in> set ?xs. rset x)" by auto
  have det: "add_detached new ?xs ds ds'"
  proof -
    have "mset (filter (\<lambda>x. overlap x new \<and> \<not> r_proxy x) ?zs) = mset (filter (\<lambda>x. overlap x new \<and> \<not> r_proxy x) (us @ vs))" using pr by simp
    then show ?thesis using A(5) L(9) ovp unfolding add_detached_def mset_map by (cases "r_proxy p") auto
  qed
  have "mset [n..<n'] = mset [n..<n1] + mset [n1..<n']" using L(11) A(7) by (metis mset_append upt_add_eq_append le_add_diff_inverse)
  then have ms: "mset (map r_addr (ys @ ds')) = mset (map r_addr (?xs @ ds)) + {#r_addr new#} + mset [n..<n']"
    using A(6) L(10) by (simp add: add_mset_commute)
  have "\<forall>x \<in> set ?xs. \<not> overlap x new \<longrightarrow> x \<in> set ys" using A(4) ovp by auto
  moreover have "n \<le> n'" using L(11) A(7) by simp
  ultimately show ?thesis using A(1) A(3) [unfolded un] piece det ms unfolding add_ok_def by blast
qed

subsection \<open>Granting a lock\<close>

text \<open>What the holders know of their locks: the address, the range and the type.\<close>

definition rl_id :: "rl \<Rightarrow> nat \<times> u64 \<times> u64 \<times> rl_type" where
  "rl_id h = (r_addr h, r_off h, r_len h, r_type h)"

definition rl_holders :: "rl list \<Rightarrow> rl list \<Rightarrow> (nat \<times> u64 \<times> u64 \<times> rl_type) multiset" where
  "rl_holders xs ds = mset (map rl_id (filter (\<lambda>x. \<not> r_proxy x) xs @ ds))"

text \<open>After the lock \<open>new\<close> is granted it is among those held, and nothing else has changed for
  the holders; a lock that somebody waits for is still in the tree.\<close>

definition rl_grant :: "rl \<Rightarrow> rl list \<Rightarrow> rl list \<Rightarrow> nat \<Rightarrow> rl list \<Rightarrow> rl list \<Rightarrow> nat \<Rightarrow> bool" where
  "rl_grant new xs ds n ys ds' n' \<longleftrightarrow> rls_inv ys ds' \<and> rl_holders ys ds' = rl_holders xs ds + {#rl_id new#} \<and>
     (\<forall>x \<in> set xs. r_write_wanted x \<or> r_read_wanted x \<longrightarrow> x \<in> set ys) \<and>
     mset (map r_addr (ys @ ds')) = mset (map r_addr (xs @ ds)) + {#r_addr new#} + mset [n..<n'] \<and> n \<le> n'"

definition rl_request :: "rl \<Rightarrow> bool" where
  "rl_request new \<longleftrightarrow> rl_ok new \<and> r_cnt new = 1 \<and> \<not> r_proxy new \<and> \<not> r_write_wanted new \<and> \<not> r_read_wanted new"

lemma rl_id_cnt [simp]: "rl_id (x\<lparr>r_cnt := c\<rparr>) = rl_id x"
  by (simp add: rl_id_def)

lemma uncovered:
  assumes inv: "rls_inv xs ds" and y: "rl_ok y" "\<forall>x \<in> set xs. \<not> overlap y x" and h: "h \<in> set ds"
  shows "\<not> overlap y h"
proof
  assume o: "overlap y h"
  let ?a = "max (r_off y) (r_off h)"
  have hok: "rl_ok h" using rls_invD(3) [OF inv h] by (simp add: rl_handle_def)
  have "?a \<in> rset h" using o hok by (auto simp: rl_ok_def max_def)
  then obtain x where x: "x \<in> set xs" "?a \<in> rset x" using rls_invD(4) [OF inv h] by blast
  have "?a \<in> rset y" using o y(1) by (auto simp: rl_ok_def max_def)
  then have "overlap y x" using x(2) by (auto intro: order.strict_trans1)
  then show False using y(2) x(1) by blast
qed

lemma add_ok_grant:
  assumes inv: "rls_inv xs ds" and new: "rl_request new" "r_type new = RL_READER"
    and sh: "\<forall>x \<in> set xs. overlap x new \<longrightarrow> rl_shareable x" and bound: "length ds + 2 < 2 ^ 32"
    and a: "add_ok new xs ds n ys ds' n'"
  shows "rl_grant new xs ds n ys ds' n'"
proof -
  have A: "rls_ok ys" "\<forall>y \<in> set ys. add_piece new xs y" "(\<Union>y \<in> set ys. rset y) = (\<Union>x \<in> set xs. rset x) \<union> rset new"
    "\<forall>x \<in> set xs. \<not> overlap x new \<longrightarrow> x \<in> set ys" "add_detached new xs ds ds'"
    using a unfolding add_ok_def by blast+
  have "rls_inv ys ds'"
    by (rule add_inv [OF inv _ new(2) _ _ _ A(5) sh bound A(1-3)]) (use new(1) in \<open>simp_all add: rl_request_def\<close>)
  moreover have "rl_holders ys ds' = rl_holders xs ds + {#rl_id new#}"
  proof -
    let ?np = "\<lambda>x. \<not> r_proxy x"
    have "y \<in> set xs \<and> \<not> overlap y new" if "y \<in> set ys" "?np y" for y
      using bspec [OF A(2) that(1)] that(2) is_pxD(1) [of y] unfolding add_piece_def by blast
    then have "set (filter ?np ys) = set (filter (\<lambda>x. ?np x \<and> \<not> overlap x new) xs)"
      using A(4) unfolding set_filter by blast
    then have eq: "mset (filter ?np ys) = mset (filter (\<lambda>x. ?np x \<and> \<not> overlap x new) xs)"
      using rls_ok_distinct [OF A(1)] rls_ok_distinct [OF rls_invD(1) [OF inv]] by (intro set_eq_iff_mset_eq_distinct [THEN iffD1]) simp_all
    have "mset (filter ?np xs) = mset (filter (\<lambda>x. ?np x \<and> \<not> overlap x new) xs) + mset (filter (\<lambda>x. overlap x new \<and> ?np x) xs)"
      by (induction xs) auto
    then show ?thesis using eq A(5) unfolding rl_holders_def add_detached_def map_append mset_append mset_map
      by (simp add: multiset.map_comp comp_def)
  qed
  moreover have "\<forall>x \<in> set xs. r_write_wanted x \<or> r_read_wanted x \<longrightarrow> x \<in> set ys"
    using A(4) sh by (auto simp: rl_shareable_def)
  ultimately show ?thesis using a unfolding add_ok_def rl_grant_def by blast
qed

lemma insert_grant:
  assumes inv: "rls_inv (us @ vs) ds" and new: "rl_request new" "r_type new \<noteq> RL_APPEND"
    and us: "\<forall>u \<in> set us. r_end u \<le> r_off new" and vs: "\<forall>v \<in> set vs. r_end new \<le> r_off v"
  shows "rl_grant new (us @ vs) ds n (us @ new # vs) ds n"
proof -
  have ok: "rl_ok new" using new(1) by (simp add: rl_request_def)
  have no: "\<forall>x \<in> set (us @ vs). \<not> overlap new x" using us vs by (auto simp: not_less)
  have "rls_ok (us @ new # vs)" using rls_invD(1) [OF inv] us vs ok by (auto simp: rls_ok_append rls_ok_Cons)
  moreover have "rl_entry ds new" using new uncovered [OF inv ok no] by (simp add: rl_request_def rl_entry_def)
  moreover have "rset h \<subseteq> (\<Union>x \<in> set (us @ new # vs). rset x)" if "h \<in> set ds" for h using rls_invD(4) [OF inv that] by auto
  ultimately have "rls_inv (us @ new # vs) ds" using inv unfolding rls_inv_def by auto
  then show ?thesis using new(1) by (auto simp: rl_grant_def rl_holders_def rl_request_def)
qed

lemma add_reader_insert:
  assumes s: "rl_state st (us @ vs) ds n" and w: "avl_place (z_range_avl st) w us vs"
    and lt: "\<forall>u \<in> set us. r_off u < r_off new" "\<forall>v \<in> set vs. r_off new < r_off v"
    and no: "\<forall>p. prev = Some p \<longrightarrow> r_end p \<le> r_off new" "\<forall>v. hd_opt vs = Some v \<longrightarrow> r_end new \<le> r_off v"
  shows "\<exists>st'. zfs_range_add_reader st new prev w = Some st' \<and> rl_state st' (us @ new # vs) ds n"
proof -
  have t: "rl_tree st (us @ vs)" using s by (simp add: rl_state_def)
  have "(case prev of None \<Rightarrow> Some (st, None)
      | Some prev \<Rightarrow> if r_end prev \<le> r_off new then Some (st, None)
          else if r_off prev \<noteq> r_off new
          then map_option (\<lambda>(st, front). (st, AVL_NEXT (z_range_avl st) front)) (zfs_range_split st prev (r_off new))
          else Some (st, Some prev)) = Some (st, None)" using no(1) by (cases prev) auto
  moreover have "rl_meets (\<lambda>next. \<not> r_end new \<le> r_off next) (hd_opt vs) = None" using no(2) by (cases "hd_opt vs") auto
  ultimately show ?thesis
    using rl_nearest(2) [OF t w] rl_insert [OF t w lt] s by (simp add: zfs_range_add_reader_def Let_def rl_state_def)
qed

text \<open>The loop after the first range met is known, with the proxy for what lies before it.\<close>

lemma add_reader_spread:
  assumes s: "rl_state st (us @ x # vs) ds n" and ok: "rls_ok (us @ x # vs)" and us: "\<forall>u \<in> set us. r_end u \<le> r_off new"
    and x: "r_off new \<le> r_off x" "r_off x < r_end new"
    and sh: "\<forall>v \<in> set (x # vs). r_off v < r_end new \<longrightarrow> rl_shareable v"
    and l: "lspread n (new\<lparr>r_cnt := 0\<rparr> # ds) (r_off new) (r_end new) (x # vs) = (ys, ds', n')"
  shows "\<exists>st1 st'. (if r_off new < r_off x then zfs_range_new_proxy st (r_off new) (r_off x - r_off new) else Some st) = Some st1 \<and>
      zfs_range_add_loop (avl_numnodes (z_range_avl st1) + 1) (r_off new) (r_len new)
        (st1\<lparr>rl_detached := new\<lparr>r_cnt := 0\<rparr> # rl_detached st1\<rparr>) None (Some x) = Some st' \<and> rl_state st' (us @ ys) ds' n'"
proof -
  obtain gap n1 where g: "(gap, n1) = (if r_off new < r_off x then ([mk_proxy n (r_off new) (r_off x - r_off new) 1], n + 1) else ([], n))"
    by (cases "r_off new < r_off x") auto
  obtain zs where zs: "lspread n1 (new\<lparr>r_cnt := 0\<rparr> # ds) (r_off x) (r_end new) (x # vs) = (zs, ds', n')" "ys = gap @ zs"
    using lspread_gap [OF x l g] by blast
  have oku: "rl_ok u" if "u \<in> set us" for u using ok that by (auto simp: rls_ok_def)
  have "\<forall>u \<in> set us. r_off u < r_off new" using us oku by (auto simp: rl_ok_def intro: order.strict_trans2)
  moreover have "\<forall>v \<in> set (x # vs). r_off new < r_off v" if "r_off new < r_off x"
    using that ok by (auto simp: rls_ok_append rls_ok_Cons rl_ok_def intro: order.strict_trans order.strict_trans2)
  ultimately obtain st1 where st1: "(if r_off new < r_off x then zfs_range_new_proxy st (r_off new) (r_off x - r_off new) else Some st) = Some st1"
    "rl_state st1 ((us @ gap) @ x # vs) ds n1"
    using new_proxy_list [OF s, of "r_off x - r_off new" "r_off new"] s g
    by (cases "r_off new < r_off x") (auto simp: less_imp_neq [THEN not_sym])
  have ok1: "rls_ok ((us @ gap) @ x # vs)"
  proof (cases "r_off new < r_off x")
    case True
    then have "gap = [mk_proxy n (r_off new) (r_off x - r_off new) 1]" using g by simp
    moreover have "r_off x \<le> r_off v" if "v \<in> set (x # vs)" for v
      using that ok by (auto simp: rls_ok_append rls_ok_Cons rl_ok_def)
    ultimately show ?thesis using ok us True by (auto simp: rls_ok_append [of "us @ gap"] rls_ok_append rls_ok_Cons [of "mk_proxy _ _ _ _"] rl_ok_def [of "mk_proxy _ _ _ _"])
  next
    case False
    then show ?thesis using ok g by simp
  qed
  let ?st = "st1\<lparr>rl_detached := new\<lparr>r_cnt := 0\<rparr> # rl_detached st1\<rparr>"
  have s2: "rl_state ?st ((us @ gap) @ x # vs) (new\<lparr>r_cnt := 0\<rparr> # ds) n1" using st1(2) by (simp add: rl_state_def)
  have k: "length (x # vs) < avl_numnodes (z_range_avl st1) + 1" using rl_treeD(6) [of st1 "(us @ gap) @ x # vs"] st1(2) by (simp add: rl_state_def)
  have "\<exists>st'. zfs_range_add_loop (avl_numnodes (z_range_avl st1) + 1) (r_off new) (r_len new) ?st None (hd_opt (x # vs)) = Some st' \<and>
      rl_state st' ((us @ gap) @ zs) ds' n'"
    by (rule add_loop_list [OF s2 ok1 refl x(2) _ sh k zs(1)]) simp
  then show ?thesis using st1(1) zs(2) by auto
qed

lemma rls_ok_before:
  assumes "rls_ok (us @ vs)" "last_opt us = None \<or> (\<exists>p. last_opt us = Some p \<and> r_end p \<le> off)"
  shows "\<forall>u \<in> set us. r_end u \<le> off"
proof (cases us rule: rev_cases)
  case (snoc us' p)
  then have p: "r_end p \<le> off" using assms(2) by simp
  have "r_end u \<le> r_off p" "r_off p < r_end p" if "u \<in> set us'" for u
    using assms(1) snoc that by (auto simp: rls_ok_append rls_ok_Cons rl_ok_def)
  then show ?thesis using snoc p by fastforce
qed simp

lemma add_reader_found:
  assumes s: "rl_state st (us @ x # vs) ds n" and inv: "rls_inv (us @ x # vs) ds" and new: "rl_request new" "r_type new = RL_READER"
    and sh: "\<forall>x \<in> set (us @ x # vs). overlap x new \<longrightarrow> rl_shareable x" and bound: "length ds + 2 < 2 ^ 32"
    and x: "r_off x = r_off new"
  shows "\<exists>st' ys ds' n'. zfs_range_add_reader st new (Some x) w = Some st' \<and> rl_state st' ys ds' n' \<and> rl_grant new (us @ x # vs) ds n ys ds' n'"
proof -
  note ok = rls_invD(1) [OF inv]
  have nok: "rl_ok new" using new(1) by (simp add: rl_request_def)
  have xok: "r_off new < r_end x" using ok x by (auto simp: rls_ok_def rl_ok_def)
  have us: "\<forall>u \<in> set us. r_end u \<le> r_off new" and vs: "\<forall>v \<in> set (x # vs). r_off new \<le> r_off v" and okv: "rls_ok (x # vs)"
    using ok x by (auto simp: rls_ok_append rls_ok_Cons rl_ok_def)
  have shv: "\<forall>v \<in> set (x # vs). r_off v < r_end new \<longrightarrow> rl_shareable v"
    using sh overlap_after [OF okv vs] by auto
  obtain ys ds' n' where l: "lspread n (new\<lparr>r_cnt := 0\<rparr> # ds) (r_off new) (r_end new) (x # vs) = (ys, ds', n')" by (metis prod_cases3)
  have xe: "r_off new \<le> r_off x" "r_off x < r_end new" using x nok by (auto simp: rl_ok_def)
  obtain st1 st' where "(if r_off new < r_off x then zfs_range_new_proxy st (r_off new) (r_off x - r_off new) else Some st) = Some st1"
    "zfs_range_add_loop (avl_numnodes (z_range_avl st1) + 1) (r_off new) (r_len new)
        (st1\<lparr>rl_detached := new\<lparr>r_cnt := 0\<rparr> # rl_detached st1\<rparr>) None (Some x) = Some st'" "rl_state st' (us @ ys) ds' n'"
    using add_reader_spread [OF s ok us xe shv l] by blast
  moreover have "rl_grant new (us @ x # vs) ds n (us @ ys) ds' n'"
    by (rule add_ok_grant [OF inv new sh bound add_ok_spread [OF ok us vs nok shv l]])
  ultimately show ?thesis using x xok xe by (auto simp: zfs_range_add_reader_def Let_def not_le)
qed

lemma add_reader_split:
  assumes s: "rl_state st (us @ p # vs) ds n" and inv: "rls_inv (us @ p # vs) ds" and new: "rl_request new" "r_type new = RL_READER"
    and sh: "\<forall>x \<in> set (us @ p # vs). overlap x new \<longrightarrow> rl_shareable x" and bound: "length ds + 2 < 2 ^ 32"
    and p: "r_off p < r_off new" "r_off new < r_end p" and lt: "\<forall>v \<in> set vs. r_off new < r_off v"
  shows "\<exists>st' ys ds' n'. zfs_range_add_reader st new (Some p) w = Some st' \<and> rl_state st' ys ds' n' \<and> rl_grant new (us @ p # vs) ds n ys ds' n'"
proof -
  note ok = rls_invD(1) [OF inv]
  have nok: "rl_ok new" using new(1) by (simp add: rl_request_def)
  have vp: "\<forall>v \<in> set vs. r_end p \<le> r_off v" "rls_ok vs" "\<forall>u \<in> set us. r_end u \<le> r_off p" "rls_ok us"
    "\<forall>u \<in> set us. \<forall>v \<in> set vs. r_end u \<le> r_off v"
    using ok by (auto simp: rls_ok_append rls_ok_Cons)
  have ovp: "overlap p new" using p nok by (auto simp: rl_ok_def)
  have shp: "rl_shareable p" using sh ovp by auto
  obtain front rear ds1 n1 where l: "lsplit n ds p (r_off new) = (front, rear, ds1, n1)" by (metis prod_cases4)
  note L = lsplit_spec [OF l shp]
  have en: "r_off front + r_len front = r_off new" "r_off rear + r_len rear = r_end p" using L(3,7) by simp_all
  obtain st1 where st1: "zfs_range_split st p (r_off new) = Some (st1, front)" "rl_state st1 (us @ front # rear # vs) ds1 n1"
    using split_proxy_list [OF s shp p vp(1) l] by blast
  have nx: "AVL_NEXT (z_range_avl st1) front = Some rear" using rl_next [of st1 us front "rear # vs"] st1(2) by (simp add: rl_state_def)
  have "\<forall>u \<in> set us. r_end u \<le> r_off new" using vp(3) less_imp_le [OF p(1)] order.trans by blast
  then have us1: "\<forall>u \<in> set (us @ [front]). r_end u \<le> r_off new" using en by simp
  have ok1: "rls_ok ((us @ [front]) @ rear # vs)"
    using vp L(2,6) en p us1 by (auto simp: rls_ok_append rls_ok_Cons rl_ok_def)
  have vs1: "\<forall>v \<in> set (rear # vs). r_off new \<le> r_off v" using L(6) lt by auto
  have "rl_shareable rear" using L(5) by (simp add: is_px_def rl_shareable_def)
  moreover have shvs: "\<forall>x \<in> set vs. r_off x < r_end new \<longrightarrow> rl_shareable x"
  proof (intro ballI impI)
    fix x assume x: "x \<in> set vs" "r_off x < r_end new"
    have "\<forall>v \<in> set vs. r_off new \<le> r_off v" using lt by (simp add: less_imp_le)
    then have "overlap x new" using overlap_after [OF vp(2) _ x(1)] x(2) by blast
    then show "rl_shareable x" using sh x(1) by simp
  qed
  ultimately have shv: "\<forall>v \<in> set (rear # vs). r_off v < r_end new \<longrightarrow> rl_shareable v" by auto
  obtain ys ds' n' where sp: "lspread n1 (new\<lparr>r_cnt := 0\<rparr> # ds1) (r_off new) (r_end new) (rear # vs) = (ys, ds', n')" by (metis prod_cases3)
  have xe: "r_off new \<le> r_off rear" "r_off rear < r_end new" using L(6) nok by (auto simp: rl_ok_def)
  have s1: "rl_state st1 ((us @ [front]) @ rear # vs) ds1 n1" using st1(2) by simp
  obtain st2 st' where "(if r_off new < r_off rear then zfs_range_new_proxy st1 (r_off new) (r_off rear - r_off new) else Some st1) = Some st2"
    "zfs_range_add_loop (avl_numnodes (z_range_avl st2) + 1) (r_off new) (r_len new)
        (st2\<lparr>rl_detached := new\<lparr>r_cnt := 0\<rparr> # rl_detached st2\<rparr>) None (Some rear) = Some st'" "rl_state st' ((us @ [front]) @ ys) ds' n'"
    using add_reader_spread [OF s1 ok1 us1 xe shv sp] by blast
  moreover have "rl_grant new (us @ p # vs) ds n ((us @ [front]) @ ys) ds' n'"
  proof (rule add_ok_grant [OF inv new sh bound], rule add_ok_split [OF ok p shp nok shvs l])
    show "add_ok new (us @ front # rear # vs) ds1 n1 ((us @ [front]) @ ys) ds' n'"
      using add_ok_spread [OF ok1 us1 vs1 nok shv sp] by simp
  qed
  ultimately show ?thesis using p nx st1(1) xe by (auto simp: zfs_range_add_reader_def Let_def not_le)
qed

lemma add_reader_after:
  assumes s: "rl_state st (us @ vs) ds n" and inv: "rls_inv (us @ vs) ds" and new: "rl_request new" "r_type new = RL_READER"
    and sh: "\<forall>x \<in> set (us @ vs). overlap x new \<longrightarrow> rl_shareable x" and bound: "length ds + 2 < 2 ^ 32"
    and w: "avl_place (z_range_avl st) w us vs" and lt: "\<forall>u \<in> set us. r_off u < r_off new" "\<forall>v \<in> set vs. r_off new < r_off v"
    and us: "\<forall>u \<in> set us. r_end u \<le> r_off new" and prev: "prev = last_opt us"
  shows "\<exists>st' ys ds' n'. zfs_range_add_reader st new prev w = Some st' \<and> rl_state st' ys ds' n' \<and> rl_grant new (us @ vs) ds n ys ds' n'"
proof -
  note ok = rls_invD(1) [OF inv]
  have nok: "rl_ok new" using new(1) by (simp add: rl_request_def)
  have t: "rl_tree st (us @ vs)" using s by (simp add: rl_state_def)
  have pv: "\<forall>p. prev = Some p \<longrightarrow> r_end p \<le> r_off new" using us prev by (auto dest: last_opt_SomeD)
  show ?thesis
  proof (cases "\<exists>v vs'. vs = v # vs' \<and> r_off v < r_end new")
    case True
    then obtain v vs' where v: "vs = v # vs'" "r_off v < r_end new" by blast
    have okv: "rls_ok (v # vs')" using ok v by (simp add: rls_ok_append)
    have vs: "\<forall>x \<in> set (v # vs'). r_off new \<le> r_off x" using lt(2) v by auto
    have shv: "\<forall>x \<in> set (v # vs'). r_off x < r_end new \<longrightarrow> rl_shareable x" using sh overlap_after [OF okv vs] v by auto
    obtain ys ds' n' where l: "lspread n (new\<lparr>r_cnt := 0\<rparr> # ds) (r_off new) (r_end new) (v # vs') = (ys, ds', n')" by (metis prod_cases3)
    have xe: "r_off new \<le> r_off v" using vs by simp
    obtain st1 st' where "(if r_off new < r_off v then zfs_range_new_proxy st (r_off new) (r_off v - r_off new) else Some st) = Some st1"
      "zfs_range_add_loop (avl_numnodes (z_range_avl st1) + 1) (r_off new) (r_len new)
        (st1\<lparr>rl_detached := new\<lparr>r_cnt := 0\<rparr> # rl_detached st1\<rparr>) None (Some v) = Some st'" "rl_state st' (us @ ys) ds' n'"
      using add_reader_spread [OF s [unfolded v(1)] ok [unfolded v(1)] us xe v(2) shv l] by blast
    moreover have "rl_grant new (us @ vs) ds n (us @ ys) ds' n'" unfolding v(1)
      by (rule add_ok_grant [OF inv [unfolded v(1)] new sh [unfolded v(1)] bound add_ok_spread [OF ok [unfolded v(1)] us vs nok shv l]])
    moreover have "(case prev of None \<Rightarrow> Some (st, None)
      | Some prev \<Rightarrow> if r_end prev \<le> r_off new then Some (st, None)
          else if r_off prev \<noteq> r_off new
          then map_option (\<lambda>(st, front). (st, AVL_NEXT (z_range_avl st) front)) (zfs_range_split st prev (r_off new))
          else Some (st, Some prev)) = Some (st, None)" using pv by (cases prev) auto
    ultimately show ?thesis using rl_nearest(2) [OF t w] v by (auto simp: zfs_range_add_reader_def Let_def not_le)
  next
    case False
    then have hd: "\<forall>v. hd_opt vs = Some v \<longrightarrow> r_end new \<le> r_off v" by (cases vs) (auto simp: not_less)
    have "\<forall>v \<in> set vs. r_end new \<le> r_off v"
    proof (cases vs)
      case (Cons v vs')
      have "rl_ok v" "\<forall>x \<in> set vs'. r_end v \<le> r_off x" using ok Cons by (auto simp: rls_ok_append rls_ok_Cons)
      then show ?thesis using hd Cons by (auto simp: rl_ok_def)
    qed simp
    then have "rl_grant new (us @ vs) ds n (us @ new # vs) ds n" using insert_grant [OF inv new(1) _ us] new(2) by simp
    then show ?thesis using add_reader_insert [OF s w lt pv hd] by blast
  qed
qed

lemma rl_find_cases:
  assumes t: "rl_tree st xs"
  obtains (found) us x vs where "avl_find (z_range_avl st) new = Found x" "xs = us @ x # vs" "r_off x = r_off new"
  | (place) w us vs where "avl_find (z_range_avl st) new = NotFound w" "avl_place (z_range_avl st) w us vs" "xs = us @ vs"
      "\<forall>u \<in> set us. r_off u < r_off new" "\<forall>v \<in> set vs. r_off new < r_off v"
proof (cases "avl_find (z_range_avl st) new")
  case (Found x)
  then show ?thesis using rl_find [OF t, of new] found split_list [of x xs] by auto
next
  case (NotFound w)
  then show ?thesis using rl_find [OF t, of new] place by auto
qed

subsection \<open>Taking a lock\<close>

abbreviation rl_blocks :: "rl \<Rightarrow> bool" where "rl_blocks x \<equiv> r_type x = RL_WRITER \<or> r_write_wanted x"

lemma scan_list:
  assumes "rl_tree st (us @ vs)" "rls_ok vs" "length vs < k"
  shows "\<exists>r. zfs_range_scan k (z_range_avl st) off len (hd_opt vs) = Some r \<and>
    (case r of None \<Rightarrow> \<forall>v \<in> set vs. r_off v < off + len \<longrightarrow> \<not> rl_blocks v
     | Some x \<Rightarrow> x \<in> set vs \<and> r_off x < off + len \<and> rl_blocks x)"
  using assms
proof (induction vs arbitrary: us k)
  case Nil
  then show ?case by (cases k) auto
next
  case (Cons v vs)
  obtain j where k: "k = Suc j" using Cons.prems(3) by (cases k) auto
  have ok: "rl_ok v" "rls_ok vs" "\<forall>x \<in> set vs. r_end v \<le> r_off x" using Cons.prems(2) by (auto simp: rls_ok_Cons)
  have nx: "AVL_NEXT (z_range_avl st) v = hd_opt vs" using rl_next [OF Cons.prems(1)] .
  show ?case
  proof (cases "off + len \<le> r_off v")
    case True
    then have "\<forall>x \<in> set (v # vs). \<not> r_off x < off + len" using ok by (auto simp: rl_ok_def not_less)
    then show ?thesis using True k by auto
  next
    case False
    show ?thesis
    proof (cases "rl_blocks v \<or> off + len \<le> r_end v")
      case True
      have "\<forall>x \<in> set vs. \<not> r_off x < off + len" if "off + len \<le> r_end v" using that ok(3) by (auto simp: not_less intro: order.trans)
      then show ?thesis using True False k by auto
    next
      case nb: False
      have "rl_tree st ((us @ [v]) @ vs)" "length vs < j" using Cons.prems(1,3) k by simp_all
      from Cons.IH [OF this(1) ok(2) this(2)] obtain r where r: "zfs_range_scan j (z_range_avl st) off len (hd_opt vs) = Some r"
        "case r of None \<Rightarrow> \<forall>v \<in> set vs. r_off v < off + len \<longrightarrow> \<not> rl_blocks v | Some x \<Rightarrow> x \<in> set vs \<and> r_off x < off + len \<and> rl_blocks x" by blast
      have "zfs_range_scan k (z_range_avl st) off len (hd_opt (v # vs)) = Some r" using r(1) False nb k nx by simp
      moreover have "case r of None \<Rightarrow> \<forall>x \<in> set (v # vs). r_off x < off + len \<longrightarrow> \<not> rl_blocks x
          | Some x \<Rightarrow> x \<in> set (v # vs) \<and> r_off x < off + len \<and> rl_blocks x" using r(2) nb by (cases r) simp_all
      ultimately show ?thesis by blast
    qed
  qed
qed

lemma entry_shareable: "rl_entry ds x \<Longrightarrow> \<not> rl_blocks x \<Longrightarrow> rl_shareable x"
  by (cases "r_type x") (auto simp: rl_entry_def rl_shareable_def)

text \<open>The lock \<open>x\<close> is marked as wanted by a writer or by a reader.\<close>

definition rl_mark :: "bool \<Rightarrow> rl \<Rightarrow> rl" where
  "rl_mark w x = (if w then x\<lparr>r_write_wanted := True\<rparr> else x\<lparr>r_read_wanted := True\<rparr>)"

definition rl_cv_of :: "bool \<Rightarrow> rl \<Rightarrow> rl_cv" where
  "rl_cv_of w x = (if w then r_wr_cv (r_addr x) else r_rd_cv (r_addr x))"

lemma rl_mark_simps [simp]:
  "r_off (rl_mark w x) = r_off x" "r_len (rl_mark w x) = r_len x" "r_addr (rl_mark w x) = r_addr x" "r_cnt (rl_mark w x) = r_cnt x"
  "r_type (rl_mark w x) = r_type x" "r_proxy (rl_mark w x) = r_proxy x" "rl_id (rl_mark w x) = rl_id x"
  "r_write_wanted (rl_mark w x) \<longleftrightarrow> w \<or> r_write_wanted x" "r_read_wanted (rl_mark w x) \<longleftrightarrow> \<not> w \<or> r_read_wanted x"
  by (simp_all add: rl_mark_def rl_id_def)

definition rl_wait :: "bool \<Rightarrow> rl \<Rightarrow> rl list \<Rightarrow> rl list \<Rightarrow> bool" where
  "rl_wait w x xs ys \<longleftrightarrow> (\<exists>us vs. xs = us @ x # vs \<and> ys = us @ rl_mark w x # vs)"

lemma mark_state:
  assumes "rl_state st xs ds n" "x \<in> set xs"
  shows "\<exists>ys. rl_state (rl_set_tree (\<lambda>t. avl_store t x (rl_mark w x)) st) ys ds n \<and> rl_wait w x xs ys"
proof -
  obtain us vs where xs: "xs = us @ x # vs" using split_list [OF assms(2)] by blast
  then show ?thesis using rl_store_same [of st us x vs "rl_mark w x"] assms(1) by (auto simp: rl_state_def rl_wait_def)
qed

lemma wait_inv:
  assumes "rls_inv xs ds" "rl_wait w x xs ys" "w \<or> rl_blocks x"
  shows "rls_inv ys ds" "rl_holders ys ds = rl_holders xs ds" "map r_addr ys = map r_addr xs"
proof -
  obtain us vs where xs: "xs = us @ x # vs" "ys = us @ rl_mark w x # vs" using assms(2) by (auto simp: rl_wait_def)
  have "rl_entry ds x" using rls_invD(2) [OF assms(1)] xs by simp
  then have e: "rl_entry ds (rl_mark w x)" using assms(3) by (auto simp: rl_entry_def rl_ok_def rl_cover_def)
  have "rls_ok ys" using rls_invD(1) [OF assms(1)] by (auto simp: xs rls_ok_append rls_ok_Cons rl_ok_def)
  moreover have "(\<Union>x \<in> set ys. rset x) = (\<Union>x \<in> set xs. rset x)" by (simp add: xs)
  ultimately show "rls_inv ys ds" using assms(1) e unfolding rls_inv_def by (auto simp: xs)
  show "rl_holders ys ds = rl_holders xs ds" "map r_addr ys = map r_addr xs" by (simp_all add: xs rl_holders_def)
qed

text \<open>The two outcomes of an attempt to take a lock.\<close>

definition rl_outcome :: "bool \<Rightarrow> rl \<Rightarrow> rl list \<Rightarrow> rl list \<Rightarrow> nat \<Rightarrow> rl_result option \<Rightarrow> bool" where
  "rl_outcome w new xs ds n r \<longleftrightarrow>
     (\<exists>st' ys ds' n'. r = Some (RL_granted st') \<and> rl_state st' ys ds' n' \<and> rl_grant new xs ds n ys ds' n') \<or>
     (\<exists>st' x ys. r = Some (RL_waits st' (rl_cv_of w x)) \<and> rl_state st' ys ds n \<and> rl_wait w x xs ys \<and>
        x \<in> set xs \<and> overlap x new \<and> (w \<or> rl_blocks x))"

lemma outcome_wait:
  assumes "rl_state st xs ds n" "x \<in> set xs" "overlap x new" "w \<or> rl_blocks x"
  shows "rl_outcome w new xs ds n (Some (RL_waits (rl_set_tree (\<lambda>t. avl_store t x (rl_mark w x)) st) (rl_cv_of w x)))"
  using mark_state [OF assms(1,2), of w] assms(2-) unfolding rl_outcome_def by blast

lemma outcome_grant:
  assumes "r = Some st'" "rl_state st' ys ds' n'" "rl_grant new xs ds n ys ds' n'"
  shows "rl_outcome w new xs ds n (map_option RL_granted r)"
  using assms unfolding rl_outcome_def by auto

text \<open>The part of \<^verbatim>\<open>zfs_range_lock_reader\<close> after \<open>prev\<close> and the lock behind it are known.\<close>

definition lock_reader_at :: "rlocks \<Rightarrow> rl \<Rightarrow> rl option \<Rightarrow> avl_index \<Rightarrow> rl option \<Rightarrow> rl_result option" where
  "lock_reader_at st new prev w next =
     (let scan = zfs_range_scan (avl_numnodes (z_range_avl st) + 1) (z_range_avl st) (r_off new) (r_len new) next
      in do {
        blocked \<leftarrow> (case prev of None \<Rightarrow> scan
                   | Some prev \<Rightarrow>
                       if r_off new < r_off prev + r_len prev
                       then if r_type prev = RL_WRITER \<or> r_write_wanted prev then Some (Some prev)
                            else if r_off new + r_len new < r_off prev + r_len prev then Some None else scan
                       else scan);
        case blocked of
          Some rl \<Rightarrow> Some (RL_waits (rl_set_tree (\<lambda>t. avl_store t rl (rl\<lparr>r_read_wanted := True\<rparr>)) st) (r_rd_cv (r_addr rl)))
        | None \<Rightarrow> map_option RL_granted (zfs_range_add_reader st new prev w)
      })"

lemma lock_reader_at:
  "avl_find (z_range_avl st) new = Found x \<Longrightarrow>
     zfs_range_lock_reader new st = lock_reader_at st new (Some x) [] (AVL_NEXT (z_range_avl st) x)"
  "avl_find (z_range_avl st) new = NotFound w \<Longrightarrow>
     zfs_range_lock_reader new st = lock_reader_at st new (avl_nearest (z_range_avl st) w AVL_BEFORE) w
       (case avl_nearest (z_range_avl st) w AVL_BEFORE of Some prev \<Rightarrow> AVL_NEXT (z_range_avl st) prev | None \<Rightarrow> avl_nearest (z_range_avl st) w AVL_AFTER)"
  by (simp_all only: zfs_range_lock_reader_def lock_reader_at_def Let_def avl_search.case prod.case option.case)

lemma lock_reader_body:
  assumes s: "rl_state st xs ds n" and inv: "rls_inv xs ds" and new: "rl_request new" "r_type new = RL_READER" and bound: "length ds + 2 < 2 ^ 32"
    and xs: "xs = us @ vs" and us: "\<forall>u \<in> set us. r_off u \<le> r_off new" and vs: "\<forall>v \<in> set vs. r_off new < r_off v"
    and prev: "prev = last_opt us"
    and add: "\<forall>x \<in> set xs. overlap x new \<longrightarrow> rl_shareable x \<Longrightarrow>
      \<exists>st' ys ds' n'. zfs_range_add_reader st new prev w = Some st' \<and> rl_state st' ys ds' n' \<and> rl_grant new xs ds n ys ds' n'"
  shows "rl_outcome False new xs ds n (lock_reader_at st new prev w (hd_opt vs))"
proof -
  note ok = rls_invD(1) [OF inv]
  have t: "rl_tree st (us @ vs)" using s xs by (simp add: rl_state_def)
  have nok: "rl_ok new" using new(1) by (simp add: rl_request_def)
  have okv: "rls_ok vs" "\<forall>v \<in> set vs. r_off new \<le> r_off v" using ok xs vs by (auto simp: rls_ok_append less_imp_le)
  have ent: "rl_entry ds x" if "x \<in> set xs" for x using rls_invD(2) [OF inv that] .
  let ?scan = "zfs_range_scan (Suc (avl_numnodes (z_range_avl st))) (z_range_avl st) (r_off new) (r_len new) (hd_opt vs)"
  obtain r where r: "?scan = Some r" and rs: "case r of None \<Rightarrow> \<forall>v \<in> set vs. r_off v < r_end new \<longrightarrow> \<not> rl_blocks v
      | Some x \<Rightarrow> x \<in> set vs \<and> r_off x < r_end new \<and> rl_blocks x"
    using scan_list [OF t okv(1), of "Suc (avl_numnodes (z_range_avl st))" "r_off new" "r_len new"] rl_treeD(6) [OF t] by (auto simp del: zfs_range_scan.simps)
  have last: "r_end u \<le> r_off p \<or> u = p" if "prev = Some p" "u \<in> set us" for u p
    using that prev ok xs by (cases us rule: rev_cases) (auto simp: rls_ok_append rls_ok_Cons)
  have wait: "rl_outcome False new xs ds n (Some (RL_waits (rl_set_tree (\<lambda>t. avl_store t x (x\<lparr>r_read_wanted := True\<rparr>)) st) (r_rd_cv (r_addr x))))"
    if "x \<in> set xs" "overlap x new" "rl_blocks x" for x
    using outcome_wait [OF s that(1,2), of False] that(3) by (simp add: rl_mark_def rl_cv_of_def)
  have grant: "rl_outcome False new xs ds n (map_option RL_granted (zfs_range_add_reader st new prev w))"
    if "\<forall>x \<in> set xs. overlap x new \<longrightarrow> \<not> rl_blocks x"
  proof -
    have "\<forall>x \<in> set xs. overlap x new \<longrightarrow> rl_shareable x" using that entry_shareable [OF ent] by blast
    then show ?thesis using add outcome_grant by blast
  qed
  have far: "\<not> overlap u new" if "prev = Some p" "u \<in> set us" "u \<noteq> p" for u p
  proof -
    have "r_end u \<le> r_off p" "r_off p \<le> r_off new" using last [OF that(1,2)] that us prev by (auto dest: last_opt_SomeD)
    then show ?thesis by (auto simp: not_less intro: order.trans)
  qed
  have scan_ok: "rl_outcome False new xs ds n (case r of
          Some rl \<Rightarrow> Some (RL_waits (rl_set_tree (\<lambda>t. avl_store t rl (rl\<lparr>r_read_wanted := True\<rparr>)) st) (r_rd_cv (r_addr rl)))
        | None \<Rightarrow> map_option RL_granted (zfs_range_add_reader st new prev w))"
    if free: "\<forall>p. prev = Some p \<longrightarrow> \<not> overlap p new \<or> \<not> rl_blocks p"
  proof (cases r)
    case None
    have "\<not> rl_blocks x" if x: "x \<in> set xs" "overlap x new" for x
    proof (cases "x \<in> set vs")
      case True
      then show ?thesis using rs None overlap_after [OF okv True] x(2) by auto
    next
      case False
      then have xu: "x \<in> set us" using x(1) xs by simp
      then have p: "prev = Some (last us)" using prev by (auto simp: last_opt_def)
      then have "x = last us" using far [OF p xu] x(2) by blast
      with p show ?thesis using free x(2) by blast
    qed
    then show ?thesis using grant None by simp
  next
    case (Some x)
    then have "x \<in> set vs" "overlap x new" "rl_blocks x" using rs overlap_after [OF okv, of x] by auto
    then show ?thesis using wait [of x] xs Some by simp
  qed
  show ?thesis
  proof (cases prev)
    case None
    then show ?thesis using scan_ok by (auto simp: lock_reader_at_def Let_def r simp del: zfs_range_scan.simps)
  next
    case (Some p)
    then have p: "p \<in> set us" "p \<in> set xs" "r_off p \<le> r_off new" using prev us xs by (auto dest: last_opt_SomeD)
    have ovp: "overlap p new" if "r_off new < r_end p" using that p(3) nok by (auto simp: rl_ok_def)
    consider "\<not> r_off new < r_end p" | "r_off new < r_end p" "rl_blocks p" | "r_off new < r_end p" "\<not> rl_blocks p" "r_end new < r_end p"
      | "r_off new < r_end p" "\<not> rl_blocks p" "\<not> r_end new < r_end p" by blast
    then show ?thesis
    proof cases
      case 1
      then show ?thesis using scan_ok Some by (auto simp: lock_reader_at_def Let_def r simp del: zfs_range_scan.simps)
    next
      case 2
      then show ?thesis using wait [OF p(2) ovp] Some by (auto simp: lock_reader_at_def Let_def)
    next
      case 3
      have "\<not> rl_blocks x" if x: "x \<in> set xs" "overlap x new" for x
      proof (cases "x \<in> set vs")
        case True
        then have "r_end p \<le> r_off x" using ok xs p(1) by (auto simp: rls_ok_append)
        then have False using conjunct1 [OF x(2)] 3(3) by order
        then show ?thesis ..
      next
        case False
        then have "x = p" using far [OF Some, of x] x xs by auto
        then show ?thesis using 3(2) by simp
      qed
      then show ?thesis using grant 3 Some by (auto simp: lock_reader_at_def Let_def)
    next
      case 4
      then show ?thesis using scan_ok Some by (auto simp: lock_reader_at_def Let_def r simp del: zfs_range_scan.simps)
    qed
  qed
qed

lemma lock_reader_outcome:
  assumes s: "rl_state st xs ds n" and inv: "rls_inv xs ds" and new: "rl_request new" "r_type new = RL_READER" and bound: "length ds + 2 < 2 ^ 32"
  shows "rl_outcome False new xs ds n (zfs_range_lock_reader new st)"
proof -
  have t: "rl_tree st xs" using s by (simp add: rl_state_def)
  from t show ?thesis
  proof (cases rule: rl_find_cases [where new = new])
    case (found us x vs)
    have srt: "\<forall>u \<in> set us. r_off u < r_off x" "\<forall>v \<in> set vs. r_off x < r_off v"
      using rl_treeD(4) [OF t] found(2) by (auto simp: sorted_wrt_append)
    have "rl_outcome False new xs ds n (lock_reader_at st new (Some x) [] (hd_opt vs))"
    proof (rule lock_reader_body [where us = "us @ [x]", OF s inv new bound])
      show "xs = (us @ [x]) @ vs" using found(2) by simp
      show "\<forall>u \<in> set (us @ [x]). r_off u \<le> r_off new" "\<forall>v \<in> set vs. r_off new < r_off v" using srt found(3) by auto
      assume "\<forall>x \<in> set xs. overlap x new \<longrightarrow> rl_shareable x"
      then show "\<exists>st' ys ds' n'. zfs_range_add_reader st new (Some x) [] = Some st' \<and> rl_state st' ys ds' n' \<and> rl_grant new xs ds n ys ds' n'"
        using add_reader_found [of st us x vs ds n new "[]"] s inv new bound found(2,3) by simp
    qed simp
    then show ?thesis using lock_reader_at(1) [OF found(1)] rl_next [OF t [unfolded found(2)]] by simp
  next
    case (place w us vs)
    have t2: "rl_tree st (us @ vs)" using t place(3) by simp
    have nr: "avl_nearest (z_range_avl st) w AVL_BEFORE = last_opt us" "avl_nearest (z_range_avl st) w AVL_AFTER = hd_opt vs"
      using rl_nearest [OF t2 place(2)] by simp_all
    have nx: "(case last_opt us of Some prev \<Rightarrow> AVL_NEXT (z_range_avl st) prev | None \<Rightarrow> hd_opt vs) = hd_opt vs"
    proof (cases us rule: rev_cases)
      case (snoc us' p)
      then show ?thesis using rl_next [of st us' p vs] t2 by simp
    qed simp
    have add: "\<exists>st' ys ds' n'. zfs_range_add_reader st new (last_opt us) w = Some st' \<and> rl_state st' ys ds' n' \<and> rl_grant new xs ds n ys ds' n'"
      if sh: "\<forall>x \<in> set xs. overlap x new \<longrightarrow> rl_shareable x"
    proof (cases "\<exists>p. last_opt us = Some p \<and> r_off new < r_end p")
      case True
      then obtain us' p where p: "us = us' @ [p]" "r_off new < r_end p" by (auto dest: last_opt_SomeD)
      have x: "xs = us' @ p # vs" using place(3) p(1) by simp
      have "r_off p < r_off new" using place(4) p(1) by simp
      from add_reader_split [OF s [unfolded x] inv [unfolded x] new sh [unfolded x] bound this p(2) place(5), of w]
      show ?thesis using p(1) x by simp
    next
      case False
      then have "\<forall>u \<in> set us. r_end u \<le> r_off new"
        using rls_ok_before [of us vs "r_off new"] rls_invD(1) [OF inv] place(3) by (cases "last_opt us") (auto simp: not_less)
      from add_reader_after [OF s [unfolded place(3)] inv [unfolded place(3)] new sh [unfolded place(3)] bound place(2,4,5) this refl]
      show ?thesis using place(3) by simp
    qed
    have le: "\<forall>u \<in> set us. r_off u \<le> r_off new" using place(4) by (simp add: less_imp_le)
    show ?thesis unfolding lock_reader_at(2) [OF place(1)] nr nx
      by (rule lock_reader_body [OF s inv new bound place(3) le place(5) refl add])
  qed
qed

lemma lock_writer_outcome:
  assumes s: "rl_state st xs ds n" and inv: "rls_inv xs ds" and new: "new = (rl_writer_range zp new0)\<lparr>r_type := RL_WRITER\<rparr>" "rl_request new"
  shows "rl_outcome True new xs ds n (zfs_range_lock_writer zp new0 st)"
proof -
  have t: "rl_tree st xs" using s by (simp add: rl_state_def)
  note ok = rls_invD(1) [OF inv]
  let ?r = "rl_writer_range zp new0"
  have rr: "r_off ?r = r_off new" "r_len ?r = r_len new" "?r\<lparr>r_type := RL_WRITER\<rparr> = new" by (simp_all add: new(1))
  have nok: "rl_ok new" "r_type new = RL_WRITER" using new by (simp_all add: rl_request_def)
  have wait: "rl_outcome True new xs ds n (Some (RL_waits (rl_set_tree (\<lambda>t. avl_store t x (x\<lparr>r_write_wanted := True\<rparr>)) st) (r_wr_cv (r_addr x))))"
    if "x \<in> set xs" "overlap x new" for x
    using outcome_wait [OF s that, of True] by (simp add: rl_mark_def rl_cv_of_def)
  show ?thesis
  proof (cases "xs = []")
    case True
    have e: "rl_tree st ([] @ [])" using t True by simp
    from rl_add [OF e, of new] obtain tr where a: "rl_avl_add st new = Some (st\<lparr>z_range_avl := tr\<rparr>)" "rl_tree (st\<lparr>z_range_avl := tr\<rparr>) [new]" by auto
    have "rl_grant new xs ds n [new] ds n" using insert_grant [of "[]" "[]" ds new n] inv new(2) nok True by simp
    moreover have "rl_state (st\<lparr>z_range_avl := tr\<rparr>) [new] ds n" using a(2) s by (simp add: rl_state_def)
    moreover have "zfs_range_lock_writer zp new0 st = map_option RL_granted (rl_avl_add st new)"
      using rl_treeD(6) [OF t] True by (simp add: zfs_range_lock_writer_def Let_def rr)
    ultimately show ?thesis using outcome_grant [OF a(1)] by simp
  next
    case False
    then have num: "avl_numnodes (z_range_avl st) \<noteq> 0" using rl_treeD(6) [OF t] by simp
    from t show ?thesis
    proof (cases rule: rl_find_cases [where new = ?r])
      case (found us x vs)
      then have x: "x \<in> set xs" "r_off x = r_off new" using rr by simp_all
      then have "rl_ok x" using ok by (simp add: rls_ok_def)
      then have "overlap x new" using x(2) nok by (simp add: rl_ok_def)
      then show ?thesis using wait [OF x(1)] num found(1) by (simp add: zfs_range_lock_writer_def Let_def)
    next
      case (place w us vs)
      have t2: "rl_tree st (us @ vs)" using t place(3) by simp
      note nr = rl_nearest [OF t2 place(2)]
      have lt: "\<forall>u \<in> set us. r_off u < r_off new" "\<forall>v \<in> set vs. r_off new < r_off v" using place(4,5) rr by simp_all
      have okv: "rls_ok vs" "\<forall>v \<in> set vs. r_off new \<le> r_off v" using ok place(3) lt by (auto simp: rls_ok_append less_imp_le)
      show ?thesis
      proof (cases "\<exists>v. hd_opt vs = Some v \<and> r_off v < r_end new")
        case True
        then obtain v where v: "hd_opt vs = Some v" "r_off v < r_end new" "v \<in> set vs" by (cases vs) auto
        then have "overlap v new" using overlap_after [OF okv v(3)] by blast
        then show ?thesis using wait [of v] v num place(1,3) nr by (simp add: zfs_range_lock_writer_def Let_def rr)
      next
        case na: False
        then have m1: "rl_meets (\<lambda>rl. r_off rl < r_end new) (hd_opt vs) = None" by (cases "hd_opt vs") auto
        show ?thesis
        proof (cases "\<exists>p. last_opt us = Some p \<and> r_off new < r_end p")
          case True
          then obtain p where p: "last_opt us = Some p" "r_off new < r_end p" "p \<in> set us" by (auto dest: last_opt_SomeD)
          have "r_off p < r_end new" using lt(1) p(3) nok(1) by (auto simp: rl_ok_def)
          then show ?thesis using wait [of p] p num place(1,3) nr m1 by (simp add: zfs_range_lock_writer_def Let_def rr)
        next
          case nb: False
          then have m2: "rl_meets (\<lambda>rl. r_end rl > r_off new) (last_opt us) = None" by (cases "last_opt us") auto
          have us: "\<forall>u \<in> set us. r_end u \<le> r_off new"
            using rls_ok_before [of us vs "r_off new"] ok place(3) nb by (cases "last_opt us") (auto simp: not_less)
          have vs: "\<forall>v \<in> set vs. r_end new \<le> r_off v"
          proof (cases vs)
            case (Cons v vs')
            have "r_end new \<le> r_off v" using na Cons by (simp add: not_less)
            moreover have "rl_ok v" "\<forall>x \<in> set vs'. r_end v \<le> r_off x" using okv(1) Cons by (auto simp: rls_ok_Cons)
            ultimately show ?thesis using Cons by (auto simp: rl_ok_def)
          qed simp
          have "rl_grant new xs ds n (us @ new # vs) ds n" unfolding place(3)
            by (rule insert_grant [OF inv [unfolded place(3)] new(2) _ us vs]) (simp add: nok(2))
          moreover have "rl_state (rl_set_tree (\<lambda>t. avl_insert t new w) st) (us @ new # vs) ds n"
            using rl_insert [OF t2 place(2) lt] s by (simp add: rl_state_def)
          ultimately have "rl_outcome True new xs ds n (Some (RL_granted (rl_set_tree (\<lambda>t. avl_insert t new w) st)))"
            unfolding rl_outcome_def by blast
          then show ?thesis using num place(1) nr m1 m2 by (simp add: zfs_range_lock_writer_def Let_def rr)
        qed
      qed
    qed
  qed
qed

text \<open>The range a request stands for when it is granted.\<close>

definition rl_wanted :: "znode \<Rightarrow> rl \<Rightarrow> rl" where
  "rl_wanted zp new = (if r_type new = RL_READER then new else (rl_writer_range zp new)\<lparr>r_type := RL_WRITER\<rparr>)"

lemma rl_lock_outcome:
  assumes s: "rl_state st xs ds n" and inv: "rls_inv xs ds" and new: "rl_request (rl_wanted zp new)" and bound: "length ds + 2 < 2 ^ 32"
  shows "rl_outcome (r_type new \<noteq> RL_READER) (rl_wanted zp new) xs ds n (zfs_range_lock zp new st)"
proof (cases "r_type new = RL_READER")
  case True
  have t: "rl_tree st xs" using s by (simp add: rl_state_def)
  have w: "rl_wanted zp new = new" using True by (simp add: rl_wanted_def)
  show ?thesis
  proof (cases "xs = []")
    case empty: True
    have e: "rl_tree st ([] @ [])" using t empty by simp
    from rl_add [OF e, of new] obtain tr where a: "rl_avl_add st new = Some (st\<lparr>z_range_avl := tr\<rparr>)" "rl_tree (st\<lparr>z_range_avl := tr\<rparr>) [new]" by auto
    have "rl_grant new xs ds n [new] ds n" using insert_grant [of "[]" "[]" ds new n] inv new True w empty by simp
    moreover have "rl_state (st\<lparr>z_range_avl := tr\<rparr>) [new] ds n" using a(2) s by (simp add: rl_state_def)
    ultimately show ?thesis using outcome_grant [OF a(1)] True rl_treeD(6) [OF t] empty w by (simp add: zfs_range_lock_def)
  next
    case False
    then show ?thesis using lock_reader_outcome [OF s inv _ True bound] new w True rl_treeD(6) [OF t] by (simp add: zfs_range_lock_def)
  qed
next
  case False
  then show ?thesis using lock_writer_outcome [OF s inv, of "rl_wanted zp new" zp new] new by (simp add: zfs_range_lock_def rl_wanted_def)
qed

end
