(* ===== verification/Rlock_Threads.thy ===== *)
theory Rlock_Threads
  imports Rlock
begin

text \<open>The range locks of \<open>zfs_rlock.c\<close> in use: how an unlock takes the pieces of a shared range
  apart, what is held before and after each routine, and the threads of a file that lock, sleep,
  are woken, unlock and narrow their locks in any order.  The contract (two locks that are held and
  meet are both readers, and no sleeper is forgotten) is proved of every state that they reach.\<close>

subsection \<open>Releasing a lock\<close>

text \<open>The counterpart of \<^const>\<open>zfs_range_unlock_loop\<close> on the list of the locks: the rest of the
  list and the condition variables signalled.\<close>

fun lrelease :: "u64 \<Rightarrow> rl list \<Rightarrow> rl list \<times> rl_cv list" where
  "lrelease e [] = ([], [])"
| "lrelease e (x # xs) =
     (if e \<le> r_off x then (x # xs, [])
      else case lrelease e xs of (ys, cvs) \<Rightarrow>
        if r_cnt x = 1 then (ys, rl_wakeups x @ cvs) else (x\<lparr>r_cnt := r_cnt x - 1\<rparr> # ys, cvs))"

text \<open>The locks of the list, from the first on, are shared ones that fill the range up to \<open>e\<close>.\<close>

fun rl_tiled :: "u64 \<Rightarrow> u64 \<Rightarrow> rl list \<Rightarrow> bool" where
  "rl_tiled pos e [] \<longleftrightarrow> pos = e"
| "rl_tiled pos e (x # xs) \<longleftrightarrow>
     (if pos = e then \<forall>y \<in> set (x # xs). e \<le> r_off y
      else r_off x = pos \<and> pos < r_end x \<and> r_end x \<le> e \<and> r_cnt x \<noteq> 0 \<and> r_type x = RL_READER \<and> rl_tiled (r_end x) e xs)"

lemma tiled_next:
  assumes "rl_tiled pos e vs" "e - pos \<noteq> 0"
  shows "\<exists>x xs. vs = x # xs \<and> r_off x = pos \<and> r_cnt x \<noteq> 0 \<and> r_type x = RL_READER"
  using assms by (cases vs) (auto split: if_splits)

lemma unlock_step:
  assumes "len \<noteq> 0"
    "(if len - r_len rl \<noteq> 0
      then case AVL_NEXT (z_range_avl st) rl of None \<Rightarrow> None
           | Some next \<Rightarrow> if r_off rl + r_len rl = r_off next \<and> r_cnt next \<noteq> 0 \<and> r_type next = RL_READER then Some next else None
      else Some rl) = Some nx"
  shows "zfs_range_unlock_loop (Suc j) st len rl cvs =
    (if r_cnt rl = 1 then zfs_range_unlock_loop j (rl_set_tree (\<lambda>t. avl_remove t rl) st) (len - r_len rl) nx (cvs @ rl_wakeups rl)
     else zfs_range_unlock_loop j (rl_set_tree (\<lambda>t. avl_store t rl (rl\<lparr>r_cnt := r_cnt rl - 1\<rparr>)) st) (len - r_len rl) nx cvs)"
  unfolding zfs_range_unlock_loop.simps Let_def assms(2) using assms(1) by simp

lemma unlock_loop_list:
  assumes "rl_state st (us @ vs) ds n" "rl_tiled pos e vs" "pos \<le> e" "e - pos \<noteq> 0 \<longrightarrow> (\<exists>xs. vs = x # xs)" "length vs < k"
    "lrelease e vs = (ys, cvs')"
  shows "\<exists>st'. zfs_range_unlock_loop k st (e - pos) x cvs = Some (st', cvs @ cvs') \<and> rl_state st' (us @ ys) ds n"
  using assms
proof (induction vs arbitrary: us st pos k x cvs ys cvs')
  case Nil
  then obtain j where "k = Suc j" by (cases k) auto
  then show ?case using Nil by simp
next
  case (Cons v vs)
  obtain j where k: "k = Suc j" using Cons.prems(5) by (cases k) auto
  show ?case
  proof (cases "pos = e")
    case True
    then have "lrelease e (v # vs) = (v # vs, [])" using Cons.prems(2) by simp
    then show ?thesis using True Cons.prems(1,6) k by simp
  next
    case False
    then have xv: "x = v" using Cons.prems(4) by auto
    have v: "r_off v = pos" "pos < r_end v" "r_end v \<le> e" "r_cnt v \<noteq> 0" "rl_tiled (r_end v) e vs" using Cons.prems(2) False by auto
    have nl: "e - pos - r_len v = e - r_end v" using v(1) by simp
    have t: "rl_tree st (us @ v # vs)" using Cons.prems(1) by (simp add: rl_state_def)
    have nx: "AVL_NEXT (z_range_avl st) v = hd_opt vs" using rl_next [OF t] .
    obtain zs c where rec: "lrelease e vs = (zs, c)" by fastforce
    have ne: "\<not> e \<le> r_off v" using v(1-3) by auto
    define next' where "next' = (if e - r_end v \<noteq> 0 then hd vs else v)"
    have nxt: "(if e - pos - r_len v \<noteq> 0
                     then case AVL_NEXT (z_range_avl st) v of None \<Rightarrow> None
                          | Some next \<Rightarrow> if r_off v + r_len v = r_off next \<and> r_cnt next \<noteq> 0 \<and> r_type next = RL_READER
                                         then Some next else None
                     else Some v) = Some next'"
      "e - r_end v \<noteq> 0 \<longrightarrow> (\<exists>xs. vs = next' # xs)"
      unfolding nl using tiled_next [OF v(5)] nx by (auto simp: next'_def)
    have ep: "e - pos \<noteq> 0" using False by simp
    have len: "length vs < j" using Cons.prems(5) k by simp
    show ?thesis
    proof (cases "r_cnt v = 1")
      case True
      let ?st = "rl_set_tree (\<lambda>t. avl_remove t v) st"
      have s: "rl_state ?st (us @ vs) ds n" using rl_remove [OF t] Cons.prems(1) by (simp add: rl_state_def)
      have "ys = zs" "cvs' = rl_wakeups v @ c" using Cons.prems(6) rec True ne by auto
      then show ?thesis using Cons.IH [OF s v(5,3) nxt(2) len rec, of "cvs @ rl_wakeups v"] True
        unfolding k xv unlock_step [OF ep nxt(1)] nl by simp
    next
      case nt: False
      let ?v = "v\<lparr>r_cnt := r_cnt v - 1\<rparr>" and ?st = "rl_set_tree (\<lambda>t. avl_store t v (v\<lparr>r_cnt := r_cnt v - 1\<rparr>)) st"
      have s: "rl_state ?st ((us @ [?v]) @ vs) ds n" using rl_store_same [OF t, of ?v] Cons.prems(1) by (simp add: rl_state_def)
      have "ys = ?v # zs" "cvs' = c" using Cons.prems(6) rec nt ne by auto
      then show ?thesis using Cons.IH [OF s v(5,3) nxt(2) len rec, of cvs] nt
        unfolding k xv unlock_step [OF ep nxt(1)] nl by simp
    qed
  qed
qed

lemma handle_tiled:
  assumes "rls_ok vs" "\<forall>x \<in> set vs. overlap x h \<longrightarrow> inside x h \<and> r_cnt x \<noteq> 0 \<and> r_type x = RL_READER"
    "{pos ..< r_end h} \<subseteq> (\<Union>x \<in> set vs. rset x)" "\<forall>v \<in> set vs. pos \<le> r_off v" "r_off h \<le> pos" "pos \<le> r_end h"
  shows "rl_tiled pos (r_end h) vs"
  using assms
proof (induction vs arbitrary: pos)
  case Nil
  then show ?case by simp
next
  case (Cons v vs)
  show ?case
  proof (cases "pos = r_end h")
    case True
    then show ?thesis using Cons.prems(4) by simp
  next
    case False
    then have "pos \<in> {pos ..< r_end h}" using Cons.prems(6) by simp
    then obtain x where x: "x \<in> set (v # vs)" "r_off x \<le> pos" "pos < r_end x" using Cons.prems(3) by fastforce
    have ok: "rl_ok v" "rls_ok vs" "\<forall>y \<in> set vs. r_end v \<le> r_off y" using Cons.prems(1) by (auto simp: rls_ok_Cons)
    have "x = v"
    proof (rule ccontr)
      assume "x \<noteq> v"
      then have "r_end v \<le> r_off x" using x(1) ok(3) by simp
      moreover have "pos \<le> r_off v" using Cons.prems(4) by simp
      ultimately show False using ok(1) x(2) unfolding rl_ok_def by order
    qed
    then have v: "r_off v = pos" "pos < r_end v" using x Cons.prems(4) by auto
    have "overlap v h" using v Cons.prems(5,6) False by (auto simp: order.strict_iff_order)
    then have i: "r_end v \<le> r_end h" "r_cnt v \<noteq> 0" "r_type v = RL_READER" using Cons.prems(2) by auto
    have "rl_tiled (r_end v) (r_end h) vs"
    proof (rule Cons.IH [OF ok(2) _ _ ok(3) _ i(1)])
      show "\<forall>x \<in> set vs. overlap x h \<longrightarrow> inside x h \<and> r_cnt x \<noteq> 0 \<and> r_type x = RL_READER" using Cons.prems(2) by simp
      show "r_off h \<le> r_end v" using v Cons.prems(5) by order
      show "{r_end v ..< r_end h} \<subseteq> (\<Union>x \<in> set vs. rset x)"
      proof
        fix a assume a: "a \<in> {r_end v ..< r_end h}"
        then have "a \<in> {pos ..< r_end h}" using v(2) by (auto intro: order.trans less_imp_le)
        then have "a \<in> (\<Union>x \<in> set (v # vs). rset x)" using Cons.prems(3) by blast
        moreover have "a \<notin> rset v" using a by (simp add: not_less)
        ultimately show "a \<in> (\<Union>x \<in> set vs. rset x)" by auto
      qed
    qed
    then show ?thesis using v i False by simp
  qed
qed

text \<open>After the lock \<open>h\<close> is released the others are held as before; a lock that somebody waits for
  is in the tree still, or its condition variable was signalled.\<close>

definition rl_release :: "rl \<Rightarrow> rl list \<Rightarrow> rl list \<Rightarrow> rl list \<Rightarrow> rl list \<Rightarrow> rl_cv list \<Rightarrow> bool" where
  "rl_release h xs ds ys ds' cvs \<longleftrightarrow> rls_inv ys ds' \<and> rl_holders xs ds = rl_holders ys ds' + {#rl_id h#} \<and>
     mset (map r_addr (ys @ ds')) \<subseteq># mset (map r_addr (xs @ ds)) \<and>
     (\<forall>x \<in> set xs. (\<exists>y \<in> set ys. r_addr y = r_addr x \<and> r_write_wanted y = r_write_wanted x \<and> r_read_wanted y = r_read_wanted x) \<or>
        set (rl_wakeups x) \<subseteq> set cvs)"

lemma removed_release:
  assumes inv: "rls_inv (us @ x # vs) ds" and np: "\<not> r_proxy x"
  shows "rl_release x (us @ x # vs) ds (us @ vs) ds (rl_wakeups x)"
proof -
  note ok = rls_invD(1) [OF inv]
  have e: "rl_entry ds x" using rls_invD(2) [OF inv] by simp
  have "rls_ok (us @ vs)" using ok by (auto simp: rls_ok_append rls_ok_Cons)
  moreover have "rset h \<subseteq> (\<Union>y \<in> set (us @ vs). rset y)" if h: "h \<in> set ds" for h
  proof
    fix a assume a: "a \<in> rset h"
    then obtain y where y: "y \<in> set (us @ x # vs)" "a \<in> rset y" using rls_invD(4) [OF inv h] by blast
    have "overlap y h" using a y(2) by (auto intro: order.strict_trans1)
    then have "y \<noteq> x" using e np h by (auto simp: rl_entry_def)
    then show "a \<in> (\<Union>y \<in> set (us @ vs). rset y)" using y by auto
  qed
  ultimately have "rls_inv (us @ vs) ds" using inv unfolding rls_inv_def by auto
  then show ?thesis using np by (auto simp: rl_release_def rl_holders_def)
qed

lemma lrelease_spec:
  assumes "lrelease e vs = (ys, cvs)" "rls_ok vs"
  shows "y \<in> set ys \<Longrightarrow> (y \<in> set vs \<and> e \<le> r_off y) \<or> (\<exists>x \<in> set vs. r_off x < e \<and> r_cnt x \<noteq> 1 \<and> y = x\<lparr>r_cnt := r_cnt x - 1\<rparr>)"
    "x \<in> set vs \<Longrightarrow> (e \<le> r_off x \<and> x \<in> set ys) \<or> (r_off x < e \<and> r_cnt x \<noteq> 1 \<and> x\<lparr>r_cnt := r_cnt x - 1\<rparr> \<in> set ys) \<or>
      (r_off x < e \<and> r_cnt x = 1 \<and> set (rl_wakeups x) \<subseteq> set cvs)"
    "(\<forall>x \<in> set vs. r_off x < e \<longrightarrow> r_proxy x) \<Longrightarrow> filter (\<lambda>x. \<not> r_proxy x) ys = filter (\<lambda>x. \<not> r_proxy x) vs"
    "mset (map r_addr ys) \<subseteq># mset (map r_addr vs)" "rls_ok ys" "y \<in> set ys \<Longrightarrow> \<exists>x \<in> set vs. r_off x = r_off y \<and> r_len x = r_len y"
proof -
  have "(\<forall>y \<in> set ys. (y \<in> set vs \<and> e \<le> r_off y) \<or> (\<exists>x \<in> set vs. r_off x < e \<and> r_cnt x \<noteq> 1 \<and> y = x\<lparr>r_cnt := r_cnt x - 1\<rparr>)) \<and>
    (\<forall>x \<in> set vs. (e \<le> r_off x \<and> x \<in> set ys) \<or> (r_off x < e \<and> r_cnt x \<noteq> 1 \<and> x\<lparr>r_cnt := r_cnt x - 1\<rparr> \<in> set ys) \<or>
      (r_off x < e \<and> r_cnt x = 1 \<and> set (rl_wakeups x) \<subseteq> set cvs)) \<and>
    ((\<forall>x \<in> set vs. r_off x < e \<longrightarrow> r_proxy x) \<longrightarrow> filter (\<lambda>x. \<not> r_proxy x) ys = filter (\<lambda>x. \<not> r_proxy x) vs) \<and>
    mset (map r_addr ys) \<subseteq># mset (map r_addr vs) \<and> rls_ok ys" (is "?A ys vs \<and> ?B ys vs cvs \<and> ?C ys vs \<and> ?D ys vs \<and> ?E ys")
    using assms
  proof (induction vs arbitrary: ys cvs)
    case (Cons v vs)
    have ok: "rl_ok v" "rls_ok vs" "\<forall>y \<in> set vs. r_end v \<le> r_off y" using Cons.prems(2) by (auto simp: rls_ok_Cons)
    show ?case
    proof (cases "e \<le> r_off v")
      case True
      then have "\<forall>x \<in> set (v # vs). e \<le> r_off x" using ok by (auto simp: rl_ok_def)
      then show ?thesis using Cons.prems True by auto
    next
      case False
      obtain zs c where rec: "lrelease e vs = (zs, c)" by fastforce
      from Cons.IH [OF rec ok(2)] have I: "?A zs vs" "?B zs vs c" "?C zs vs" "?D zs vs" "?E zs" by blast+
      show ?thesis
      proof (cases "r_cnt v = 1")
        case True
        then have ys: "ys = zs" "cvs = rl_wakeups v @ c" using Cons.prems(1) rec False by auto
        have "?A ys (v # vs)" using I(1) ys by auto
        moreover have "?B ys (v # vs) cvs" using I(2) ys True False by auto
        moreover have "?C ys (v # vs)" using I(3) ys False by auto
        moreover have "?D ys (v # vs)" using subset_mset.order_trans [OF I(4), of "mset (map r_addr (v # vs))"] ys by simp
        ultimately show ?thesis using I(5) ys by blast
      next
        case nt: False
        then have ys: "ys = v\<lparr>r_cnt := r_cnt v - 1\<rparr> # zs" "cvs = c" using Cons.prems(1) rec False by auto
        have "?A ys (v # vs)" using I(1) ys nt False by auto
        moreover have "?B ys (v # vs) cvs" using I(2) ys nt False by auto
        moreover have "?C ys (v # vs)" using I(3) ys False by auto
        moreover have "?D ys (v # vs)" using I(4) ys by auto
        moreover have "?E ys"
        proof -
          have "r_end v \<le> r_off y" if "y \<in> set zs" for y using bspec [OF I(1) that] ok(3) by auto
          then show ?thesis using I(5) ok(1) unfolding ys rls_ok_Cons by (simp add: rl_ok_def)
        qed
        ultimately show ?thesis by blast
      qed
    qed
  qed simp
  then show "y \<in> set ys \<Longrightarrow> (y \<in> set vs \<and> e \<le> r_off y) \<or> (\<exists>x \<in> set vs. r_off x < e \<and> r_cnt x \<noteq> 1 \<and> y = x\<lparr>r_cnt := r_cnt x - 1\<rparr>)"
    "x \<in> set vs \<Longrightarrow> (e \<le> r_off x \<and> x \<in> set ys) \<or> (r_off x < e \<and> r_cnt x \<noteq> 1 \<and> x\<lparr>r_cnt := r_cnt x - 1\<rparr> \<in> set ys) \<or>
      (r_off x < e \<and> r_cnt x = 1 \<and> set (rl_wakeups x) \<subseteq> set cvs)"
    "(\<forall>x \<in> set vs. r_off x < e \<longrightarrow> r_proxy x) \<Longrightarrow> filter (\<lambda>x. \<not> r_proxy x) ys = filter (\<lambda>x. \<not> r_proxy x) vs"
    "mset (map r_addr ys) \<subseteq># mset (map r_addr vs)" "rls_ok ys" by blast+
  then show "y \<in> set ys \<Longrightarrow> \<exists>x \<in> set vs. r_off x = r_off y \<and> r_len x = r_len y" by auto
qed

lemma cover_remove1:
  assumes "h \<in> set ds" shows "rl_cover ds x = rl_cover (remove1 h ds) x + (if inside x h then 1 else 0)"
  using assms by (induction ds) (auto simp: rl_cover_def)

lemma ids_remove1: "h \<in> set ds \<Longrightarrow> mset (map rl_id ds) = add_mset (rl_id h) (mset (map rl_id (remove1 h ds)))"
  by (induction ds) auto

lemma shared_release:
  assumes inv: "rls_inv (us @ vs) ds" and h: "h \<in> set ds" and us: "\<forall>u \<in> set us. r_end u \<le> r_off h" and vs: "\<forall>v \<in> set vs. r_off h \<le> r_off v"
    and l: "lrelease (r_end h) vs = (ys, cvs)"
  shows "rl_release h (us @ vs) ds (us @ ys) (remove1 h ds) cvs"
proof -
  note ok = rls_invD(1) [OF inv]
  have okv: "rls_ok vs" "rls_ok us" "\<forall>u \<in> set us. \<forall>v \<in> set vs. r_end u \<le> r_off v" using ok by (auto simp: rls_ok_append)
  note L = lrelease_spec [OF l okv(1)]
  have sub: "set (remove1 h ds) \<subseteq> set ds" by (rule set_remove1_subset)
  have ent: "rl_entry ds x" if "x \<in> set (us @ vs)" for x using rls_invD(2) [OF inv that] .
  have part: "inside x h \<and> r_proxy x \<and> unat (r_cnt x) = rl_cover ds x" if "x \<in> set vs" "r_off x < r_end h" for x
  proof -
    have "overlap x h" using overlap_after [OF okv(1) vs that(1)] that(2) by blast
    then show ?thesis using ent [of x] that(1) h by (auto simp: rl_entry_def)
  qed
  have same: "rl_entry (remove1 h ds) x" if "x \<in> set (us @ vs)" "\<not> overlap x h" for x
  proof -
    have "rl_ok x" using ent [OF that(1)] by (simp add: rl_entry_def)
    then have "\<not> inside x h" using overlap_refl that(2) by blast
    then have "rl_cover (remove1 h ds) x = rl_cover ds x" using cover_remove1 [OF h, of x] by auto
    then show ?thesis using ent [OF that(1)] sub unfolding rl_entry_def by auto
  qed
  have dec: "rl_entry (remove1 h ds) (x\<lparr>r_cnt := r_cnt x - 1\<rparr>)" if x: "x \<in> set vs" "r_off x < r_end h" "r_cnt x \<noteq> 1" for x
  proof -
    note p = part [OF x(1,2)] and e = ent [of x]
    have c: "rl_cover ds x = rl_cover (remove1 h ds) x + 1" using cover_remove1 [OF h, of x] p by simp
    then have "r_cnt x \<noteq> 0" using p by auto
    then have "unat (r_cnt x - 1) = rl_cover (remove1 h ds) x" using p c by (simp add: unat_minus_one)
    moreover have "r_cnt x - 1 \<noteq> 0" using x(3) by simp
    ultimately have "unat (r_cnt x - 1) = rl_cover (remove1 h ds) x \<and> 0 < rl_cover (remove1 h ds) x" by (metis unat_gt_0)
    then show ?thesis using e x(1) p sub unfolding rl_entry_def by (auto simp: rl_ok_def rl_cover_def)
  qed
  have far: "\<not> overlap u h" if "u \<in> set us" for u using us that by (auto simp: not_less)
  have "rls_ok (us @ ys)"
  proof -
    have "r_end u \<le> r_off y" if "u \<in> set us" "y \<in> set ys" for u y using L(6) [OF that(2)] okv(3) that(1) by metis
    then show ?thesis using L(5) okv(2) by (auto simp: rls_ok_append)
  qed
  moreover have "rl_entry (remove1 h ds) y" if y: "y \<in> set (us @ ys)" for y
  proof (cases "y \<in> set us")
    case True
    then show ?thesis using same far by simp
  next
    case False
    then consider "y \<in> set vs" "r_end h \<le> r_off y" | x where "x \<in> set vs" "r_off x < r_end h" "r_cnt x \<noteq> 1" "y = x\<lparr>r_cnt := r_cnt x - 1\<rparr>"
      using L(1) [of y] y by auto
    then show ?thesis
    proof cases
      case 1
      then show ?thesis using same [of y] by (simp add: not_less)
    next
      case 2
      then show ?thesis using dec by simp
    qed
  qed
  moreover have "rset g \<subseteq> (\<Union>y \<in> set (us @ ys). rset y)" if g: "g \<in> set (remove1 h ds)" for g
  proof
    fix a assume a: "a \<in> rset g"
    have gd: "g \<in> set ds" using g sub by blast
    obtain x where x: "x \<in> set (us @ vs)" "a \<in> rset x" using a rls_invD(4) [OF inv gd] by blast
    have "overlap x g" using a x(2) by (auto intro: order.strict_trans1)
    then have ig: "inside x g" using ent [OF x(1)] gd by (auto simp: rl_entry_def)
    have "r_cnt x \<noteq> 1" if "x \<in> set vs" "r_off x < r_end h"
    proof -
      have "0 < rl_cover (remove1 h ds) x" unfolding rl_cover_def using g ig by (auto simp: filter_empty_conv)
      then show ?thesis using part [OF that] cover_remove1 [OF h, of x] by auto
    qed
    then consider "x \<in> set us" | "x \<in> set ys" | "x\<lparr>r_cnt := r_cnt x - 1\<rparr> \<in> set ys" using L(2) [of x] x(1) by auto
    then show "a \<in> (\<Union>y \<in> set (us @ ys). rset y)" using x(2) by cases force+
  qed
  moreover have "rl_handle g" if "g \<in> set (remove1 h ds)" for g using rls_invD(3) [OF inv] that sub by blast
  ultimately have "rls_inv (us @ ys) (remove1 h ds)" unfolding rls_inv_def by blast
  moreover have "rl_holders (us @ vs) ds = rl_holders (us @ ys) (remove1 h ds) + {#rl_id h#}"
    using L(3) part ids_remove1 [OF h] unfolding rl_holders_def by simp
  moreover have "mset (map r_addr ((us @ ys) @ remove1 h ds)) \<subseteq># mset (map r_addr ((us @ vs) @ ds))"
    using L(4) by (simp add: image_mset_subseteq_mono subset_mset.add_mono)
  moreover have "(\<exists>y \<in> set (us @ ys). r_addr y = r_addr x \<and> r_write_wanted y = r_write_wanted x \<and> r_read_wanted y = r_read_wanted x) \<or>
        set (rl_wakeups x) \<subseteq> set cvs" if x: "x \<in> set (us @ vs)" for x
  proof -
    consider "x \<in> set (us @ ys)" | "x\<lparr>r_cnt := r_cnt x - 1\<rparr> \<in> set (us @ ys)" | "set (rl_wakeups x) \<subseteq> set cvs"
      using x L(2) [of x] by auto
    then show ?thesis
    proof cases
      case 2
      then show ?thesis by (intro disjI1 bexI [of _ "x\<lparr>r_cnt := r_cnt x - 1\<rparr>"]) simp_all
    qed blast+
  qed
  ultimately show ?thesis unfolding rl_release_def by blast
qed

subsection \<open>The state between the routines\<close>

abbreviation rl_locks :: "rlocks \<Rightarrow> rl list" where "rl_locks st \<equiv> avl_contents (z_range_avl st)"

definition rlocks_wf :: "rlocks \<Rightarrow> bool" where
  "rlocks_wf st \<longleftrightarrow> rl_tree st (rl_locks st) \<and> rls_inv (rl_locks st) (rl_detached st) \<and>
     distinct (map r_addr (rl_locks st @ rl_detached st)) \<and> (\<forall>x \<in> set (rl_locks st @ rl_detached st). r_addr x < rl_next st)"

definition rl_held :: "rlocks \<Rightarrow> (nat \<times> u64 \<times> u64 \<times> rl_type) multiset" where
  "rl_held st = rl_holders (rl_locks st) (rl_detached st)"

definition rlocks_init :: rlocks where
  "rlocks_init = \<lparr>z_range_avl = avl_create zfs_range_compare, rl_detached = [], rl_next = 0\<rparr>"

lemma rlocks_init_wf: "rlocks_wf rlocks_init" "rl_held rlocks_init = {#}"
  by (simp_all add: rlocks_wf_def rl_tree_def rls_inv_def rlocks_init_def rl_held_def rl_holders_def)

lemma rl_state_iff: "rl_state st xs ds n \<longleftrightarrow> xs = rl_locks st \<and> ds = rl_detached st \<and> n = rl_next st \<and> rl_tree st (rl_locks st)"
  by (auto simp: rl_state_def rl_tree_def)

lemma rlocks_wf_state: "rlocks_wf st \<Longrightarrow> rl_state st (rl_locks st) (rl_detached st) (rl_next st)"
  by (simp add: rlocks_wf_def rl_state_iff)

lemma rlocks_wf_inv: "rlocks_wf st \<Longrightarrow> rls_inv (rl_locks st) (rl_detached st)"
  by (simp add: rlocks_wf_def)

lemma addr_fresh:
  assumes "distinct (map r_addr xs)" "\<forall>x \<in> set xs. r_addr x < n" "mset (map r_addr ys) = mset (map r_addr xs) + {#a#} + mset [n..<n']"
    "a < n" "a \<notin> r_addr ` set xs" "n \<le> n'"
  shows "distinct (map r_addr ys) \<and> (\<forall>y \<in> set ys. r_addr y < n')"
proof -
  have m: "mset (map r_addr ys) = mset (map r_addr xs @ [a] @ [n..<n'])" using assms(3) by simp
  have "distinct (map r_addr xs @ [a] @ [n..<n'])" using assms by auto
  then have "distinct (map r_addr ys)" using m mset_eq_imp_distinct_iff by blast
  moreover have "set (map r_addr ys) = set (map r_addr xs @ [a] @ [n..<n'])" using m by (metis set_mset_mset)
  then have "r_addr y \<in> r_addr ` set xs \<union> {a} \<union> {n..<n'}" if "y \<in> set ys" for y using that by auto
  ultimately show ?thesis using assms(2,4,6) by fastforce
qed

lemma distinct_submset:
  assumes "mset as \<subseteq># mset bs" "distinct bs"
  shows "distinct as"
proof -
  obtain C where "mset bs = mset as + C" using assms(1) by (auto simp: subset_mset.le_iff_add)
  moreover obtain cs where "C = mset cs" using ex_mset by metis
  ultimately have "mset bs = mset (as @ cs)" by simp
  then show ?thesis using assms(2) mset_eq_imp_distinct_iff distinct_append by blast
qed

lemma grant_wf:
  assumes wf: "rlocks_wf st" and g: "rl_grant new (rl_locks st) (rl_detached st) (rl_next st) ys ds' n'" and s: "rl_state st' ys ds' n'"
    and a: "r_addr new < rl_next st" "r_addr new \<notin> r_addr ` set (rl_locks st @ rl_detached st)"
  shows "rlocks_wf st'" "rl_held st' = rl_held st + {#rl_id new#}"
proof -
  have "distinct (map r_addr (ys @ ds')) \<and> (\<forall>y \<in> set (ys @ ds'). r_addr y < n')"
    by (rule addr_fresh [of "rl_locks st @ rl_detached st" "rl_next st"]) (use wf g a in \<open>auto simp: rlocks_wf_def rl_grant_def\<close>)
  then show "rlocks_wf st'" using g s by (auto simp: rlocks_wf_def rl_state_iff rl_grant_def)
  show "rl_held st' = rl_held st + {#rl_id new#}" using g s by (simp add: rl_held_def rl_state_iff rl_grant_def)
qed

lemma addr_sub:
  assumes m: "mset (map r_addr ys) \<subseteq># mset (map r_addr xs)" and d: "distinct (map r_addr xs)" and n: "\<forall>x \<in> set xs. r_addr x < n"
  shows "distinct (map r_addr ys) \<and> (\<forall>y \<in> set ys. r_addr y < n)"
proof -
  have "set (map r_addr ys) \<subseteq> set (map r_addr xs)" using set_mset_mono [OF m] unfolding set_mset_mset .
  then have "\<forall>y \<in> set ys. r_addr y < n" using n by fastforce
  then show ?thesis using distinct_submset [OF m d] by blast
qed

lemma wf_sub:
  assumes wf: "rlocks_wf st" and s: "rl_state st' ys ds' (rl_next st)" and inv: "rls_inv ys ds'"
    and m: "mset (map r_addr (ys @ ds')) \<subseteq># mset (map r_addr (rl_locks st @ rl_detached st))"
  shows "rlocks_wf st'"
proof -
  have "distinct (map r_addr (ys @ ds')) \<and> (\<forall>y \<in> set (ys @ ds'). r_addr y < rl_next st)"
    by (rule addr_sub [OF m]) (use wf in \<open>simp_all add: rlocks_wf_def\<close>)
  then show ?thesis using s inv unfolding rl_state_iff rlocks_wf_def by metis
qed

lemma wait_wf:
  assumes wf: "rlocks_wf st" and w: "rl_wait w x (rl_locks st) ys" "w \<or> rl_blocks x" and s: "rl_state st' ys (rl_detached st) (rl_next st)"
  shows "rlocks_wf st'" "rl_held st' = rl_held st"
proof -
  note W = wait_inv [OF rlocks_wf_inv [OF wf] w]
  show "rlocks_wf st'" by (rule wf_sub [OF wf s W(1)]) (simp only: map_append W(3) subset_mset.order_refl)
  show "rl_held st' = rl_held st" using W(2) s by (simp add: rl_held_def rl_state_iff)
qed

lemma release_wf:
  assumes wf: "rlocks_wf st" and r: "rl_release h (rl_locks st) (rl_detached st) ys ds' cvs" and s: "rl_state st' ys ds' (rl_next st)"
  shows "rlocks_wf st'" "rl_held st = rl_held st' + {#rl_id h#}"
proof -
  show "rlocks_wf st'" by (rule wf_sub [OF wf s]) (use r in \<open>simp_all only: rl_release_def\<close>)
  show "rl_held st = rl_held st' + {#rl_id h#}" using r s by (simp add: rl_held_def rl_state_iff rl_release_def)
qed

lemma deref:
  assumes wf: "rlocks_wf st" and h: "h \<in> set (rl_locks st @ rl_detached st)"
  shows "rl_deref st (r_addr h) = Some h"
proof -
  have d: "distinct (map r_addr (rl_locks st @ rl_detached st))" using wf by (simp add: rlocks_wf_def)
  have "find (\<lambda>rl. r_addr rl = r_addr h) xs = Some h" if "h \<in> set xs" "distinct (map r_addr xs)" for xs
    using that by (induction xs) auto
  then show ?thesis using d h unfolding rl_deref_def by blast
qed

text \<open>A lock held by somebody: one of the tree that is not a proxy, or a detached one.\<close>

lemma held_cases:
  assumes "a \<in># rl_held st"
  obtains (tree) h where "a = rl_id h" "h \<in> set (rl_locks st)" "\<not> r_proxy h"
  | (detached) h where "a = rl_id h" "h \<in> set (rl_detached st)"
  using assms by (auto simp: rl_held_def rl_holders_def)

lemma unlock_release:
  assumes wf: "rlocks_wf st" and a: "(p, off, len, ty) \<in># rl_held st"
  shows "\<exists>st' cvs h ys ds'. zfs_range_unlock p st = Some (st', cvs) \<and> rl_id h = (p, off, len, ty) \<and>
    rl_state st' ys ds' (rl_next st) \<and> rl_release h (rl_locks st) (rl_detached st) ys ds' cvs"
  using a
proof (cases rule: held_cases)
  case (tree h)
  note inv = rlocks_wf_inv [OF wf] and s = rlocks_wf_state [OF wf]
  have d: "rl_deref st p = Some h" using deref [OF wf, of h] tree by (simp add: rl_id_def)
  have e: "rl_entry (rl_detached st) h" using rls_invD(2) [OF inv tree(2)] .
  obtain us vs where uv: "rl_locks st = us @ h # vs" using split_list [OF tree(2)] by blast
  let ?st = "rl_set_tree (\<lambda>t. avl_remove t h) st"
  have "rl_state ?st (us @ vs) (rl_detached st) (rl_next st)" using rl_remove [of st us h vs] s uv by (simp add: rl_state_def)
  moreover have "rl_release h (rl_locks st) (rl_detached st) (us @ vs) (rl_detached st) (rl_wakeups h)"
    unfolding uv by (rule removed_release [OF inv [unfolded uv] tree(3)])
  moreover have "zfs_range_unlock p st = Some (?st, rl_wakeups h)"
    using d e tree(3) by (cases "r_type h") (auto simp: zfs_range_unlock_def rl_entry_def zfs_range_unlock_reader_def)
  ultimately show ?thesis using tree(1) by metis
next
  case (detached h)
  note inv = rlocks_wf_inv [OF wf] and s = rlocks_wf_state [OF wf]
  let ?xs = "rl_locks st" and ?ds = "rl_detached st"
  have d: "rl_deref st p = Some h" using deref [OF wf, of h] detached by (simp add: rl_id_def)
  have hh: "rl_handle h" using rls_invD(3) [OF inv detached(2)] .
  have t: "rl_tree st ?xs" using wf by (simp add: rlocks_wf_def)
  have ent: "inside x h \<and> r_cnt x \<noteq> 0 \<and> r_type x = RL_READER" if "x \<in> set ?xs" "overlap x h" for x
    using rls_invD(2) [OF inv that(1)] that(2) detached(2) by (auto simp: rl_entry_def)
  have "r_off h \<in> rset h" using hh by (simp add: rl_handle_def rl_ok_def)
  then obtain x where x: "x \<in> set ?xs" "r_off x \<le> r_off h" "r_off h < r_end x" using rls_invD(4) [OF inv detached(2)] by fastforce
  have "overlap x h" using x hh by (auto simp: rl_handle_def rl_ok_def)
  then have xi: "r_off x = r_off h" "r_cnt x \<noteq> 0" "r_type x = RL_READER" using ent [OF x(1)] x(2) by auto
  from t show ?thesis
  proof (cases rule: rl_find_cases [where new = h])
    case (found us y vs)
    have ok: "rls_ok (us @ y # vs)" using rls_invD(1) [OF inv] found(2) by simp
    have okv: "rls_ok (y # vs)" using ok by (simp add: rls_ok_append)
    have us: "\<forall>u \<in> set us. r_end u \<le> r_off h" and vs: "\<forall>v \<in> set (y # vs). r_off h \<le> r_off v"
      using ok found(3) by (auto simp: rls_ok_append rls_ok_Cons rl_ok_def)
    have cover: "{r_off h ..< r_end h} \<subseteq> (\<Union>x \<in> set (y # vs). rset x)"
    proof
      fix b assume b: "b \<in> rset h"
      then obtain z where z: "z \<in> set (us @ y # vs)" "b \<in> rset z" using rls_invD(4) [OF inv detached(2)] found(2) by fastforce
      have "z \<notin> set us"
      proof
        assume "z \<in> set us"
        then have "r_end z \<le> r_off h" using us by blast
        then show False using z(2) b by auto
      qed
      then show "b \<in> (\<Union>x \<in> set (y # vs). rset x)" using z by auto
    qed
    have tiled: "rl_tiled (r_off h) (r_end h) (y # vs)"
      by (rule handle_tiled [OF okv _ cover vs]) (use ent found(2) hh in \<open>auto simp: rl_handle_def rl_ok_def\<close>)
    obtain ys cvs where l: "lrelease (r_end h) (y # vs) = (ys, cvs)" by fastforce
    have s0: "rl_state (st\<lparr>rl_detached := remove1 h ?ds\<rparr>) (us @ y # vs) (remove1 h ?ds) (rl_next st)"
      using s found(2) by (simp add: rl_state_def)
    have le: "r_off h \<le> r_end h" using hh by (auto simp: rl_handle_def rl_ok_def)
    have k: "length (y # vs) < avl_numnodes (z_range_avl st) + 1" using rl_treeD(6) [OF t] found(2) by simp
    obtain st' where st': "zfs_range_unlock_loop (avl_numnodes (z_range_avl st) + 1) (st\<lparr>rl_detached := remove1 h ?ds\<rparr>) (r_end h - r_off h) y [] = Some (st', [] @ cvs)"
      "rl_state st' (us @ ys) (remove1 h ?ds) (rl_next st)"
      using unlock_loop_list [OF s0 tiled le _ k l, of y "[]"] by blast
    have "overlap y h" using found(3) okv hh by (auto simp: rls_ok_Cons rl_ok_def rl_handle_def)
    then have "r_cnt y \<noteq> 0" "r_type y = RL_READER" using ent [of y] found(2) by auto
    then have "zfs_range_unlock p st = Some (st', cvs)"
      using d hh st'(1) found(1) by (simp add: zfs_range_unlock_def zfs_range_unlock_reader_def rl_handle_def)
    moreover have "rl_release h ?xs ?ds (us @ ys) (remove1 h ?ds) cvs"
      using shared_release [OF inv [unfolded found(2)] detached(2) us vs l] found(2) by simp
    ultimately show ?thesis using st'(2) detached(1) by metis
  next
    case (place w us vs)
    have "x \<in> set us \<or> x \<in> set vs" using x(1) place(3) by auto
    then show ?thesis using place(4,5) xi(1) by auto
  qed
qed

text \<open>\<open>zfs_range_reduce\<close> gives back the range of a lock on the whole file except for a part of it.\<close>

lemma reduce_narrow:
  assumes wf: "rlocks_wf st" and r: "zfs_range_reduce p off len st = Some (st', cvs)" and ok: "off < off + len"
  shows "rlocks_wf st'" "rl_held st = {#(p, 0, - 1, RL_WRITER)#}" "rl_held st' = {#(p, off, len, RL_WRITER)#}"
    "\<exists>x y. rl_locks st = [x] \<and> rl_locks st' = [y] \<and> r_addr y = r_addr x \<and> cvs = rl_wakeups x"
    "rl_detached st' = rl_detached st \<and> rl_next st' = rl_next st"
proof -
  note inv = rlocks_wf_inv [OF wf]
  have t: "rl_tree st (rl_locks st)" using wf by (simp add: rlocks_wf_def)
  obtain x where d: "rl_deref st p = Some x" and one: "avl_numnodes (z_range_avl st) = 1"
    and x: "r_off x = 0" "r_type x = RL_WRITER" "\<not> r_proxy x" "r_len x = - 1" "r_cnt x = 1"
    and st': "st' = rl_set_tree (\<lambda>t. avl_store t x (x\<lparr>r_off := off, r_len := len\<rparr>)) st" and cvs: "cvs = rl_wakeups x"
    using r by (auto simp: zfs_range_reduce_def split: option.splits if_splits)
  let ?y = "x\<lparr>r_off := off, r_len := len\<rparr>"
  have p: "x \<in> set (rl_locks st @ rl_detached st)" "r_addr x = p"
    using d by (auto simp: rl_deref_def find_Some_iff simp del: set_append length_append)
  have "x \<notin> set (rl_detached st)" using rls_invD(3) [OF inv, of x] x(2) by (auto simp: rl_handle_def)
  then have "x \<in> set (rl_locks st)" using p(1) by simp
  then have xs: "rl_locks st = [x]" using rl_treeD(6) [OF t] one by (cases "rl_locks st") auto
  have ex: "rl_entry (rl_detached st) x" using rls_invD(2) [OF inv, of x] xs by simp
  have ds: "rl_detached st = []"
  proof (rule ccontr)
    assume "rl_detached st \<noteq> []"
    then obtain h where h: "h \<in> set (rl_detached st)" by (cases "rl_detached st") auto
    have "rl_ok h" using rls_invD(3) [OF inv h] by (simp add: rl_handle_def)
    then have "r_off h \<in> rset h" by (simp add: rl_ok_def)
    then have "r_off h < r_end x" using rls_invD(4) [OF inv h] xs by fastforce
    moreover have "r_off x < r_end h"
      by (rule order.strict_trans1 [of _ "r_off h"]) (use \<open>rl_ok h\<close> x(1) in \<open>simp_all add: rl_ok_def\<close>)
    ultimately have "r_proxy x" using ex h by (simp add: rl_entry_def)
    then show False using x(3) by simp
  qed
  have t': "rl_tree st' [?y]" using rl_store [of st "[]" x "[]" ?y] t xs unfolding st' by simp
  have xs': "rl_locks st' = [?y]" using t' by (simp add: rl_tree_def)
  have "rl_entry [] ?y" using ex ok x ds by (simp add: rl_entry_def rl_ok_def)
  then have "rls_inv [?y] []" using ok x(3) by (simp add: rls_inv_def rls_ok_def rl_entry_def)
  moreover have "r_addr x < rl_next st" using wf xs by (simp add: rlocks_wf_def)
  ultimately show "rlocks_wf st'" using t' xs' ds st' by (simp add: rlocks_wf_def)
  show "rl_held st = {#(p, 0, - 1, RL_WRITER)#}" using xs ds x p(2) by (simp add: rl_held_def rl_holders_def rl_id_def)
  show "rl_held st' = {#(p, off, len, RL_WRITER)#}" using xs' ds st' x p(2) by (simp add: rl_held_def rl_holders_def rl_id_def)
  show "\<exists>x y. rl_locks st = [x] \<and> rl_locks st' = [y] \<and> r_addr y = r_addr x \<and> cvs = rl_wakeups x" using xs xs' cvs by simp
  show "rl_detached st' = rl_detached st \<and> rl_next st' = rl_next st" using st' by simp
qed

text \<open>The contract of the component: two locks that meet are both readers.\<close>

fun rl_meet :: "nat \<times> u64 \<times> u64 \<times> rl_type \<Rightarrow> nat \<times> u64 \<times> u64 \<times> rl_type \<Rightarrow> bool" where
  "rl_meet (p, off, len, ty) (p', off', len', ty') \<longleftrightarrow> off < off' + len' \<and> off' < off + len"

fun rl_reads :: "nat \<times> u64 \<times> u64 \<times> rl_type \<Rightarrow> bool" where "rl_reads (p, off, len, ty) \<longleftrightarrow> ty = RL_READER"

definition rl_exclusive :: "(nat \<times> u64 \<times> u64 \<times> rl_type) multiset \<Rightarrow> bool" where
  "rl_exclusive H \<longleftrightarrow> (\<forall>a \<in># H. \<forall>b \<in># H - {#a#}. rl_meet a b \<longrightarrow> rl_reads a \<and> rl_reads b)"

lemma rl_id_simps [simp]: "rl_meet (rl_id x) (rl_id y) \<longleftrightarrow> overlap x y" "rl_reads (rl_id x) \<longleftrightarrow> r_type x = RL_READER"
  by (simp_all add: rl_id_def)

lemma held_distinct:
  assumes "rlocks_wf st" "a \<in># rl_held st" "b \<in># rl_held st - {#a#}"
  shows "a \<noteq> b"
proof -
  let ?hs = "filter (\<lambda>x. \<not> r_proxy x) (rl_locks st) @ rl_detached st"
  have "distinct (map r_addr ?hs)" using assms(1) by (auto simp: rlocks_wf_def distinct_map_filter)
  moreover have "map r_addr ?hs = map fst (map rl_id ?hs)" by (simp add: rl_id_def comp_def)
  ultimately have "distinct (map rl_id ?hs)" using distinct_map by metis
  then show ?thesis using assms(3) unfolding rl_held_def rl_holders_def mset_remove1 [symmetric] set_mset_mset by auto
qed

lemma rls_ok_disjoint:
  assumes "rls_ok xs" "x \<in> set xs" "y \<in> set xs" "overlap x y"
  shows "x = y"
  using assms
proof (induction xs)
  case (Cons z xs)
  then show ?case by (auto simp: rls_ok_Cons not_le dest: order.strict_trans2)
qed simp

lemma wf_exclusive:
  assumes wf: "rlocks_wf st"
  shows "rl_exclusive (rl_held st)"
  unfolding rl_exclusive_def
proof (intro ballI impI)
  fix a b assume a: "a \<in># rl_held st" and b: "b \<in># rl_held st - {#a#}" and m: "rl_meet a b"
  note inv = rlocks_wf_inv [OF wf]
  have b': "b \<in># rl_held st" using b by (rule in_diffD)
  have ne: "a \<noteq> b" using held_distinct [OF wf a b] .
  have h: "r_type h = RL_READER" if "h \<in> set (rl_detached st)" for h using rls_invD(3) [OF inv that] by (simp add: rl_handle_def)
  have e: "\<not> overlap x h" if "x \<in> set (rl_locks st)" "\<not> r_proxy x" "h \<in> set (rl_detached st)" for x h
    using rls_invD(2) [OF inv that(1)] that(2,3) unfolding rl_entry_def by blast
  from a show "rl_reads a \<and> rl_reads b"
  proof (cases rule: held_cases)
    case x: (tree x)
    from b' show ?thesis
    proof (cases rule: held_cases)
      case y: (tree y)
      have "x = y" by (rule rls_ok_disjoint [OF rls_invD(1) [OF inv] x(2) y(2)]) (use m x(1) y(1) in simp)
      then show ?thesis using ne x(1) y(1) by simp
    next
      case y: (detached y)
      then show ?thesis using e [OF x(2,3) y(2)] m x(1) by simp
    qed
  next
    case x: (detached x)
    from b' show ?thesis
    proof (cases rule: held_cases)
      case y: (tree y)
      then show ?thesis using e [OF y(2,3) x(2)] m x(1) by auto
    next
      case y: (detached y)
      then show ?thesis using h [OF x(2)] h [OF y(2)] x(1) by simp
    qed
  qed
qed

subsection \<open>The threads that use the range locks of a file\<close>

text \<open>A thread that calls \<open>zfs_range_lock\<close> has built its request and waits for its turn; its
  condition variable is recorded while it sleeps in \<open>cv_wait\<close>.  Each step is one passage through
  the critical section of \<open>z_range_lock\<close>; the fields of the file that decide the range of a writer
  may differ from passage to passage.  \<open>zfs_range_reduce\<close> reads the flags of its lock after it has
  left the critical section, so it may also wake a thread that went to sleep in between: the last
  kind of step lets any sleeping thread wake up.\<close>

record rl_system =
  sys_locks :: rlocks
  sys_waiters :: "(rl \<times> rl_cv option) list"

definition rl_broadcast :: "rl_cv list \<Rightarrow> (rl \<times> rl_cv option) list \<Rightarrow> (rl \<times> rl_cv option) list" where
  "rl_broadcast cvs ws = map (\<lambda>(new, c). (new, if \<exists>cv \<in> set cvs. c = Some cv then None else c)) ws"

definition rl_park :: "rl \<Rightarrow> rl_cv \<Rightarrow> (rl \<times> rl_cv option) list \<Rightarrow> (rl \<times> rl_cv option) list" where
  "rl_park new cv ws = map (\<lambda>w. if w = (new, None) then (new, Some cv) else w) ws"

inductive rl_step :: "rl_system \<Rightarrow> rl_system \<Rightarrow> bool" where
  rl_arrives: "rl_step \<lparr>sys_locks = st, sys_waiters = ws\<rparr>
     \<lparr>sys_locks = st\<lparr>rl_next := rl_next st + 1\<rparr>, sys_waiters = (rl_new (rl_next st) off len ty, None) # ws\<rparr>"
| rl_gets: "rl_step \<lparr>sys_locks = st, sys_waiters = ws\<rparr> \<lparr>sys_locks = st', sys_waiters = remove1 (new, None) ws\<rparr>"
  if "(new, None) \<in> set ws" "rl_ok (rl_wanted zp new)" "length (rl_detached st) + 2 < 2 ^ 32"
    "zfs_range_lock zp new st = Some (RL_granted st')"
| rl_sleeps: "rl_step \<lparr>sys_locks = st, sys_waiters = ws\<rparr> \<lparr>sys_locks = st', sys_waiters = rl_park new cv ws\<rparr>"
  if "(new, None) \<in> set ws" "rl_ok (rl_wanted zp new)" "length (rl_detached st) + 2 < 2 ^ 32"
    "zfs_range_lock zp new st = Some (RL_waits st' cv)"
| rl_leaves: "rl_step \<lparr>sys_locks = st, sys_waiters = ws\<rparr> \<lparr>sys_locks = st', sys_waiters = rl_broadcast cvs ws\<rparr>"
  if "(p, off, len, ty) \<in># rl_held st" "zfs_range_unlock p st = Some (st', cvs)"
| rl_narrows: "rl_step \<lparr>sys_locks = st, sys_waiters = ws\<rparr> \<lparr>sys_locks = st', sys_waiters = rl_broadcast cvs ws\<rparr>"
  if "off < off + len" "zfs_range_reduce p off len st = Some (st', cvs)"
| rl_wakes: "rl_step \<lparr>sys_locks = st, sys_waiters = ws\<rparr> \<lparr>sys_locks = st, sys_waiters = rl_broadcast cvs ws\<rparr>"

inductive rl_reachable :: "rl_system \<Rightarrow> bool" where
  rl_initial: "rl_reachable \<lparr>sys_locks = rlocks_init, sys_waiters = []\<rparr>"
| rl_further: "rl_reachable s \<Longrightarrow> rl_step s s' \<Longrightarrow> rl_reachable s'"

text \<open>A thread that sleeps has asked the holder of a lock in the tree to be woken.\<close>

definition rl_parked :: "rlocks \<Rightarrow> bool \<Rightarrow> rl_cv \<Rightarrow> bool" where
  "rl_parked st w cv \<longleftrightarrow> (\<exists>x \<in> set (rl_locks st). cv = rl_cv_of w x \<and> (if w then r_write_wanted x else r_read_wanted x))"

abbreviation rl_addrs :: "rlocks \<Rightarrow> nat set" where "rl_addrs st \<equiv> r_addr ` set (rl_locks st @ rl_detached st)"

definition rl_pending :: "rlocks \<Rightarrow> rl \<Rightarrow> bool" where
  "rl_pending st new \<longleftrightarrow> r_addr new < rl_next st \<and> r_addr new \<notin> rl_addrs st \<and>
     new = rl_new (r_addr new) (r_off new) (r_len new) (r_type new)"

definition waiters_ok :: "rlocks \<Rightarrow> (rl \<times> rl_cv option) list \<Rightarrow> bool" where
  "waiters_ok st ws \<longleftrightarrow> distinct (map (\<lambda>w. r_addr (fst w)) ws) \<and>
     (\<forall>(new, c) \<in> set ws. rl_pending st new \<and> (\<forall>cv. c = Some cv \<longrightarrow> rl_parked st (r_type new \<noteq> RL_READER) cv))"

lemma waiters_okD:
  assumes "waiters_ok st ws"
  shows "distinct (map (\<lambda>w. r_addr (fst w)) ws)" "(new, c) \<in> set ws \<Longrightarrow> rl_pending st new"
    "(new, Some cv) \<in> set ws \<Longrightarrow> rl_parked st (r_type new \<noteq> RL_READER) cv"
  using assms by (auto simp: waiters_ok_def)

lemma pending_request:
  assumes "rl_pending st new" "rl_ok (rl_wanted zp new)"
  shows "rl_request (rl_wanted zp new)" "r_addr (rl_wanted zp new) = r_addr new"
proof -
  have n: "r_cnt new = 1" "\<not> r_proxy new" "\<not> r_write_wanted new" "\<not> r_read_wanted new"
    using arg_cong [where f = r_cnt] arg_cong [where f = r_proxy] arg_cong [where f = r_write_wanted] arg_cong [where f = r_read_wanted] assms(1)
    unfolding rl_pending_def rl_new_def by (metis rl.select_convs)+
  then show "rl_request (rl_wanted zp new)" using assms(2) by (auto simp: rl_request_def rl_wanted_def rl_writer_range_def Let_def)
  show "r_addr (rl_wanted zp new) = r_addr new" by (simp add: rl_wanted_def rl_writer_range_def Let_def)
qed

lemma grant_waiters:
  assumes wf: "rlocks_wf st" and ok: "waiters_ok st ws" and w: "(new, None) \<in> set ws"
    and g: "rl_grant new' (rl_locks st) (rl_detached st) (rl_next st) ys ds' n'" and a: "r_addr new' = r_addr new" and s: "rl_state st' ys ds' n'"
  shows "waiters_ok st' (remove1 (new, None) ws)"
proof -
  let ?f = "\<lambda>w. r_addr (fst w)"
  have st': "ys = rl_locks st'" "ds' = rl_detached st'" "rl_next st' = n'" using s by (simp_all add: rl_state_iff)
  have "mset (map r_addr (ys @ ds')) = mset (map r_addr (rl_locks st @ rl_detached st) @ [r_addr new] @ [rl_next st..<n'])" and n: "rl_next st \<le> n'"
    using g a by (simp_all add: rl_grant_def)
  then have "set (map r_addr (ys @ ds')) = set (map r_addr (rl_locks st @ rl_detached st) @ [r_addr new] @ [rl_next st..<n'])"
    by (metis set_mset_mset)
  then have addrs: "rl_addrs st' = rl_addrs st \<union> {r_addr new} \<union> {rl_next st..<n'}" using st' by auto
  note d = waiters_okD(1) [OF ok]
  have "rl_pending st' v \<and> (\<forall>cv. c = Some cv \<longrightarrow> rl_parked st' (r_type v \<noteq> RL_READER) cv)" if v: "(v, c) \<in> set (remove1 (new, None) ws)" for v c
  proof -
    have "distinct ws" using d by (simp add: distinct_map)
    then have v': "(v, c) \<in> set ws" "(v, c) \<noteq> (new, None)" using v by simp_all
    then have "r_addr v \<noteq> r_addr new" using d w unfolding distinct_map inj_on_def by force
    moreover have p: "rl_pending st v" using waiters_okD(2) [OF ok v'(1)] .
    ultimately have "rl_pending st' v" using addrs n st'(3) by (simp add: rl_pending_def)
    moreover have "rl_parked st' b cv" if pk: "rl_parked st b cv" for b cv
    proof -
      obtain x where x: "x \<in> set (rl_locks st)" "cv = rl_cv_of b x" "if b then r_write_wanted x else r_read_wanted x"
        using pk by (auto simp: rl_parked_def)
      then have "x \<in> set ys" using g by (cases b) (simp_all add: rl_grant_def)
      then show ?thesis using x st'(1) by (auto simp: rl_parked_def)
    qed
    ultimately show ?thesis using waiters_okD(3) [OF ok] v'(1) by blast
  qed
  moreover have "distinct (map ?f (remove1 (new, None) ws))" using d by (auto simp: distinct_map distinct_remove1 inj_on_def)
  ultimately show ?thesis unfolding waiters_ok_def by blast
qed

lemma wait_waiters:
  assumes wf: "rlocks_wf st" and ok: "waiters_ok st ws"
    and w: "rl_wait (r_type new \<noteq> RL_READER) x (rl_locks st) ys" and s: "rl_state st' ys (rl_detached st) (rl_next st)"
  shows "waiters_ok st' (rl_park new (rl_cv_of (r_type new \<noteq> RL_READER) x) ws)"
proof -
  let ?b = "r_type new \<noteq> RL_READER"
  have st': "rl_locks st' = ys" "rl_detached st' = rl_detached st" "rl_next st' = rl_next st" using s by (simp_all add: rl_state_iff)
  obtain us vs where xs: "rl_locks st = us @ x # vs" "ys = us @ rl_mark ?b x # vs" using w unfolding rl_wait_def by blast
  have pend: "rl_pending st' v \<longleftrightarrow> rl_pending st v" for v unfolding rl_pending_def st' xs by simp
  have new: "rl_parked st' ?b (rl_cv_of ?b x)" unfolding rl_parked_def st' xs by (simp add: rl_cv_of_def)
  have old: "rl_parked st' b cv" if pk: "rl_parked st b cv" for b cv
  proof -
    obtain z where z: "z \<in> set (us @ x # vs)" "cv = rl_cv_of b z" "if b then r_write_wanted z else r_read_wanted z"
      using pk unfolding rl_parked_def xs by blast
    have "\<exists>y \<in> set ys. rl_cv_of b y = rl_cv_of b z \<and> (if b then r_write_wanted y else r_read_wanted y)"
    proof (cases "z = x")
      case True
      then show ?thesis using z(3) by (intro bexI [of _ "rl_mark ?b x"]) (auto simp: xs rl_cv_of_def)
    next
      case False
      then show ?thesis using z(1,3) by (intro bexI [of _ z]) (auto simp: xs)
    qed
    then show ?thesis using z(2) unfolding rl_parked_def st' by metis
  qed
  have f: "map (\<lambda>w. r_addr (fst w)) (rl_park new cv ws) = map (\<lambda>w. r_addr (fst w)) ws" for cv
    unfolding rl_park_def map_map by (rule map_cong) auto
  have "rl_pending st' v \<and> (\<forall>cv. c = Some cv \<longrightarrow> rl_parked st' (r_type v \<noteq> RL_READER) cv)"
    if v: "(v, c) \<in> set (rl_park new (rl_cv_of ?b x) ws)" for v c
  proof (cases "(v, c) \<in> set ws")
    case True
    then show ?thesis using waiters_okD(2,3) [OF ok] pend old by blast
  next
    case False
    then have "v = new" "c = Some (rl_cv_of ?b x)" "(new, None) \<in> set ws" using v by (auto simp: rl_park_def split: if_splits)
    then show ?thesis using waiters_okD(2) [OF ok] pend new by blast
  qed
  then show ?thesis using waiters_okD(1) [OF ok] unfolding waiters_ok_def f by blast
qed

lemma broadcast_waiters:
  assumes ok: "waiters_ok st ws" and a: "rl_addrs st' \<subseteq> rl_addrs st" "rl_next st' = rl_next st"
    and kept: "\<And>b cv. rl_parked st b cv \<Longrightarrow> rl_parked st' b cv \<or> cv \<in> set cvs"
  shows "waiters_ok st' (rl_broadcast cvs ws)"
proof -
  have f: "map (\<lambda>w. r_addr (fst w)) (rl_broadcast cvs ws) = map (\<lambda>w. r_addr (fst w)) ws"
    unfolding rl_broadcast_def map_map by (rule map_cong) auto
  have "rl_pending st' v \<and> (\<forall>cv. c = Some cv \<longrightarrow> rl_parked st' (r_type v \<noteq> RL_READER) cv)"
    if v: "(v, c) \<in> set (rl_broadcast cvs ws)" for v c
  proof -
    obtain c0 where c0: "(v, c0) \<in> set ws" "c = (if \<exists>cv \<in> set cvs. c0 = Some cv then None else c0)"
      using v unfolding rl_broadcast_def by auto
    have "rl_pending st' v" using waiters_okD(2) [OF ok c0(1)] a unfolding rl_pending_def by auto
    moreover have "rl_parked st' (r_type v \<noteq> RL_READER) cv" if "c = Some cv" for cv
    proof -
      have "c0 = Some cv" "cv \<notin> set cvs" using that c0(2) by (auto split: if_splits)
      then show ?thesis using kept waiters_okD(3) [OF ok] c0(1) by blast
    qed
    ultimately show ?thesis by blast
  qed
  then show ?thesis using waiters_okD(1) [OF ok] unfolding waiters_ok_def f by blast
qed

lemma parked_wakeup:
  assumes "if b then r_write_wanted x else r_read_wanted x"
  shows "rl_cv_of b x \<in> set (rl_wakeups x)"
  using assms by (auto simp: rl_cv_of_def rl_wakeups_def split: if_splits)

lemma release_parked:
  assumes r: "rl_release h (rl_locks st) (rl_detached st) ys ds' cvs" and s: "rl_state st' ys ds' (rl_next st)" and pk: "rl_parked st b cv"
  shows "rl_parked st' b cv \<or> cv \<in> set cvs"
proof -
  have st': "ys = rl_locks st'" using s by (simp add: rl_state_iff)
  obtain x where x: "x \<in> set (rl_locks st)" "cv = rl_cv_of b x" "if b then r_write_wanted x else r_read_wanted x"
    using pk unfolding rl_parked_def by blast
  from r x(1) consider (kept) y where "y \<in> set ys" "r_addr y = r_addr x" "r_write_wanted y = r_write_wanted x" "r_read_wanted y = r_read_wanted x"
    | (woken) "set (rl_wakeups x) \<subseteq> set cvs"
    unfolding rl_release_def by blast
  then show ?thesis
  proof cases
    case kept
    then have "rl_parked st' b cv" using x(2,3) unfolding rl_parked_def st' [symmetric] by (intro bexI [of _ y]) (auto simp: rl_cv_of_def)
    then show ?thesis ..
  next
    case woken
    then show ?thesis using parked_wakeup [OF x(3)] x(2) by blast
  qed
qed

lemma release_waiters:
  assumes ok: "waiters_ok st ws" and r: "rl_release h (rl_locks st) (rl_detached st) ys ds' cvs" and s: "rl_state st' ys ds' (rl_next st)"
  shows "waiters_ok st' (rl_broadcast cvs ws)"
proof (rule broadcast_waiters [OF ok])
  have st': "ys = rl_locks st'" "ds' = rl_detached st'" using s by (simp_all add: rl_state_iff)
  show "rl_next st' = rl_next st" using s by (simp add: rl_state_iff)
  have "mset (map r_addr (ys @ ds')) \<subseteq># mset (map r_addr (rl_locks st @ rl_detached st))" using r by (simp add: rl_release_def)
  from set_mset_mono [OF this] show "rl_addrs st' \<subseteq> rl_addrs st" unfolding set_mset_mset set_map st' .
qed (rule release_parked [OF r s])

definition rl_system_ok :: "rl_system \<Rightarrow> bool" where
  "rl_system_ok s \<longleftrightarrow> rlocks_wf (sys_locks s) \<and> waiters_ok (sys_locks s) (sys_waiters s)"

lemma lock_cases:
  assumes wf: "rlocks_wf st" and p: "rl_pending st new" and ok: "rl_ok (rl_wanted zp new)" and bound: "length (rl_detached st) + 2 < 2 ^ 32"
  obtains (granted) st' ys ds' n' where "zfs_range_lock zp new st = Some (RL_granted st')" "rl_state st' ys ds' n'"
      "rl_grant (rl_wanted zp new) (rl_locks st) (rl_detached st) (rl_next st) ys ds' n'"
  | (waits) st' x ys where "zfs_range_lock zp new st = Some (RL_waits st' (rl_cv_of (r_type new \<noteq> RL_READER) x))"
      "rl_state st' ys (rl_detached st) (rl_next st)" "rl_wait (r_type new \<noteq> RL_READER) x (rl_locks st) ys"
      "x \<in> set (rl_locks st)" "overlap x (rl_wanted zp new)" "r_type new \<noteq> RL_READER \<or> rl_blocks x"
  using rl_lock_outcome [OF rlocks_wf_state [OF wf] rlocks_wf_inv [OF wf] pending_request(1) [OF p ok] bound]
  unfolding rl_outcome_def by blast

lemma pending_grant:
  assumes wf: "rlocks_wf st" and p: "rl_pending st new" and ok: "rl_ok (rl_wanted zp new)" and s: "rl_state st' ys ds' n'"
    and g: "rl_grant (rl_wanted zp new) (rl_locks st) (rl_detached st) (rl_next st) ys ds' n'"
  shows "rlocks_wf st'" "rl_held st' = rl_held st + {#rl_id (rl_wanted zp new)#}"
  using grant_wf [OF wf g s] p pending_request(2) [OF p ok] by (simp_all add: rl_pending_def)

lemma arrive_ok:
  assumes wf: "rlocks_wf st" and ok: "waiters_ok st ws"
  shows "rlocks_wf (st\<lparr>rl_next := rl_next st + 1\<rparr>)" "waiters_ok (st\<lparr>rl_next := rl_next st + 1\<rparr>) ((rl_new (rl_next st) off len ty, None) # ws)"
proof -
  let ?new = "rl_new (rl_next st) off len ty"
  let ?st = "st\<lparr>rl_next := rl_next st + 1\<rparr>"
  have b: "\<forall>x \<in> set (rl_locks st @ rl_detached st). r_addr x < rl_next st" using wf by (simp add: rlocks_wf_def)
  then have b': "\<forall>x \<in> set (rl_locks st @ rl_detached st). r_addr x < rl_next st + 1" by (simp add: less_SucI)
  then show "rlocks_wf ?st" using wf by (simp add: rlocks_wf_def rl_tree_def)
  have new: "r_addr ?new = rl_next st" "rl_pending ?st ?new" using b by (auto simp: rl_pending_def rl_new_def)
  have old: "rl_pending ?st v \<and> r_addr v \<noteq> rl_next st" if "rl_pending st v" for v using that by (simp add: rl_pending_def)
  have park: "rl_parked ?st = rl_parked st" by (simp add: rl_parked_def fun_eq_iff)
  have "rl_pending ?st v \<and> r_addr v \<noteq> rl_next st \<and> (\<forall>cv. c = Some cv \<longrightarrow> rl_parked ?st (r_type v \<noteq> RL_READER) cv)" if "(v, c) \<in> set ws" for v c
    using waiters_okD(2,3) [OF ok] old that unfolding park by blast
  then show "waiters_ok ?st ((?new, None) # ws)"
    using waiters_okD(1) [OF ok] new unfolding waiters_ok_def by fastforce
qed

lemma narrow_ok:
  assumes wf: "rlocks_wf st" and ok: "waiters_ok st ws" and r: "zfs_range_reduce p off len st = Some (st', cvs)" "off < off + len"
  shows "waiters_ok st' (rl_broadcast cvs ws)"
proof (rule broadcast_waiters [OF ok])
  note R = reduce_narrow [OF wf r]
  obtain x y where x: "rl_locks st = [x]" "rl_locks st' = [y]" "r_addr y = r_addr x" "cvs = rl_wakeups x" using R(4) by blast
  then show "rl_addrs st' \<subseteq> rl_addrs st" using R(5) by simp
  show "rl_next st' = rl_next st" using R(5) by simp
  show "rl_parked st' b cv \<or> cv \<in> set cvs" if "rl_parked st b cv" for b cv
    using that parked_wakeup [of b x] unfolding rl_parked_def x by auto
qed

lemma step_ok:
  assumes "rl_step s s'" "rl_system_ok s"
  shows "rl_system_ok s'"
  using assms
proof (cases rule: rl_step.cases)
  case (rl_arrives st ws off len ty)
  then show ?thesis using arrive_ok(1) [of st ws] arrive_ok(2) [of st ws off len ty] assms(2) by (simp add: rl_system_ok_def)
next
  case (rl_gets new ws zp st st')
  then have wf: "rlocks_wf st" and ok: "waiters_ok st ws" using assms(2) by (simp_all add: rl_system_ok_def)
  note g = rl_gets(3-)
  note p = waiters_okD(2) [OF ok g(1)]
  from wf p g(2,3) show ?thesis
  proof (cases rule: lock_cases)
    case (granted st2 ys ds' n')
    then have s: "rl_state st' ys ds' n'" using g(4) by simp
    have "rlocks_wf st'" by (rule pending_grant(1) [OF wf p g(2) s granted(3)])
    moreover have "waiters_ok st' (remove1 (new, None) ws)"
      by (rule grant_waiters [OF wf ok g(1) granted(3) pending_request(2) [OF p g(2)] s])
    ultimately show ?thesis using rl_gets(2) by (simp add: rl_system_ok_def)
  qed (use g(4) in simp)
next
  case (rl_sleeps new ws zp st st' cv)
  then have wf: "rlocks_wf st" and ok: "waiters_ok st ws" using assms(2) by (simp_all add: rl_system_ok_def)
  note g = rl_sleeps(3-)
  from wf waiters_okD(2) [OF ok g(1)] g(2,3) show ?thesis
  proof (cases rule: lock_cases)
    case (waits st2 x ys)
    then have s: "rl_state st' ys (rl_detached st) (rl_next st)" and cv: "cv = rl_cv_of (r_type new \<noteq> RL_READER) x" using g(4) by simp_all
    have "rlocks_wf st'" by (rule wait_wf(1) [OF wf waits(3,6) s])
    moreover have "waiters_ok st' (rl_park new cv ws)" unfolding cv by (rule wait_waiters [OF wf ok waits(3) s])
    ultimately show ?thesis using rl_sleeps(2) by (simp add: rl_system_ok_def)
  qed (use g(4) in simp)
next
  case (rl_leaves p off len ty st st' cvs ws)
  then have wf: "rlocks_wf st" and ok: "waiters_ok st ws" using assms(2) by (simp_all add: rl_system_ok_def)
  from unlock_release [OF wf rl_leaves(3)] rl_leaves(4) obtain h ys ds'
    where r: "rl_state st' ys ds' (rl_next st)" "rl_release h (rl_locks st) (rl_detached st) ys ds' cvs" by auto
  have "rlocks_wf st'" by (rule release_wf(1) [OF wf r(2,1)])
  moreover have "waiters_ok st' (rl_broadcast cvs ws)" by (rule release_waiters [OF ok r(2,1)])
  ultimately show ?thesis using rl_leaves(2) by (simp add: rl_system_ok_def)
next
  case (rl_narrows off len p st st' cvs ws)
  then have wf: "rlocks_wf st" and ok: "waiters_ok st ws" using assms(2) by (simp_all add: rl_system_ok_def)
  then show ?thesis using reduce_narrow(1) [OF wf rl_narrows(4,3)] narrow_ok [OF wf ok rl_narrows(4,3)] rl_narrows(2) by (simp add: rl_system_ok_def)
next
  case (rl_wakes st ws cvs)
  then show ?thesis using broadcast_waiters [of st ws st cvs] assms(2) by (simp add: rl_system_ok_def)
qed

lemma reachable_ok: "rl_reachable s \<Longrightarrow> rl_system_ok s"
proof (induction rule: rl_reachable.induct)
  case rl_initial
  then show ?case by (simp add: rl_system_ok_def rlocks_init_wf waiters_ok_def)
next
  case (rl_further s s')
  then show ?case using step_ok by blast
qed

lemma holder_of:
  assumes wf: "rlocks_wf st" and x: "x \<in> set (rl_locks st)"
  shows "\<exists>h. rl_id h \<in># rl_held st \<and> inside x h"
proof (cases "r_proxy x")
  case True
  have "rl_entry (rl_detached st) x" using rls_invD(2) [OF rlocks_wf_inv [OF wf] x] .
  then have "0 < rl_cover (rl_detached st) x" using True by (simp add: rl_entry_def)
  then obtain h where "h \<in> set (rl_detached st)" "inside x h" by (auto simp: rl_cover_def filter_empty_conv)
  then show ?thesis by (auto simp: rl_held_def rl_holders_def)
next
  case False
  then show ?thesis using x by (intro exI [of _ x]) (simp add: rl_held_def rl_holders_def)
qed

lemma holder_meets:
  assumes wf: "rlocks_wf st" and x: "x \<in> set (rl_locks st)" "overlap x new"
  shows "\<exists>a \<in># rl_held st. rl_meet a (rl_id new)"
proof -
  obtain h where h: "rl_id h \<in># rl_held st" "inside x h" using holder_of [OF wf x(1)] by blast
  then have "overlap h new" using x(2) by (auto intro: order.strict_trans1 order.strict_trans2)
  then show ?thesis using h(1) by (intro bexI [of _ "rl_id h"]) simp_all
qed

lemma no_holders:
  assumes wf: "rlocks_wf st" and e: "rl_held st = {#}"
  shows "rl_locks st = []" "rl_detached st = []"
proof -
  show "rl_locks st = []" using holder_of [OF wf] e by (cases "rl_locks st") auto
  show "rl_detached st = []" using e by (simp add: rl_held_def rl_holders_def)
qed

lemma wait_parks:
  assumes w: "rl_wait b x (rl_locks st) ys" and s: "rl_state st' ys ds n"
  shows "rl_parked st' b (rl_cv_of b x)"
proof -
  obtain us vs where "rl_locks st' = us @ rl_mark b x # vs" using w s by (auto simp: rl_wait_def rl_state_iff)
  then show ?thesis by (simp add: rl_parked_def rl_cv_of_def)
qed

subsection \<open>The range locks are correct\<close>

text \<open>C13: zfs_range_lock, called for a new request on a state in which the range locks are in
  order, with a range that is not empty and does not wrap, never fails an assertion.  Either the
  range that the request asks for (the end of the file for an append, the whole file when the block
  size has to grow) is granted: it is held as well as all that was held before.  Or the thread goes
  to sleep: nothing is held that was not held before, a held lock meets the range, a reader has in
  its way a writer or a lock that a writer waits for, and the condition variable is one that the
  holder of a lock in the tree has been asked to signal.\<close>

theorem zfs_range_lock_correct:
  assumes "rlocks_wf st" "rl_pending st new" "rl_ok (rl_wanted zp new)" "length (rl_detached st) + 2 < 2 ^ 32"
  shows "case zfs_range_lock zp new st of
      None \<Rightarrow> False
    | Some (RL_granted st') \<Rightarrow> rlocks_wf st' \<and> rl_held st' = rl_held st + {#rl_id (rl_wanted zp new)#} \<and>
        (\<forall>a \<in># rl_held st. rl_meet a (rl_id (rl_wanted zp new)) \<longrightarrow> rl_reads a \<and> r_type new = RL_READER)
    | Some (RL_waits st' cv) \<Rightarrow> rlocks_wf st' \<and> rl_held st' = rl_held st \<and>
        (\<exists>a \<in># rl_held st. rl_meet a (rl_id (rl_wanted zp new))) \<and>
        (r_type new = RL_READER \<longrightarrow> (\<exists>x \<in> set (rl_locks st). overlap x new \<and> (r_type x = RL_WRITER \<or> r_write_wanted x))) \<and>
        rl_parked st' (r_type new \<noteq> RL_READER) cv"
  using assms
proof (cases rule: lock_cases)
  case (granted st' ys ds' n')
  note G = pending_grant [OF assms(1-3) granted(2,3)]
  let ?w = "rl_id (rl_wanted zp new)"
  have "rl_reads a \<and> r_type new = RL_READER" if a: "a \<in># rl_held st" "rl_meet a ?w" for a
  proof -
    obtain K where "rl_held st = add_mset a K" using multi_member_split [OF a(1)] by blast
    then have "rl_held st' = add_mset a (add_mset ?w K)" using G(2) by (simp add: add_mset_commute)
    then have "?w \<in># rl_held st' - {#a#}" "a \<in># rl_held st'" by simp_all
    then have "rl_reads a \<and> rl_reads ?w" using wf_exclusive [OF G(1)] a(2) unfolding rl_exclusive_def by blast
    then show ?thesis by (simp add: rl_wanted_def split: if_splits)
  qed
  then show ?thesis using G granted(1) by simp
next
  case (waits st' x ys)
  have "x \<in> set (rl_locks st) \<and> overlap x new \<and> rl_blocks x" if "r_type new = RL_READER"
    using waits(4-6) that by (simp add: rl_wanted_def)
  then show ?thesis
    using waits(1) wait_wf [OF assms(1) waits(3,6,2)] holder_meets [OF assms(1) waits(4,5)] wait_parks [OF waits(3,2)] by auto
qed

text \<open>C14: zfs_range_unlock, called on any lock that is held, on a state in which the range locks are
  in order, never fails an assertion and its loop over the proxies of a shared range ends.
  Afterwards exactly that lock is no longer held, the range locks are in order, and every condition
  variable on which a thread may sleep belongs to a lock that is still in the tree and knows that it
  is wanted, or is one of those that were signalled.\<close>

theorem zfs_range_unlock_correct:
  assumes "rlocks_wf st" "(p, off, len, ty) \<in># rl_held st"
  shows "\<exists>st' cvs. zfs_range_unlock p st = Some (st', cvs) \<and> rlocks_wf st' \<and>
    rl_held st = rl_held st' + {#(p, off, len, ty)#} \<and>
    (\<forall>w cv. rl_parked st w cv \<longrightarrow> rl_parked st' w cv \<or> cv \<in> set cvs)"
proof -
  obtain st' cvs h ys ds' where u: "zfs_range_unlock p st = Some (st', cvs)" "rl_id h = (p, off, len, ty)"
    "rl_state st' ys ds' (rl_next st)" "rl_release h (rl_locks st) (rl_detached st) ys ds' cvs"
    using unlock_release [OF assms] by blast
  then show ?thesis using release_wf [OF assms(1) u(4,3)] release_parked [OF u(4,3)] by auto
qed


text \<open>C6: No wake-up is lost.  In every reachable state a thread that sleeps, sleeps on a lock in
  the tree that knows that it is wanted and lies within a lock that is held; so once nobody holds
  a lock, no thread sleeps, and whichever thread then runs gets its lock.\<close>

theorem rlock_no_lost_wakeup:
  assumes "rl_reachable s"
  shows "(\<forall>(new, c) \<in> set (sys_waiters s). \<forall>cv. c = Some cv \<longrightarrow>
      rl_parked (sys_locks s) (r_type new \<noteq> RL_READER) cv \<and>
      (\<exists>x \<in> set (rl_locks (sys_locks s)). cv = rl_cv_of (r_type new \<noteq> RL_READER) x \<and>
         (\<exists>h. rl_id h \<in># rl_held (sys_locks s) \<and> r_off h \<le> r_off x \<and> r_off x + r_len x \<le> r_off h + r_len h))) \<and>
    (rl_held (sys_locks s) = {#} \<longrightarrow> (\<forall>(new, c) \<in> set (sys_waiters s). c = None \<and>
      (\<forall>zp. rl_ok (rl_wanted zp new) \<longrightarrow> (\<exists>st'. zfs_range_lock zp new (sys_locks s) = Some (RL_granted st') \<and>
         rl_held st' = {#rl_id (rl_wanted zp new)#}))))"
proof -
  let ?st = "sys_locks s"
  have wf: "rlocks_wf ?st" and ok: "waiters_ok ?st (sys_waiters s)" using reachable_ok [OF assms] by (simp_all add: rl_system_ok_def)
  have 1: "rl_parked ?st (r_type new \<noteq> RL_READER) cv \<and> (\<exists>x \<in> set (rl_locks ?st). cv = rl_cv_of (r_type new \<noteq> RL_READER) x \<and>
      (\<exists>h. rl_id h \<in># rl_held ?st \<and> inside x h))" if "(new, Some cv) \<in> set (sys_waiters s)" for new cv
    using waiters_okD(3) [OF ok that] holder_of [OF wf] unfolding rl_parked_def by blast
  have 2: "c = None \<and> (\<forall>zp. rl_ok (rl_wanted zp new) \<longrightarrow> (\<exists>st'. zfs_range_lock zp new ?st = Some (RL_granted st') \<and>
      rl_held st' = {#rl_id (rl_wanted zp new)#}))" if e: "rl_held ?st = {#}" and new: "(new, c) \<in> set (sys_waiters s)" for new c
  proof (intro conjI allI impI)
    note n = no_holders [OF wf e]
    show "c = None" using 1 [of new] new n(1) by (cases c) auto
    fix zp assume w: "rl_ok (rl_wanted zp new)"
    note p = waiters_okD(2) [OF ok new]
    have b: "length (rl_detached ?st) + 2 < 2 ^ 32" using n(2) by simp
    from wf p w b show "\<exists>st'. zfs_range_lock zp new ?st = Some (RL_granted st') \<and> rl_held st' = {#rl_id (rl_wanted zp new)#}"
    proof (cases rule: lock_cases)
      case (granted st' ys ds' n')
      then show ?thesis using pending_grant(2) [OF wf p w granted(2,3)] e by simp
    qed (use n(1) in simp)
  qed
  show ?thesis using 1 2 by blast
qed

subsection \<open>A volume with two readers and a writer\<close>

text \<open>Two readers share the range from 5 to 10; the writer of the range from 8 to 12 goes to sleep.\<close>

definition rl_zvol :: znode where
  "rl_zvol = \<lparr>z_vnode = False, zp_size = 0, z_blksz = 0, z_max_blksz = 0\<rparr>"

fun rl_after :: "rl_result option \<Rightarrow> rlocks" where
  "rl_after (Some (RL_granted st)) = st"
| "rl_after (Some (RL_waits st cv)) = st"
| "rl_after None = rlocks_init"

fun rl_sleeps_on :: "rl_result option \<Rightarrow> rl_cv option" where
  "rl_sleeps_on (Some (RL_waits st cv)) = Some cv"
| "rl_sleeps_on r = None"

fun rl_got :: "rl_result option \<Rightarrow> bool" where
  "rl_got (Some (RL_granted st)) = True"
| "rl_got r = False"

definition demo_reader1 :: rlocks where
  "demo_reader1 = rl_after (zfs_range_lock rl_zvol (rl_new 0 0 10 RL_READER) (rlocks_init\<lparr>rl_next := 1\<rparr>))"

definition demo_reader2 :: rlocks where
  "demo_reader2 = rl_after (zfs_range_lock rl_zvol (rl_new 1 5 10 RL_READER) (demo_reader1\<lparr>rl_next := 2\<rparr>))"

definition demo_writer :: rlocks where
  "demo_writer = rl_after (zfs_range_lock rl_zvol (rl_new 5 8 4 RL_WRITER) (demo_reader2\<lparr>rl_next := 6\<rparr>))"

lemma rl_got: "rl_got r \<Longrightarrow> r = Some (RL_granted (rl_after r))"
  by (cases r rule: rl_got.cases) simp_all

lemma rl_sleeps_on: "rl_sleeps_on r = Some cv \<Longrightarrow> r = Some (RL_waits (rl_after r) cv)"
  by (cases r rule: rl_sleeps_on.cases) simp_all

lemma demo_next: "rl_next demo_reader1 = 1" "rl_next demo_reader2 = 5" "rl_next rlocks_init = 0"
  by code_simp+

lemma demo_ok: "rl_ok (rl_wanted rl_zvol (rl_new 0 0 10 RL_READER))" "rl_ok (rl_wanted rl_zvol (rl_new 1 5 10 RL_READER))"
  "rl_ok (rl_wanted rl_zvol (rl_new 5 8 4 RL_WRITER))"
  by code_simp+

lemma demo_detached: "length (rl_detached demo_reader1) = 0" "length (rl_detached demo_reader2) = 2" "length (rl_detached rlocks_init) = 0"
  by code_simp+

lemma demo_got: "rl_got (zfs_range_lock rl_zvol (rl_new 0 0 10 RL_READER) (rlocks_init\<lparr>rl_next := 1\<rparr>))"
  "rl_got (zfs_range_lock rl_zvol (rl_new 1 5 10 RL_READER) (demo_reader1\<lparr>rl_next := 2\<rparr>))"
  "rl_sleeps_on (zfs_range_lock rl_zvol (rl_new 5 8 4 RL_WRITER) (demo_reader2\<lparr>rl_next := 6\<rparr>)) = Some (r_wr_cv 4)"
  by code_simp+

lemma demo_reader1: "rl_reachable \<lparr>sys_locks = demo_reader1, sys_waiters = []\<rparr>"
proof -
  let ?new = "rl_new 0 0 10 RL_READER"
  have "rl_reachable \<lparr>sys_locks = rlocks_init\<lparr>rl_next := 1\<rparr>, sys_waiters = [(?new, None)]\<rparr>"
    using rl_further [OF rl_initial rl_arrives] by (simp add: demo_next)
  from rl_further [OF this rl_gets [where new = ?new and zp = rl_zvol and st' = demo_reader1]] show ?thesis
    using rl_got [OF demo_got(1)] by (simp add: demo_ok demo_detached demo_reader1_def)
qed

lemma demo_reader2: "rl_reachable \<lparr>sys_locks = demo_reader2, sys_waiters = []\<rparr>"
proof -
  let ?new = "rl_new 1 5 10 RL_READER"
  have "rl_reachable \<lparr>sys_locks = demo_reader1\<lparr>rl_next := 2\<rparr>, sys_waiters = [(?new, None)]\<rparr>"
    using rl_further [OF demo_reader1 rl_arrives] by (simp add: demo_next numeral_2_eq_2)
  from rl_further [OF this rl_gets [where new = ?new and zp = rl_zvol and st' = demo_reader2]] show ?thesis
    using rl_got [OF demo_got(2)] demo_ok(2) by (simp add: demo_detached demo_reader2_def)
qed

lemma demo_arrived: "rl_reachable \<lparr>sys_locks = demo_reader2\<lparr>rl_next := 6\<rparr>, sys_waiters = [(rl_new 5 8 4 RL_WRITER, None)]\<rparr>"
  using rl_further [OF demo_reader2 rl_arrives] by (simp add: demo_next)

lemma demo_writer: "rl_reachable \<lparr>sys_locks = demo_writer, sys_waiters = [(rl_new 5 8 4 RL_WRITER, Some (r_wr_cv 4))]\<rparr>"
  using rl_further [OF demo_arrived rl_sleeps [where new = "rl_new 5 8 4 RL_WRITER" and zp = rl_zvol and st' = demo_writer and cv = "r_wr_cv 4"]]
    rl_sleeps_on [OF demo_got(3)] by (simp add: demo_ok demo_detached demo_writer_def rl_park_def)

lemma demo_held: "rl_held demo_writer = {#(1, 5, 10, RL_READER), (0, 0, 10, RL_READER)#}"
  by code_simp

lemma demo_wf: "rlocks_wf (demo_reader2\<lparr>rl_next := 6\<rparr>)" "rlocks_wf demo_writer"
  "rl_pending (demo_reader2\<lparr>rl_next := 6\<rparr>) (rl_new 5 8 4 RL_WRITER)"
  using reachable_ok [OF demo_arrived] reachable_ok [OF demo_writer] by (simp_all add: rl_system_ok_def waiters_ok_def)

theorem zfs_range_lock_correct_witness:
  "\<exists>st'. zfs_range_lock rl_zvol (rl_new 5 8 4 RL_WRITER) (demo_reader2\<lparr>rl_next := 6\<rparr>) = Some (RL_waits st' (r_wr_cv 4)) \<and>
     rlocks_wf st' \<and> rl_held st' = rl_held (demo_reader2\<lparr>rl_next := 6\<rparr>)"
proof -
  have b: "length (rl_detached (demo_reader2\<lparr>rl_next := 6\<rparr>)) + 2 < 2 ^ 32" using demo_detached(2) by simp
  obtain st' where "zfs_range_lock rl_zvol (rl_new 5 8 4 RL_WRITER) (demo_reader2\<lparr>rl_next := 6\<rparr>) = Some (RL_waits st' (r_wr_cv 4))"
    using rl_sleeps_on [OF demo_got(3)] by blast
  then show ?thesis using zfs_range_lock_correct [OF demo_wf(1,3) demo_ok(3) b] by simp
qed

theorem zfs_range_unlock_correct_witness:
  "\<exists>st' cvs. zfs_range_unlock 1 demo_writer = Some (st', cvs) \<and> rlocks_wf st' \<and> rl_held st' = {#(0, 0, 10, RL_READER)#}"
proof -
  have h: "(1, 5, 10, RL_READER) \<in># rl_held demo_writer" by (simp add: demo_held)
  show ?thesis using zfs_range_unlock_correct [OF demo_wf(2) h] by (auto simp: demo_held)
qed


theorem rlock_no_lost_wakeup_witness:
  "rl_parked demo_writer True (r_wr_cv 4) \<and> (\<exists>x \<in> set (rl_locks demo_writer). r_addr x = 4 \<and>
     (\<exists>h. rl_id h \<in># rl_held demo_writer \<and> r_off h \<le> r_off x \<and> r_off x + r_len x \<le> r_off h + r_len h))"
  using rlock_no_lost_wakeup [OF demo_writer] by (fastforce simp: rl_new_def rl_cv_of_def)

end
