(* ===== verification/Spec2Isabelle.thy ===== *)
theory Spec2Isabelle
  imports Space_Map_Log Namecheck Blkptr Compress Checksum Raidz_Io Rlock_Threads
begin

text \<open>
  \<^bold>\<open>A verification of the ZFS storage code.\<close>

  The program is the ZFS file system of the source tree under \<^verbatim>\<open>src/usr/src\<close>.

  \<^item> \<^theory_text>\<open>Prelude\<close>: generic lemmas, the alignment macros of \<^verbatim>\<open>sys/sysmacros.h\<close> and
    the bit-field macros of \<^verbatim>\<open>sys/spa.h\<close>.
  \<^item> \<^theory_text>\<open>Avl\<close>: the AVL trees of \<^verbatim>\<open>common/avl/avl.c\<close>.
  \<^item> \<^theory_text>\<open>Space_Map\<close>, \<^theory_text>\<open>Space_Map_Log\<close>: the space maps of \<^verbatim>\<open>fs/zfs/space_map.c\<close>
    in core, and the logs that store them.
\<close>

end
